(* ===== verification/BfPrelude.thy ===== *)
theory BfPrelude
  imports Main "HOL-Library.Word" "HOL-Library.Monad_Syntax" "HOL-Library.Multiset"
begin

unbundle bit_operations_syntax

section \<open>What the components share\<close>

text \<open>
  The names of the machine types, the reading of C's integer conversions and array accesses,
  and the small lemmas the component theories use.

  A C function is a HOL function into \<open>'a option\<close> wherever it can have undefined behaviour:
  \<open>None\<close> stands for an execution the C standard gives no meaning (a null or dangling pointer is
  dereferenced, an array is read or written out of its bounds, an uninitialised cell is used, a
  signed shift overflows) or for a loop that does not end; \<open>Some r\<close> is a defined execution with
  the result \<open>r\<close>. So \<open>f x = Some r\<close> always includes memory safety and termination. An error
  that the code itself reports (\<open>-1\<close>, \<open>NULL\<close>) is an ordinary result inside \<open>Some\<close>.
\<close>

subsection \<open>Machine types\<close>

type_synonym u8 = "8 word"
type_synonym u32 = "32 word"
type_synonym u64 = "64 word"

text \<open>A pointer is \<open>NULL\<close> (\<open>None\<close>) or the address of an object in the model's store.\<close>

type_synonym addr = nat
type_synonym ptr = "addr option"

named_theorems c_sem \<open>defining equations of the C operations, for evaluation\<close>

subsection \<open>Integer division and array access as C has them\<close>

text \<open>C's \<open>/\<close> and \<open>%\<close> on signed integers round towards zero.\<close>

definition c_div :: "int \<Rightarrow> int \<Rightarrow> int" where
  [c_sem]: "c_div a b = sgn a * sgn b * (\<bar>a\<bar> div \<bar>b\<bar>)"

definition c_mod :: "int \<Rightarrow> int \<Rightarrow> int" where
  [c_sem]: "c_mod a b = a - c_div a b * b"

lemma c_div_nonneg [simp]: "0 \<le> a \<Longrightarrow> 0 < b \<Longrightarrow> c_div a b = a div b"
  by (cases "a = 0") (simp_all add: c_div_def)

lemma c_mod_nonneg [simp]: "0 \<le> a \<Longrightarrow> 0 < b \<Longrightarrow> c_mod a b = a mod b"
  by (simp add: c_mod_def minus_div_mult_eq_mod)

text \<open>Reading and writing an array cell: outside the array the behaviour is undefined.\<close>

definition c_read :: "'a list \<Rightarrow> int \<Rightarrow> 'a option" where
  [c_sem]: "c_read xs i = (if 0 \<le> i \<and> i < int (length xs) then Some (xs ! nat i) else None)"

definition c_write :: "'a list \<Rightarrow> int \<Rightarrow> 'a \<Rightarrow> 'a list option" where
  [c_sem]: "c_write xs i v =
     (if 0 \<le> i \<and> i < int (length xs) then Some (xs[nat i := v]) else None)"

lemma c_read_nat [simp]: "i < length xs \<Longrightarrow> c_read xs (int i) = Some (xs ! i)"
  by (simp add: c_read_def)

lemma c_write_nat [simp]: "i < length xs \<Longrightarrow> c_write xs (int i) v = Some (xs[i := v])"
  by (simp add: c_write_def)

lemma c_write_length: "c_write xs i v = Some ys \<Longrightarrow> length ys = length xs"
  by (auto simp: c_write_def split: if_splits)

subsection \<open>Integer conversions\<close>

text \<open>Conversion of a value to \<open>int\<close>, \<open>long\<close> and \<open>size_t\<close>: the low 32 or 64 bits.\<close>

definition to_int :: "int \<Rightarrow> int" where
  [c_sem]: "to_int x = (x + 2 ^ 31) mod 2 ^ 32 - 2 ^ 31"

definition to_long :: "int \<Rightarrow> int" where
  [c_sem]: "to_long x = (x + 2 ^ 63) mod 2 ^ 64 - 2 ^ 63"

definition to_size :: "int \<Rightarrow> int" where
  [c_sem]: "to_size x = x mod 2 ^ 64"

text \<open>The result of signed arithmetic in \<open>int\<close> and in \<open>long\<close>.\<close>

definition c_int :: "int \<Rightarrow> int option" where
  [c_sem]: "c_int x = (if - (2 ^ 31) \<le> x \<and> x < 2 ^ 31 then Some x else None)"

definition c_long :: "int \<Rightarrow> int option" where
  [c_sem]: "c_long x = (if - (2 ^ 63) \<le> x \<and> x < 2 ^ 63 then Some x else None)"

lemma to_int_id [simp]: "- 2147483648 \<le> x \<Longrightarrow> x < 2147483648 \<Longrightarrow> to_int x = x"
  by (simp add: to_int_def)

lemma to_long_id [simp]: "- 9223372036854775808 \<le> x \<Longrightarrow> x < 9223372036854775808 \<Longrightarrow> to_long x = x"
  by (simp add: to_long_def)

lemma to_size_id [simp]: "0 \<le> x \<Longrightarrow> x < 18446744073709551616 \<Longrightarrow> to_size x = x"
  by (simp add: to_size_def)

lemma to_size_neg: "- 18446744073709551616 \<le> x \<Longrightarrow> x < 0 \<Longrightarrow> to_size x = x + 18446744073709551616"
  using mod_pos_pos_trivial [of "x + 18446744073709551616" 18446744073709551616]
  by (simp add: to_size_def)

lemma c_int_id [simp]: "- 2147483648 \<le> x \<Longrightarrow> x < 2147483648 \<Longrightarrow> c_int x = Some x"
  by (simp add: c_int_def)

lemma c_long_id [simp]: "- 9223372036854775808 \<le> x \<Longrightarrow> x < 9223372036854775808 \<Longrightarrow> c_long x = Some x"
  by (simp add: c_long_def)

subsection \<open>Conditions\<close>

text \<open>A check whose failure is undefined behaviour.\<close>

definition c_require :: "bool \<Rightarrow> unit option" where
  [c_sem]: "c_require b = (if b then Some () else None)"

lemma c_require_simps [simp]:
  "c_require True = Some ()"
  "c_require False = None"
  by (simp_all add: c_require_def)

lemma c_require_Some [simp]: "c_require b = Some u \<longleftrightarrow> b"
  by (simp add: c_require_def)

text \<open>C's \<open>&&\<close>: the right operand is evaluated only if the left one is true.\<close>

definition c_and :: "bool option \<Rightarrow> bool option \<Rightarrow> bool option" where
  [c_sem]: "c_and a b = do { x \<leftarrow> a; if x then b else Some False }"

lemma c_and_simps [simp]:
  "c_and (Some True) b = b"
  "c_and (Some False) b = Some False"
  "c_and None b = None"
  by (simp_all add: c_and_def)

lemma c_and_Some: "c_and (Some x) (Some y) = Some (x \<and> y)"
  by (simp add: c_and_def)

subsection \<open>Lemmas on numbers and lists\<close>

lemma mod_add_inj:
  assumes "(a + i) mod m = (a + j) mod m" and "i < m" and "j < m"
  shows "i = (j :: nat)"
proof -
  have *: "i = j" if "i \<le> j" "(a + i) mod m = (a + j) mod m" "i < m" "j < m" for i j
  proof -
    from that have "m dvd (a + j) - (a + i)"
      using mod_eq_dvd_iff_nat [of "a + i" "a + j" m] by simp
    with that show "i = j" using dvd_imp_le [of m "j - i"] by (cases "i = j") auto
  qed
  show ?thesis using * [of i j] * [of j i] assms by (cases "i \<le> j") auto
qed

subsection \<open>Comparison functions\<close>

text \<open>
  What the heap and the tree rely on in the comparison function of their client: a total preorder.
\<close>

locale comparator =
  fixes cmp :: "'a \<Rightarrow> 'a \<Rightarrow> int"
  assumes cmp_swap: "cmp x y < 0 \<longleftrightarrow> cmp y x > 0"
    and cmp_trans: "cmp x y \<le> 0 \<Longrightarrow> cmp y z \<le> 0 \<Longrightarrow> cmp x z \<le> 0"
begin

lemma cmp_refl: "cmp x x = 0"
  using cmp_swap [of x x] by linarith

lemma cmp_ge: "0 \<le> cmp x y \<longleftrightarrow> cmp y x \<le> 0"
  using cmp_swap [of x y] by linarith

lemma cmp_total: "cmp x y \<le> 0 \<or> cmp y x \<le> 0"
  using cmp_swap [of y x] by linarith

lemma cmp_not_less: "\<not> cmp x y < 0 \<Longrightarrow> cmp y x \<le> 0"
  using cmp_ge [of x y] by linarith

lemma cmp_less_trans: "cmp x y < 0 \<Longrightarrow> cmp y z \<le> 0 \<Longrightarrow> cmp x z < 0"
  using cmp_not_less [of x z] cmp_trans [of y z x] cmp_swap [of x y] by linarith

lemma cmp_le_less_trans: "cmp x y \<le> 0 \<Longrightarrow> cmp y z < 0 \<Longrightarrow> cmp x z < 0"
  using cmp_not_less [of x z] cmp_trans [of z x y] cmp_swap [of y z] by linarith

end

end
