(* ===== verification/CounterThreads.thy ===== *)
theory CounterThreads
  imports Counter
begin

section \<open>The counter under several threads (counter.c, the mutex)\<close>

text \<open>
  Any number of threads call \<open>counter_next\<close>, \<open>counter_ctl\<close> and \<open>counter_reset\<close> on one counter.
  A step is one test or one access of one thread; in particular \<open>next = counter->n++\<close> is a read of
  \<open>n\<close> and a later write of \<open>n\<close>, between which other threads may run. The mutex is a state component
  that \<open>pthread_mutex_lock\<close> waits for; nothing but the mutex keeps the steps of two calls apart.
  \<open>counter_reset\<close> reads \<open>counter->min\<close> while it evaluates the arguments of its call of
  \<open>counter_ctl\<close>, so before the lock is taken. Three ghost components record the calls in the order
  they began, the effects (the write of \<open>n\<close> by \<open>counter_next\<close>, the assignment of \<open>counter_ctl\<close>) in
  the order they happened, and the values that \<open>counter_next\<close> returned to its callers.
\<close>

subsection \<open>Threads and their steps\<close>

datatype call = CallNext | CallReset | CallCtl int u64

text \<open>
  Where a thread is: in no call, or before the named action of one. A thread at \<open>NextWrite v\<close> has
  read \<open>v\<close> from \<open>n\<close> and has not yet stored \<open>v + 1\<close>; at \<open>NextUnlock v\<close> its local \<open>next\<close> is \<open>v\<close>.
\<close>

datatype cpc =
    Idle
  | NextLock | NextTest | NextSet | NextRead | NextWrite u64 | NextUnlock u64
  | ResetRead
  | CtlLock int u64 | CtlSwitch int u64 | CtlUnlock

datatype effect = DidNext u64 | DidCtl int u64

record csys =
  cs_counter :: counter
  cs_lock :: "nat option"
  cs_pc :: "nat \<Rightarrow> cpc"
  cs_calls :: "(nat \<times> call) list"
  cs_effects :: "effect list"
  cs_returned :: "(nat \<times> u64) list"

definition cs_init :: csys where
  "cs_init = \<lparr>cs_counter = counter_create, cs_lock = None, cs_pc = (\<lambda>_. Idle),
              cs_calls = [], cs_effects = [], cs_returned = []\<rparr>"

fun call_entry :: "call \<Rightarrow> cpc" where
  "call_entry CallNext = NextLock"
| "call_entry CallReset = ResetRead"
| "call_entry (CallCtl opt v) = CtlLock opt v"

definition goto :: "nat \<Rightarrow> cpc \<Rightarrow> csys \<Rightarrow> csys" where
  "goto i p s = s\<lparr>cs_pc := (cs_pc s)(i := p)\<rparr>"

inductive cstep :: "csys \<Rightarrow> csys \<Rightarrow> bool" where
  call: "cs_pc s i = Idle \<Longrightarrow>
     cstep s (goto i (call_entry c) (s\<lparr>cs_calls := cs_calls s @ [(i, c)]\<rparr>))"
| next_lock: "cs_pc s i = NextLock \<Longrightarrow> cs_lock s = None \<Longrightarrow>
     cstep s (goto i NextTest (s\<lparr>cs_lock := Some i\<rparr>))"
| next_test: "cs_pc s i = NextTest \<Longrightarrow>
     p = (if cnt_n (cs_counter s) \<ge> cnt_max (cs_counter s) then NextSet else NextRead) \<Longrightarrow>
     cstep s (goto i p s)"
| next_set: "cs_pc s i = NextSet \<Longrightarrow>
     cstep s (goto i NextRead
       (s\<lparr>cs_counter := (cs_counter s)\<lparr>cnt_n := cnt_min (cs_counter s)\<rparr>\<rparr>))"
| next_read: "cs_pc s i = NextRead \<Longrightarrow>
     cstep s (goto i (NextWrite (cnt_n (cs_counter s))) s)"
| next_write: "cs_pc s i = NextWrite v \<Longrightarrow>
     cstep s (goto i (NextUnlock v)
       (s\<lparr>cs_counter := (cs_counter s)\<lparr>cnt_n := v + 1\<rparr>,
          cs_effects := cs_effects s @ [DidNext v]\<rparr>))"
| next_unlock: "cs_pc s i = NextUnlock v \<Longrightarrow>
     cstep s (goto i Idle (s\<lparr>cs_lock := None, cs_returned := cs_returned s @ [(i, v)]\<rparr>))"
| reset_read: "cs_pc s i = ResetRead \<Longrightarrow>
     cstep s (goto i (CtlLock COUNTER_CTL_MIN (cnt_min (cs_counter s))) s)"
| ctl_lock: "cs_pc s i = CtlLock opt v \<Longrightarrow> cs_lock s = None \<Longrightarrow>
     cstep s (goto i (CtlSwitch opt v) (s\<lparr>cs_lock := Some i\<rparr>))"
| ctl_switch: "cs_pc s i = CtlSwitch opt v \<Longrightarrow>
     cstep s (goto i CtlUnlock
       (s\<lparr>cs_counter := counter_ctl (cs_counter s) opt v,
          cs_effects := cs_effects s @ [DidCtl opt v]\<rparr>))"
| ctl_unlock: "cs_pc s i = CtlUnlock \<Longrightarrow>
     cstep s (goto i Idle (s\<lparr>cs_lock := None\<rparr>))"

inductive creach :: "csys \<Rightarrow> bool" where
  init: "creach cs_init"
| step: "creach s \<Longrightarrow> cstep s t \<Longrightarrow> creach t"

lemma goto_simps [simp]:
  "cs_counter (goto i p s) = cs_counter s"
  "cs_lock (goto i p s) = cs_lock s"
  "cs_pc (goto i p s) = (cs_pc s)(i := p)"
  "cs_calls (goto i p s) = cs_calls s"
  "cs_effects (goto i p s) = cs_effects s"
  "cs_returned (goto i p s) = cs_returned s"
  by (simp_all add: goto_def)

subsection \<open>The sequential meaning of a list of effects\<close>

text \<open>
  A list of effects is legal from a counter if running the operations one after the other from
  it returns exactly the recorded values; the result is the counter afterwards.
\<close>

fun run_effects :: "counter \<Rightarrow> effect list \<Rightarrow> counter option" where
  "run_effects c [] = Some c"
| "run_effects c (DidNext v # es) =
     (let (v', c') = counter_next c in if v' = v then run_effects c' es else None)"
| "run_effects c (DidCtl opt v # es) = run_effects (counter_ctl c opt v) es"

lemma run_effects_append:
  "run_effects c (es @ fs) =
     (case run_effects c es of None \<Rightarrow> None | Some c' \<Rightarrow> run_effects c' fs)"
  by (induction c es rule: run_effects.induct) (auto simp: Let_def split: prod.split)


text \<open>The values among the effects that calls of \<open>counter_next\<close> took.\<close>

fun next_values :: "effect list \<Rightarrow> u64 list" where
  "next_values [] = []"
| "next_values (DidNext v # es) = v # next_values es"
| "next_values (DidCtl opt v # es) = next_values es"

lemma next_values_append [simp]: "next_values (es @ fs) = next_values es @ next_values fs"
  by (induction es rule: next_values.induct) simp_all

subsection \<open>The invariant\<close>

fun critical :: "cpc \<Rightarrow> bool" where
  "critical NextTest = True"
| "critical NextSet = True"
| "critical NextRead = True"
| "critical (NextWrite v) = True"
| "critical (NextUnlock v) = True"
| "critical (CtlSwitch opt v) = True"
| "critical CtlUnlock = True"
| "critical _ = False"

text \<open>
  How the stored counter \<open>d\<close> differs from the one \<open>c\<close> that the effects give, by where the holder of
  the lock is: between the test of \<open>counter_next\<close> and its final write, \<open>n\<close> may already be wrapped.
\<close>

fun view_ok :: "cpc \<Rightarrow> counter \<Rightarrow> counter \<Rightarrow> bool" where
  "view_ok NextSet c d \<longleftrightarrow> d = c \<and> cnt_n c \<ge> cnt_max c"
| "view_ok NextRead c d \<longleftrightarrow> d = counter_wrap c"
| "view_ok (NextWrite v) c d \<longleftrightarrow> d = counter_wrap c \<and> v = cnt_n d"
| "view_ok _ c d \<longleftrightarrow> d = c"

text \<open>The value that the holder of the lock took and has not yet returned.\<close>

fun unreturned :: "cpc \<Rightarrow> u64 list" where
  "unreturned (NextUnlock v) = [v]"
| "unreturned _ = []"

definition holder_pc :: "csys \<Rightarrow> cpc" where
  "holder_pc s = (case cs_lock s of None \<Rightarrow> Idle | Some i \<Rightarrow> cs_pc s i)"

definition mutex_inv :: "csys \<Rightarrow> bool" where
  "mutex_inv s \<longleftrightarrow> (\<forall>i. critical (cs_pc s i) \<longleftrightarrow> cs_lock s = Some i)"

definition serial_inv :: "csys \<Rightarrow> bool" where
  "serial_inv s \<longleftrightarrow>
     (\<exists>c. run_effects counter_create (cs_effects s) = Some c \<and>
          view_ok (holder_pc s) c (cs_counter s)) \<and>
     next_values (cs_effects s) = map snd (cs_returned s) @ unreturned (holder_pc s)"

lemma call_entry_not_critical [simp]: "\<not> critical (call_entry c)"
  by (cases c) simp_all

lemma mutex_inv_step: "cstep s t \<Longrightarrow> mutex_inv s \<Longrightarrow> mutex_inv t"
  by (induction rule: cstep.induct) (force simp: mutex_inv_def)+

lemma mutex_inv_holder:
  "mutex_inv s \<Longrightarrow> critical (cs_pc s i) \<Longrightarrow> cs_lock s = Some i"
  by (simp add: mutex_inv_def)

lemma mutex_inv_outside:
  "mutex_inv s \<Longrightarrow> \<not> critical (cs_pc s i) \<Longrightarrow> cs_lock s = Some j \<Longrightarrow> j \<noteq> i"
  by (auto simp: mutex_inv_def)

text \<open>A step of a thread outside the critical section does not change what the holder sees.\<close>

lemma holder_pc_outside:
  assumes "mutex_inv s" and "\<not> critical (cs_pc s i)"
  shows "holder_pc (goto i p s) = holder_pc s"
  using mutex_inv_outside [OF assms] by (auto simp: holder_pc_def split: option.split)

lemma holder_pc_frame [simp]:
  "holder_pc (s\<lparr>cs_calls := cs\<rparr>) = holder_pc s"
  by (simp add: holder_pc_def split: option.split)

lemma serial_inv_step:
  assumes "cstep s t" and "mutex_inv s" and "serial_inv s"
  shows "serial_inv t"
  using assms
proof (induction rule: cstep.induct)
  case (call s i c)
  have "holder_pc (goto i (call_entry c) (s\<lparr>cs_calls := cs_calls s @ [(i, c)]\<rparr>)) = holder_pc s"
    using call by (subst holder_pc_outside) (simp_all add: mutex_inv_def)
  with call show ?case by (simp add: serial_inv_def)
next
  case (next_lock s i)
  then show ?case by (simp add: serial_inv_def holder_pc_def)
next
  case (next_test s i p)
  then have "cs_lock s = Some i" by (simp add: mutex_inv_holder)
  with next_test show ?case by (auto simp: serial_inv_def holder_pc_def counter_wrap_def)
next
  case (next_set s i)
  then have "cs_lock s = Some i" by (simp add: mutex_inv_holder)
  with next_set show ?case by (auto simp: serial_inv_def holder_pc_def counter_wrap_def)
next
  case (next_read s i)
  then have "cs_lock s = Some i" by (simp add: mutex_inv_holder)
  with next_read show ?case by (auto simp: serial_inv_def holder_pc_def)
next
  case (next_write s i v)
  then have "cs_lock s = Some i" by (simp add: mutex_inv_holder)
  with next_write show ?case
    by (auto simp: serial_inv_def holder_pc_def run_effects_append counter_next_def Let_def)
next
  case (next_unlock s i v)
  then have "cs_lock s = Some i" by (simp add: mutex_inv_holder)
  with next_unlock show ?case by (simp add: serial_inv_def holder_pc_def)
next
  case (reset_read s i)
  then have "holder_pc (goto i p s) = holder_pc s" for p
    by (simp add: holder_pc_outside)
  with reset_read show ?case by (simp add: serial_inv_def)
next
  case (ctl_lock s i opt v)
  then show ?case by (simp add: serial_inv_def holder_pc_def)
next
  case (ctl_switch s i opt v)
  then have "cs_lock s = Some i" by (simp add: mutex_inv_holder)
  with ctl_switch show ?case
    by (auto simp: serial_inv_def holder_pc_def run_effects_append)
next
  case (ctl_unlock s i)
  then have "cs_lock s = Some i" by (simp add: mutex_inv_holder)
  with ctl_unlock show ?case by (simp add: serial_inv_def holder_pc_def)
qed

lemma creach_inv: "creach s \<Longrightarrow> mutex_inv s \<and> serial_inv s"
proof (induction rule: creach.induct)
  case init
  show ?case by (simp add: mutex_inv_def serial_inv_def holder_pc_def cs_init_def)
next
  case (step s t)
  then show ?case using mutex_inv_step serial_inv_step by blast
qed

lemma creach_serial:
  "creach s \<Longrightarrow> cs_lock s = None \<Longrightarrow>
   run_effects counter_create (cs_effects s) = Some (cs_counter s)"
  using creach_inv [of s] by (auto simp: serial_inv_def holder_pc_def)



subsection \<open>The unprotected read of counter\_reset\<close>

text \<open>
  A run in which thread 1 sets the minimum to 5 between the read and the write of thread 0's
  reset. Each line is one statement.
\<close>

definition lost_update_run :: "csys list" where
  "lost_update_run =
    (let s0 = cs_init;
         s1 = goto 0 ResetRead (s0\<lparr>cs_calls := [(0, CallReset)]\<rparr>);
         s2 = goto 0 (CtlLock 1 0) s1;
         s3 = goto 1 (CtlLock 1 5) (s2\<lparr>cs_calls := [(0, CallReset), (1, CallCtl 1 5)]\<rparr>);
         s4 = goto 1 (CtlSwitch 1 5) (s3\<lparr>cs_lock := Some 1\<rparr>);
         s5 = goto 1 CtlUnlock
                (s4\<lparr>cs_counter := counter_ctl counter_create 1 5, cs_effects := [DidCtl 1 5]\<rparr>);
         s6 = goto 1 Idle (s5\<lparr>cs_lock := None\<rparr>);
         s7 = goto 0 (CtlSwitch 1 0) (s6\<lparr>cs_lock := Some 0\<rparr>);
         s8 = goto 0 CtlUnlock
                (s7\<lparr>cs_counter := counter_ctl (counter_ctl counter_create 1 5) 1 0,
                    cs_effects := [DidCtl 1 5, DidCtl 1 0]\<rparr>);
         s9 = goto 0 Idle (s8\<lparr>cs_lock := None\<rparr>)
     in [s0, s1, s2, s3, s4, s5, s6, s7, s8, s9])"

fun is_run :: "csys list \<Rightarrow> bool" where
  "is_run (s # t # ss) \<longleftrightarrow> cstep s t \<and> is_run (t # ss)"
| "is_run _ = True"

lemma is_run_reach: "is_run ss \<Longrightarrow> ss \<noteq> [] \<Longrightarrow> creach (hd ss) \<Longrightarrow> creach (last ss)"
  by (induction ss rule: is_run.induct) (auto dest: creach.step)

text \<open>Each kind of step with its target as an equation, to check a concrete run.\<close>

lemma cstep_intros:
  "cs_pc s i = Idle \<Longrightarrow>
     t = goto i (call_entry c) (s\<lparr>cs_calls := cs_calls s @ [(i, c)]\<rparr>) \<Longrightarrow> cstep s t"
  "cs_pc s i = ResetRead \<Longrightarrow>
     t = goto i (CtlLock COUNTER_CTL_MIN (cnt_min (cs_counter s))) s \<Longrightarrow> cstep s t"
  "cs_pc s i = CtlLock opt v \<Longrightarrow> cs_lock s = None \<Longrightarrow>
     t = goto i (CtlSwitch opt v) (s\<lparr>cs_lock := Some i\<rparr>) \<Longrightarrow> cstep s t"
  "cs_pc s i = CtlSwitch opt v \<Longrightarrow>
     t = goto i CtlUnlock (s\<lparr>cs_counter := counter_ctl (cs_counter s) opt v,
          cs_effects := cs_effects s @ [DidCtl opt v]\<rparr>) \<Longrightarrow> cstep s t"
  "cs_pc s i = CtlUnlock \<Longrightarrow> t = goto i Idle (s\<lparr>cs_lock := None\<rparr>) \<Longrightarrow> cstep s t"
  "cs_pc s i = NextLock \<Longrightarrow> cs_lock s = None \<Longrightarrow>
     t = goto i NextTest (s\<lparr>cs_lock := Some i\<rparr>) \<Longrightarrow> cstep s t"
  "cs_pc s i = NextTest \<Longrightarrow> cnt_n (cs_counter s) < cnt_max (cs_counter s) \<Longrightarrow>
     t = goto i NextRead s \<Longrightarrow> cstep s t"
  "cs_pc s i = NextRead \<Longrightarrow>
     t = goto i (NextWrite (cnt_n (cs_counter s))) s \<Longrightarrow> cstep s t"
  "cs_pc s i = NextWrite v \<Longrightarrow>
     t = goto i (NextUnlock v) (s\<lparr>cs_counter := (cs_counter s)\<lparr>cnt_n := v + 1\<rparr>,
          cs_effects := cs_effects s @ [DidNext v]\<rparr>) \<Longrightarrow> cstep s t"
  "cs_pc s i = NextUnlock v \<Longrightarrow>
     t = goto i Idle (s\<lparr>cs_lock := None, cs_returned := cs_returned s @ [(i, v)]\<rparr>) \<Longrightarrow> cstep s t"
  by (auto intro: cstep.intros)

lemma lost_update_is_run: "is_run lost_update_run"
  unfolding lost_update_run_def Let_def is_run.simps
  apply (intro conjI TrueI)
          apply (rule cstep_intros(1) [where i = 0 and c = CallReset];
                 simp add: cs_init_def goto_def)
         apply (rule cstep_intros(2) [where i = 0];
                simp add: cs_init_def goto_def counter_create_def COUNTER_MIN_def COUNTER_CTL_MIN_def)
        apply (rule cstep_intros(1) [where i = 1 and c = "CallCtl 1 5"];
               simp add: cs_init_def goto_def)
       apply (rule cstep_intros(3) [where i = 1]; simp add: cs_init_def goto_def)
      apply (rule cstep_intros(4) [where i = 1]; simp add: cs_init_def goto_def)
     apply (rule cstep_intros(5) [where i = 1]; simp add: cs_init_def goto_def)
    apply (rule cstep_intros(3) [where i = 0]; simp add: cs_init_def goto_def)
   apply (rule cstep_intros(4) [where i = 0]; simp add: cs_init_def goto_def)
  apply (rule cstep_intros(5) [where i = 0]; simp add: cs_init_def goto_def)
  done

lemma lost_update_reach: "creach (last lost_update_run)"
  using lost_update_is_run
  by (rule is_run_reach) (simp_all add: lost_update_run_def creach.init Let_def)

lemma lost_update_final:
  "cs_calls (last lost_update_run) = [(0, CallReset), (1, CallCtl COUNTER_CTL_MIN 5)]"
  "cs_pc (last lost_update_run) i = Idle"
  "cnt_min (cs_counter (last lost_update_run)) = 0"
  by (simp_all add: lost_update_run_def Let_def counter_opt_defs counter_ctl_def cs_init_def)

subsection \<open>Properties\<close>

text \<open>
  C34: In every interleaving of any number of threads, whenever the lock is free, the counter holds
  what running the effects of the calls one after the other (in the order in which the threads held
  the lock) on a fresh counter gives, with the values the calls returned: the locked parts of
  \<open>counter_next\<close> and \<open>counter_ctl\<close> are atomic.
\<close>

theorem counter_calls_serial:
  assumes "creach s" and "cs_lock s = None"
  shows "run_effects counter_create (cs_effects s) = Some (cs_counter s)"
  by (rule creach_serial [OF assms])

theorem counter_calls_serial_witness:
  "run_effects counter_create [DidCtl 1 5, DidCtl 1 0] = Some (cs_counter (last lost_update_run))"
  using counter_calls_serial [OF lost_update_reach]
  by (simp add: lost_update_run_def Let_def cs_init_def)








text \<open>
  C36: \<open>counter_reset\<close> is not atomic: there is an interleaving of a reset and of a call that sets
  the minimum to 5 after which both calls have returned and the minimum is 0 again, a result that
  neither order of the two calls gives.
\<close>

theorem counter_reset_lost_update:
  "\<exists>s. creach s \<and> cs_calls s = [(0, CallReset), (1, CallCtl COUNTER_CTL_MIN 5)] \<and>
       cs_pc s = (\<lambda>_. Idle) \<and> cnt_min (cs_counter s) = 0 \<and>
       cnt_min (counter_ctl (counter_reset counter_create) COUNTER_CTL_MIN 5) = 5 \<and>
       cnt_min (counter_reset (counter_ctl counter_create COUNTER_CTL_MIN 5)) = 5"
  using lost_update_reach lost_update_final
  by (intro exI [of _ "last lost_update_run"])
    (auto simp: fun_eq_iff counter_reset_def counter_ctl_def)

end
