(* ===== verification/Netint.thy ===== *)
theory Netint
  imports BfPrelude
begin

section \<open>Integers in network byte order (netint.c)\<close>

text \<open>
  The code copies bytes between a buffer and the memory image of a 32-bit integer, so what it
  computes depends on the byte order of the host. The image is written out for both orders
  (\<open>le\<close>: the host is little-endian), \<open>ntohl\<close> and \<open>htonl\<close> are the C library's functions for
  that host, and the lemmas show that the results are the same on either host.
\<close>

subsection \<open>Memory images\<close>

definition byte_of :: "nat \<Rightarrow> u32 \<Rightarrow> u8" where
  [c_sem]: "byte_of k v = ucast (drop_bit (8 * k) v)"

definition mem_u32 :: "bool \<Rightarrow> u32 \<Rightarrow> u8 list" where
  [c_sem]: "mem_u32 le v =
     (let bs = [byte_of 3 v, byte_of 2 v, byte_of 1 v, byte_of 0 v] in if le then rev bs else bs)"

text \<open>A big-endian reading of bytes as a word.\<close>

definition be_word :: "u8 list \<Rightarrow> u32" where
  [c_sem]: "be_word bs = foldl (\<lambda>a b. push_bit 8 a OR ucast b) 0 bs"

definition u32_of_mem :: "bool \<Rightarrow> u8 list \<Rightarrow> u32" where
  [c_sem]: "u32_of_mem le bs = be_word (if le then rev bs else bs)"

definition bswap32 :: "u32 \<Rightarrow> u32" where
  [c_sem]: "bswap32 v = u32_of_mem True (mem_u32 False v)"

definition ntohl :: "bool \<Rightarrow> u32 \<Rightarrow> u32" where
  [c_sem]: "ntohl le v = (if le then bswap32 v else v)"

definition htonl :: "bool \<Rightarrow> u32 \<Rightarrow> u32" where
  [c_sem]: "htonl le v = (if le then bswap32 v else v)"

subsection \<open>The operations\<close>

definition int_max_octet :: "u64 \<Rightarrow> int" where
  [c_sem]: "int_max_octet value =
     (if value \<le> 0xff then 1
      else if value \<le> 0xffff then 2
      else if value \<le> 0xffffff then 3
      else if value \<le> 0xffffffff then 4
      else -1)"

definition data_ntohl :: "bool \<Rightarrow> u8 list \<Rightarrow> nat \<Rightarrow> u32 option" where
  [c_sem]: "data_ntohl le data sz = do {
     let sz = (if sz > 4 then 4 else sz);
     let p = mem_u32 le 0;
     c_require (sz \<le> length data);
     let p = take (4 - sz) p @ take sz data;
     Some (ntohl le (u32_of_mem le p)) }"

text \<open>The result is the number of bytes and the buffer after the copy.\<close>

definition data_htonl :: "bool \<Rightarrow> u8 list \<Rightarrow> u32 \<Rightarrow> (int \<times> u8 list) option" where
  [c_sem]: "data_htonl le buf val = do {
     let len = int_max_octet (ucast val);
     let nval = mem_u32 le (htonl le val);
     c_require (0 \<le> len \<and> nat len \<le> length buf);
     Some (len, drop (4 - nat len) nval @ drop (nat len) buf) }"

definition BOBIG :: int where
  "BOBIG = 1"

definition BOLITTLE :: int where
  "BOLITTLE = 2"

definition BOERROR :: int where
  "BOERROR = -1"

text \<open>The union of a 16-bit value 0x0102 and its two bytes.\<close>

definition mem_u16 :: "bool \<Rightarrow> 16 word \<Rightarrow> u8 list" where
  [c_sem]: "mem_u16 le s = (let bs = [ucast (drop_bit 8 s), ucast s] in if le then rev bs else bs)"

definition byteorder :: "bool \<Rightarrow> int" where
  [c_sem]: "byteorder le =
     (let c = mem_u16 le 0x0102
      in if c ! 0 = 1 \<and> c ! 1 = 2 then BOBIG
         else if c ! 0 = 2 \<and> c ! 1 = 1 then BOLITTLE
         else BOERROR)"

subsection \<open>Big-endian value of a byte list\<close>

definition be_val :: "u8 list \<Rightarrow> nat" where
  "be_val bs = foldl (\<lambda>a b. a * 256 + unat b) 0 bs"

lemma be_val_snoc [simp]: "be_val (bs @ [b]) = be_val bs * 256 + unat b"
  by (simp add: be_val_def)

lemma be_val_Nil [simp]: "be_val [] = 0"
  by (simp add: be_val_def)

lemma be_val_bound: "be_val bs < 256 ^ length bs"
proof (induction bs rule: rev_induct)
  case Nil
  then show ?case by simp
next
  case (snoc b bs)
  have "unat b < 256" using unsigned_less [of b] by simp
  moreover have "be_val bs * 256 + 256 \<le> 256 ^ length bs * 256"
    using snoc by (metis Suc_leI add.commute mult_Suc mult_le_mono1)
  ultimately show ?case by simp
qed

lemma be_word_snoc: "be_word (bs @ [b]) = push_bit 8 (be_word bs) OR ucast b"
  by (simp add: be_word_def)

lemma be_word_Nil [simp]: "be_word [] = 0"
  by (simp add: be_word_def)

lemma shift_or_byte: "push_bit 8 (a :: u32) OR ucast (b :: u8) = a * 256 + ucast b"
proof -
  have "push_bit 8 a AND ucast b = 0"
    by (rule bit_word_eqI) (auto simp: bit_simps dest: bit_imp_le_length)
  then have "push_bit 8 a OR ucast b = push_bit 8 a + ucast b"
    by (simp add: disjunctive_add_eq_or)
  then show ?thesis by (simp add: push_bit_eq_mult mult.commute)
qed

lemma be_word_val: "be_word bs = of_nat (be_val bs)"
  by (induction bs rule: rev_induct) (simp_all add: be_word_snoc shift_or_byte)

lemma unat_be_word:
  assumes "length bs \<le> 4"
  shows "unat (be_word bs) = be_val bs"
proof -
  have "(256 :: nat) ^ length bs \<le> 256 ^ 4"
    using assms by (intro power_increasing) simp_all
  with be_val_bound [of bs] have "be_val bs < 2 ^ 32" by simp
  then show ?thesis by (simp add: be_word_val unat_of_nat)
qed

lemma be_val_zeros [simp]: "be_val (replicate n 0 @ bs) = be_val bs"
proof (induction bs rule: rev_induct)
  case Nil
  show ?case by (induction n) (simp_all add: be_val_def)
next
  case (snoc b bs)
  then show ?case by (simp flip: append_assoc)
qed

subsection \<open>Independence of the host's byte order\<close>

lemma byte_of_last: "byte_of 0 (push_bit 8 x OR ucast d) = d"
  by (rule bit_word_eqI) (auto simp: byte_of_def bit_simps)

lemma byte_of_init:
  assumes "k < 3"
  shows "byte_of (Suc k) (push_bit 8 x OR ucast (d :: u8)) = byte_of k x"
  by (rule bit_word_eqI) (use assms in \<open>auto simp: byte_of_def bit_simps dest: bit_imp_le_length\<close>)

lemma byte_of_numeral:
  "byte_of 1 (push_bit 8 x OR ucast (d :: u8)) = byte_of 0 x"
  "byte_of 2 (push_bit 8 x OR ucast (d :: u8)) = byte_of 1 x"
  "byte_of 3 (push_bit 8 x OR ucast (d :: u8)) = byte_of 2 x"
  using byte_of_init [of 0 x d] byte_of_init [of 1 x d] byte_of_init [of 2 x d]
  by (simp_all add: numeral_eq_Suc)

lemma mem_be_word:
  assumes "length bs = 4"
  shows "mem_u32 False (be_word bs) = bs"
proof -
  obtain a b c d where bs: "bs = [a, b, c, d]"
    using assms by (auto simp: numeral_eq_Suc length_Suc_conv)
  show ?thesis
    unfolding bs mem_u32_def be_word_def
    by (simp only: foldl.simps Let_def if_False byte_of_last byte_of_numeral)
qed

lemma mem_u32_length [simp]: "length (mem_u32 le v) = 4"
  by (simp add: mem_u32_def Let_def)

lemma be_word_mem: "be_word (mem_u32 False v) = v"
proof (rule bit_word_eqI)
  fix n
  assume "n < LENGTH(32)"
  then consider "n < 8" | "8 \<le> n" "n < 16" | "16 \<le> n" "n < 24" | "24 \<le> n" "n < 32"
    by force
  then show "bit (be_word (mem_u32 False v)) n \<longleftrightarrow> bit v n"
    by cases (auto simp: be_word_def mem_u32_def byte_of_def bit_simps)
qed

lemma bswap_mem: "length bs = 4 \<Longrightarrow> bswap32 (be_word (rev bs)) = be_word bs"
  by (simp add: bswap32_def u32_of_mem_def mem_be_word)

lemma ntohl_mem: "length bs = 4 \<Longrightarrow> ntohl le (u32_of_mem le bs) = be_word bs"
  by (simp add: ntohl_def u32_of_mem_def bswap_mem)

lemma mem_htonl: "mem_u32 le (htonl le v) = mem_u32 False v"
proof (cases le)
  case True
  have "mem_u32 True (bswap32 v) = rev (mem_u32 False (be_word (rev (mem_u32 False v))))"
    by (simp add: mem_u32_def bswap32_def u32_of_mem_def)
  also have "\<dots> = mem_u32 False v"
    by (simp add: mem_be_word)
  finally show ?thesis using True by (simp add: htonl_def)
next
  case False
  then show ?thesis by (simp add: htonl_def)
qed

lemma mem_zero: "mem_u32 le 0 = replicate 4 0"
  by (simp add: mem_u32_def byte_of_def numeral_eq_Suc Let_def)

lemma data_ntohl_be:
  assumes "sz \<le> length data"
  shows "data_ntohl le data sz = Some (be_word (take (min sz 4) data))"
proof -
  let ?n = "if sz > 4 then 4 else sz"
  have n: "?n = min sz 4" by simp
  have "be_word (replicate (4 - min sz 4) 0 @ take (min sz 4) data) =
        be_word (take (min sz 4) data)"
    by (simp add: be_word_val)
  moreover have "length (replicate (4 - min sz 4) 0 @ take (min sz 4) data) = 4"
    using assms by simp
  ultimately show ?thesis
    using assms unfolding data_ntohl_def n Let_def
    by (simp add: mem_zero ntohl_mem min_le_iff_disj)
qed

lemma data_ntohl_overread: "min sz 4 > length data \<Longrightarrow> data_ntohl le data sz = None"
  by (auto simp: data_ntohl_def)

subsection \<open>Encoding and its round trip\<close>

lemma int_max_octet_u32: "int_max_octet (ucast (v :: u32)) \<in> {1, 2, 3, 4}"
proof -
  have "unat v < 4294967296" using unsigned_less [of v, where ?'a = nat] by simp
  then have "ucast v \<le> (0xffffffff :: u64)"
    by (simp add: word_le_nat_alt unsigned_ucast_eq take_bit_nat_eq_self)
  then show ?thesis by (simp add: int_max_octet_def)
qed

text \<open>The number of bytes is the least one that holds the value.\<close>

lemma int_max_octet_bounds:
  assumes "n = nat (int_max_octet (ucast (v :: u32)))"
  shows "1 \<le> n" "n \<le> 4" "unat v < 256 ^ n" "1 < n \<Longrightarrow> 256 ^ (n - 1) \<le> unat v"
  using assms unsigned_less [of v, where ?'a = nat]
  by (auto simp: int_max_octet_def word_le_nat_alt unsigned_ucast_eq take_bit_nat_eq_self
      split: if_splits)

lemma int_max_octet_large: "unat value > 0xffffffff \<Longrightarrow> int_max_octet value = -1"
  by (simp add: int_max_octet_def word_le_nat_alt)

lemma be_word_drop:
  assumes "unat v < 256 ^ n" and "n \<le> 4"
  shows "be_word (drop (4 - n) (mem_u32 False v)) = v"
proof -
  let ?m = "mem_u32 False v"
  have "be_val ?m = unat v" using unat_be_word [of ?m] by (simp add: be_word_mem)
  have split: "be_val (xs @ ys) = be_val xs * 256 ^ length ys + be_val ys" for xs ys
    by (induction ys rule: rev_induct) (simp_all flip: append_assoc add: algebra_simps)
  have "be_val ?m = be_val (take (4 - n) ?m @ drop (4 - n) ?m)" by simp
  also have "\<dots> = be_val (take (4 - n) ?m) * 256 ^ n + be_val (drop (4 - n) ?m)"
    using split [of "take (4 - n) ?m" "drop (4 - n) ?m"] assms(2) by simp
  finally have *: "unat v = be_val (take (4 - n) ?m) * 256 ^ n + be_val (drop (4 - n) ?m)"
    using \<open>be_val ?m = unat v\<close> by simp
  have "be_val (take (4 - n) ?m) = 0"
  proof (rule ccontr)
    assume "be_val (take (4 - n) ?m) \<noteq> 0"
    then have "256 ^ n \<le> be_val (take (4 - n) ?m) * 256 ^ n" by simp
    with * assms(1) show False by linarith
  qed
  with * have "be_val (drop (4 - n) ?m) = unat v" by simp
  then show ?thesis by (simp add: be_word_val)
qed

lemma data_htonl_spec:
  assumes "4 \<le> length buf"
  obtains n where "data_htonl le buf v = Some (int n, drop (4 - n) (mem_u32 False v) @ drop n buf)"
    and "n = nat (int_max_octet (ucast v))"
proof
  let ?n = "nat (int_max_octet (ucast v))"
  have "int_max_octet (ucast v) = int ?n" "0 \<le> int_max_octet (ucast v)" "?n \<le> 4"
    using int_max_octet_u32 [of v] by auto
  then show "data_htonl le buf v = Some (int ?n, drop (4 - ?n) (mem_u32 False v) @ drop ?n buf)"
    using assms by (simp add: data_htonl_def mem_htonl Let_def)
qed simp

lemma data_htonl_ntohl:
  assumes "4 \<le> length buf"
  shows "\<exists>n buf'. data_htonl le buf v = Some (int n, buf') \<and>
           1 \<le> n \<and> n \<le> 4 \<and> (1 < n \<longrightarrow> 256 ^ (n - 1) \<le> unat v) \<and>
           length buf' = length buf \<and> drop n buf' = drop n buf \<and>
           data_ntohl le' buf' n = Some v"
proof -
  obtain n where n: "data_htonl le buf v = Some (int n, drop (4 - n) (mem_u32 False v) @ drop n buf)"
    "n = nat (int_max_octet (ucast v))"
    using data_htonl_spec [OF assms] by blast
  note b = int_max_octet_bounds [OF n(2)]
  let ?b = "drop (4 - n) (mem_u32 False v) @ drop n buf"
  have "data_ntohl le' ?b n = Some (be_word (take (min n 4) ?b))"
    using b(2) assms by (intro data_ntohl_be) simp
  also have "take (min n 4) ?b = drop (4 - n) (mem_u32 False v)"
    using b(2) by (simp add: min_absorb1)
  also have "be_word (drop (4 - n) (mem_u32 False v)) = v"
    using be_word_drop b(2,3) by blast
  finally have "data_ntohl le' ?b n = Some v" .
  moreover have "length ?b = length buf" "drop n ?b = drop n buf"
    using b(2) assms by simp_all
  ultimately show ?thesis
    using n(1) b(1,2,4) by blast
qed

lemma byteorder_host: "byteorder le = (if le then BOLITTLE else BOBIG)"
  by (simp add: byteorder_def mem_u16_def Let_def)

subsection \<open>Properties\<close>

text \<open>
  On a host of either byte order, \<open>data_ntohl\<close> reads the first \<open>min sz 4\<close> bytes of the buffer
  as one big-endian number, and reads nothing else.
\<close>

theorem data_ntohl_value:
  assumes "sz \<le> length data"
  shows "\<exists>v. data_ntohl le data sz = Some v \<and> unat v = be_val (take (min sz 4) data)"
  using data_ntohl_be [OF assms] by (simp add: unat_be_word)

theorem data_ntohl_value_witness:
  "\<exists>v. data_ntohl True [1, 2, 3] 2 = Some v \<and> unat v = 258"
  using data_ntohl_value [of 2 "[1, 2, 3]" True] by (simp add: be_val_def)

text \<open>
  C40: What \<open>data_htonl\<close> writes on one host, \<open>data_ntohl\<close> reads back on any host, with the length that
  \<open>data_htonl\<close> returned; the length is the smallest of 1 to 4 that holds the value, and the rest of
  the buffer is unchanged.
\<close>

theorem data_htonl_roundtrip:
  assumes "4 \<le> length buf"
  shows "\<exists>n buf'. data_htonl le buf v = Some (int n, buf') \<and>
           1 \<le> n \<and> n \<le> 4 \<and> (1 < n \<longrightarrow> 256 ^ (n - 1) \<le> unat v) \<and>
           length buf' = length buf \<and> drop n buf' = drop n buf \<and>
           data_ntohl le' buf' n = Some v"
  by (rule data_htonl_ntohl [OF assms])

theorem data_htonl_roundtrip_witness:
  "\<exists>n buf'. data_htonl True [9, 9, 9, 9, 9] 0x01020304 = Some (int n, buf') \<and>
     data_ntohl False buf' n = Some 0x01020304"
  using data_htonl_roundtrip [of "[9, 9, 9, 9, 9]" True "0x01020304" False] by auto

text \<open>\<open>byteorder\<close> tells the byte order of the host and never the error value.\<close>

theorem byteorder_exact: "byteorder le = (if le then BOLITTLE else BOBIG)"
  by (rule byteorder_host)

end
