(* ===== verification/Uintvar.thy ===== *)
theory Uintvar
  imports BfPrelude
begin

section \<open>Variable-length integers (uintvar.c)\<close>

text \<open>
  An integer is a sequence of groups of seven bits, most significant first; the top bit of a
  byte says that another byte follows. At most \<open>UINTVAR32_LEN = 5\<close> bytes are written or read.
\<close>

subsection \<open>The operations\<close>

definition UINTVAR32_LEN :: int where
  [c_sem]: "UINTVAR32_LEN = 5"

text \<open>The loop that fills \<open>pack\<close> from the end; a cell not yet written is \<open>None\<close>.\<close>

function pack_loop :: "int \<Rightarrow> u64 \<Rightarrow> u8 option list \<Rightarrow> int \<times> u8 option list" where
  "pack_loop i value pack =
     (if value > 0 \<and> i \<ge> 0
      then pack_loop (i - 1) (drop_bit 7 value)
             (pack[nat i := Some (0x80 OR ucast (value AND 0x7f))])
      else (i, pack))"
  by pat_completeness auto
termination
  by (relation "measure (\<lambda>(i, value, pack). nat (i + 1))") auto

declare pack_loop.simps [simp del]

text \<open>The result is the return value and the buffer afterwards.\<close>

definition uintvar_pack :: "u8 list \<Rightarrow> int \<Rightarrow> u64 \<Rightarrow> (int \<times> u8 list) option" where
  [c_sem]: "uintvar_pack buf len value = do {
     let pack = (replicate (nat UINTVAR32_LEN) None)
                  [nat (UINTVAR32_LEN - 1) := Some (ucast (value AND 0x7f))];
     let (i, pack) = pack_loop (UINTVAR32_LEN - 2) (drop_bit 7 value) pack;
     let pos = i + 1;
     let packlen = UINTVAR32_LEN - pos;
     if len < packlen then Some (-1, buf)
     else do {
       bytes \<leftarrow> those (drop (nat pos) pack);
       c_require (packlen \<le> int (length buf));
       Some (packlen, bytes @ drop (nat packlen) buf)
     } }"

text \<open>The loop of \<open>uintvar_unpack\<close>: the return value, and what is stored through \<open>value\<close>.\<close>

function unpack_loop :: "u8 list \<Rightarrow> int \<Rightarrow> int \<Rightarrow> u64 \<Rightarrow> (int \<times> u64 option) option" where
  "unpack_loop ptr len i val =
     (if i < UINTVAR32_LEN \<and> i < len
      then do {
        b \<leftarrow> c_read ptr i;
        let val = (push_bit 7 val OR (ucast b AND 0x7f));
        if b AND 0x80 = 0 then Some (i + 1, Some val)
        else unpack_loop ptr len (i + 1) val }
      else Some (-1, None))"
  by pat_completeness auto
termination
  by (relation "measure (\<lambda>(ptr, len, i, val). nat (UINTVAR32_LEN - i))")
    (auto simp: UINTVAR32_LEN_def)

declare unpack_loop.simps [simp del]

definition uintvar_unpack :: "u8 list \<Rightarrow> int \<Rightarrow> (int \<times> u64 option) option" where
  [c_sem]: "uintvar_unpack buf len = unpack_loop buf len 0 0"

subsection \<open>What pack writes\<close>

definition uv_group :: "nat \<Rightarrow> u64 \<Rightarrow> u8" where
  "uv_group k v = ucast (drop_bit (7 * k) v AND 0x7f)"

definition uv_byte :: "u64 \<Rightarrow> nat \<Rightarrow> u8" where
  "uv_byte v k = (if k = 0 then uv_group 0 v else 0x80 OR uv_group k v)"

text \<open>The number of groups, at most five.\<close>

definition uv_len :: "u64 \<Rightarrow> nat" where
  "uv_len v = (if drop_bit 7 v = 0 then 1 else if drop_bit 14 v = 0 then 2
     else if drop_bit 21 v = 0 then 3 else if drop_bit 28 v = 0 then 4 else 5)"

definition uv_encode :: "u64 \<Rightarrow> u8 list" where
  "uv_encode v = map (uv_byte v) (rev [0..<uv_len v])"

lemma uv_len_bounds: "1 \<le> uv_len v" "uv_len v \<le> 5"
  by (simp_all add: uv_len_def)

lemma uv_encode_length [simp]: "length (uv_encode v) = uv_len v"
  by (simp add: uv_encode_def)

lemma uv_len_less: "uv_len v < n \<Longrightarrow> n \<le> 5 \<Longrightarrow> drop_bit (7 * uv_len v) v = 0"
  by (auto simp: uv_len_def split: if_splits)

lemma drop_bit_eq_0: "drop_bit n (v :: u64) = 0 \<longleftrightarrow> unat v < 2 ^ n"
proof -
  have "drop_bit n v = 0 \<longleftrightarrow> unat (drop_bit n v) = 0" by (simp add: unat_eq_zero)
  also have "\<dots> \<longleftrightarrow> drop_bit n (unat v) = 0" by (simp only: unat_drop_bit_eq)
  also have "\<dots> \<longleftrightarrow> unat v div 2 ^ n = 0" by (simp only: drop_bit_eq_div)
  finally show ?thesis by (simp add: div_eq_0_iff)
qed

lemma uv_len_value:
  "uv_len v < 5 \<Longrightarrow> unat v < 128 ^ uv_len v"
  "1 < uv_len v \<Longrightarrow> 128 ^ (uv_len v - 1) \<le> unat v"
  by (auto simp: uv_len_def drop_bit_eq_0 split: if_splits)

lemma pack_result:
  "pack_loop (UINTVAR32_LEN - 2) (drop_bit 7 v)
     ((replicate (nat UINTVAR32_LEN) None)
        [nat (UINTVAR32_LEN - 1) := Some (ucast (v AND 0x7f))]) =
   (4 - int (uv_len v), replicate (5 - uv_len v) None @ map Some (uv_encode v))"
  by (simp add: pack_loop.simps UINTVAR32_LEN_def uv_len_def uv_encode_def uv_byte_def
      uv_group_def numeral_eq_Suc upt_rec word_gt_0)

lemma those_map_Some [simp]: "those (map Some xs) = Some xs"
  by (induction xs) simp_all

lemma uintvar_pack_eq:
  "uintvar_pack buf len v =
     (if len < int (uv_len v) then Some (-1, buf)
      else if uv_len v \<le> length buf then Some (int (uv_len v), uv_encode v @ drop (uv_len v) buf)
      else None)"
  unfolding uintvar_pack_def pack_result Let_def
  using uv_len_bounds [of v] by (simp add: UINTVAR32_LEN_def nat_diff_distrib)

subsection \<open>What unpack reads\<close>

lemma and_0x80: "b AND 0x80 = 0 \<longleftrightarrow> \<not> bit (b :: u8) 7"
  using and_exp_eq_0_iff_not_bit [of b 7] by simp

lemma and_0x7f: "w AND 0x7f = take_bit 7 (w :: 'a :: len word)"
  by (simp add: take_bit_eq_mask mask_eq_exp_minus_1)

text \<open>The value that a list of groups stands for, as a natural number.\<close>

definition uv_value :: "u8 list \<Rightarrow> nat" where
  "uv_value bs = foldl (\<lambda>a b. a * 128 + unat b mod 128) 0 bs"

text \<open>The number of leading bytes that announce another one.\<close>

definition uv_prefix :: "u8 list \<Rightarrow> nat" where
  "uv_prefix bs = length (takeWhile (\<lambda>b. bit b 7) bs)"

lemma unpack_step:
  "unpack_loop ptr len i val =
     (if i < 5 \<and> i < len
      then case c_read ptr i of None \<Rightarrow> None
        | Some b \<Rightarrow>
          let val = push_bit 7 val OR take_bit 7 (ucast b)
          in if bit b 7 then unpack_loop ptr len (i + 1) val else Some (i + 1, Some val)
      else Some (-1, None))"
  by (subst unpack_loop.simps)
    (auto simp: UINTVAR32_LEN_def and_0x80 and_0x7f Let_def split: option.split)

definition uv_word :: "u8 list \<Rightarrow> u64 \<Rightarrow> u64" where
  "uv_word bs val = foldl (\<lambda>val b. push_bit 7 val OR take_bit 7 (ucast b)) val bs"

lemma uv_word_simps [simp]:
  "uv_word [] val = val"
  "uv_word (b # bs) val = uv_word bs (push_bit 7 val OR take_bit 7 (ucast b))"
  by (simp_all add: uv_word_def)

text \<open>The loop in closed form: from index \<open>i\<close> on, with the first \<open>i\<close> bytes consumed.\<close>

lemma unpack_loop_eq:
  assumes "n = min 5 len" and "n \<le> length ptr" and "i \<le> n" and "bs = take (n - i) (drop i ptr)"
  shows "unpack_loop ptr (int len) (int i) val =
     Some (if uv_prefix bs < length bs
           then (int (i + uv_prefix bs + 1), Some (uv_word (take (uv_prefix bs + 1) bs) val))
           else (-1, None))"
  using assms
proof (induction bs arbitrary: i val)
  case Nil
  then have "n - i = 0 \<or> length ptr - i = 0" by auto
  with Nil.prems(2,3) have "i = n" by linarith
  with Nil show ?case by (subst unpack_step) auto
next
  case (Cons b bs)
  then have i: "i < n" by (cases "i = n") auto
  with Cons.prems have b: "b = ptr ! i" "bs = take (n - Suc i) (drop (Suc i) ptr)"
    by (auto simp: Cons_nth_drop_Suc [symmetric] take_Cons' split: if_splits)
  have read: "c_read ptr (int i) = Some b" using i Cons.prems(2) b by simp
  have lt: "int i < 5 \<and> int i < int len" using i Cons.prems(1) by auto
  show ?case
  proof (cases "bit b 7")
    case True
    have "unpack_loop ptr (int len) (int (Suc i)) (push_bit 7 val OR take_bit 7 (ucast b)) =
        Some (if uv_prefix bs < length bs
           then (int (Suc i + uv_prefix bs + 1),
                 Some (uv_word (take (uv_prefix bs + 1) bs)
                        (push_bit 7 val OR take_bit 7 (ucast b))))
           else (-1, None))"
      using Cons.IH [of "Suc i"] Cons.prems b i by simp
    with True read lt show ?thesis
      by (subst unpack_step) (simp add: uv_prefix_def add.commute Let_def)
  next
    case False
    with read lt show ?thesis
      by (subst unpack_step) (simp add: uv_prefix_def Let_def)
  qed
qed

lemma shift_or_group: "push_bit 7 (a :: u64) OR take_bit 7 (ucast (b :: u8)) = a * 128 + of_nat (unat b mod 128)"
proof -
  have "push_bit 7 a AND take_bit 7 (ucast b) = 0"
    by (rule bit_word_eqI) (auto simp: bit_simps)
  then have "push_bit 7 a OR take_bit 7 (ucast b) = push_bit 7 a + take_bit 7 (ucast b)"
    by (simp add: disjunctive_add_eq_or)
  moreover have "take_bit 7 (ucast b :: u64) = of_nat (take_bit 7 (unat b))"
    by (rule bit_word_eqI) (auto simp: bit_simps)
  ultimately show ?thesis by (simp add: push_bit_eq_mult take_bit_eq_mod mult.commute)
qed

lemma uv_word_value: "uv_word bs 0 = of_nat (uv_value bs)"
proof (induction bs rule: rev_induct)
  case Nil
  show ?case by (simp add: uv_value_def)
next
  case (snoc b bs)
  have "uv_word (bs @ [b]) 0 = push_bit 7 (uv_word bs 0) OR take_bit 7 (ucast b)"
    by (simp add: uv_word_def)
  also have "\<dots> = of_nat (uv_value bs * 128 + unat b mod 128)"
    unfolding shift_or_group snoc by simp
  finally show ?case by (simp add: uv_value_def)
qed

lemma uv_value_bound: "uv_value bs < 128 ^ length bs"
proof (induction bs rule: rev_induct)
  case Nil
  show ?case by (simp add: uv_value_def)
next
  case (snoc b bs)
  have "unat b mod 128 < 128" by simp
  moreover have "uv_value bs * 128 + 128 \<le> 128 ^ length bs * 128"
    using snoc by (metis Suc_leI add.commute mult_Suc mult_le_mono1)
  ultimately show ?case by (simp add: uv_value_def)
qed

lemma uintvar_unpack_eq:
  assumes "min 5 len \<le> length buf" and "bs = take (min 5 len) buf"
  shows "uintvar_unpack buf (int len) =
     Some (if uv_prefix bs < length bs
           then (int (uv_prefix bs) + 1, Some (of_nat (uv_value (take (uv_prefix bs + 1) bs))))
           else (-1, None))"
  using unpack_loop_eq [of "min 5 len" len buf 0 bs 0] assms
  by (simp add: uintvar_unpack_def uv_word_value)

subsection \<open>Round trip\<close>

lemma uv_byte_top: "bit (uv_byte v k) 7 \<longleftrightarrow> k \<noteq> 0"
  by (auto simp: uv_byte_def uv_group_def and_0x7f bit_simps)

lemma uv_prefix_encode: "uv_prefix (uv_encode v @ rest) = uv_len v - 1"
proof -
  obtain n where n: "uv_len v = Suc n" using uv_len_bounds [of v] by (cases "uv_len v") auto
  have e: "uv_encode v = map (uv_byte v) (rev [1..<Suc n]) @ [uv_byte v 0]"
    unfolding uv_encode_def n by (subst upt_conv_Cons) auto
  have "takeWhile (\<lambda>b. bit b 7) (uv_encode v @ rest) = map (uv_byte v) (rev [1..<Suc n])"
    unfolding e append_assoc by (subst takeWhile_append2) (auto simp: uv_byte_top)
  then show ?thesis by (simp add: uv_prefix_def n)
qed

lemma bit_0x80: "k < 7 \<Longrightarrow> \<not> bit (0x80 :: int) k"
  using bit_exp_iff [of 7 k, where ?'a = int] by auto

lemma uv_word_groups:
  assumes "n \<le> 5" and "acc = drop_bit (7 * n) w" and "w = take_bit 35 v"
  shows "uv_word (map (uv_byte v) (rev [0..<n])) acc = w"
  using assms
proof (induction n arbitrary: acc)
  case 0
  then show ?case by simp
next
  case (Suc n)
  have grp: "take_bit 7 (ucast (uv_byte v n) :: u64) = take_bit 7 (drop_bit (7 * n) w)"
    unfolding Suc.prems(3) using Suc.prems(1)
    by (intro bit_word_eqI) (auto simp: uv_byte_def uv_group_def and_0x7f bit_simps bit_0x80)
  have "acc = drop_bit 7 (drop_bit (7 * n) w)"
    using Suc.prems(2) by (simp add: add.commute)
  then have "push_bit 7 acc OR take_bit 7 (ucast (uv_byte v n)) = drop_bit (7 * n) w"
    unfolding grp by (intro bit_word_eqI) (auto simp: bit_simps)
  with Suc show ?case by simp
qed

lemma uv_word_encode: "uv_word (uv_encode v) 0 = take_bit 35 v"
  unfolding uv_encode_def
proof (rule uv_word_groups)
  show "uv_len v \<le> 5" by (rule uv_len_bounds)
  show "0 = drop_bit (7 * uv_len v) (take_bit 35 v)"
  proof (cases "uv_len v = 5")
    case True
    then show ?thesis by (simp add: drop_bit_take_bit)
  next
    case False
    then have "drop_bit (7 * uv_len v) v = 0"
      using uv_len_bounds [of v] by (intro uv_len_less [of v 5]) auto
    then show ?thesis by (simp add: drop_bit_take_bit)
  qed
qed simp

lemma uintvar_roundtrip:
  assumes "uintvar_pack buf len v = Some (n, buf')" and "n \<noteq> -1"
  shows "uintvar_unpack buf' (int (length buf')) = Some (n, Some (take_bit 35 v))"
proof -
  have n: "n = int (uv_len v)" "buf' = uv_encode v @ drop (uv_len v) buf"
    using assms by (auto simp: uintvar_pack_eq split: if_splits)
  let ?bs = "take (min 5 (length buf')) buf'"
  have len: "uv_len v \<le> min 5 (length buf')" using n(2) uv_len_bounds [of v] by simp
  then have bs: "?bs = uv_encode v @ take (min 5 (length buf') - uv_len v) (drop (uv_len v) buf)"
    by (simp add: n(2))
  have pre: "uv_prefix ?bs = uv_len v - 1" unfolding bs by (rule uv_prefix_encode)
  have "take (uv_prefix ?bs + 1) ?bs = uv_encode v"
    unfolding pre using uv_len_bounds [of v] by (subst bs) simp
  then have "of_nat (uv_value (take (uv_prefix ?bs + 1) ?bs)) = take_bit 35 v"
    using uv_word_encode uv_word_value by metis
  moreover have "uv_prefix ?bs < length ?bs"
    unfolding pre using len uv_len_bounds [of v] by (simp add: n(2)) arith
  ultimately show ?thesis
    using uintvar_unpack_eq [of "length buf'" buf' ?bs] pre n(1) uv_len_bounds [of v] by auto
qed

subsection \<open>Properties\<close>

text \<open>
  C39: \<open>uintvar_pack\<close> fails with -1 and leaves the buffer alone exactly when the length it is given is
  below the number of groups; otherwise it writes that many bytes and no other, all but the last
  with the continuation bit, and \<open>uintvar_unpack\<close> returns their number and the value modulo 2 to
  the 35: larger values are truncated without an error.
\<close>

theorem uintvar_pack_unpack:
  assumes "len \<le> int (length buf)"
  shows "\<exists>r buf'. uintvar_pack buf len v = Some (r, buf') \<and>
     (if len < int (uv_len v) then r = -1 \<and> buf' = buf
      else r = int (uv_len v) \<and> length buf' = length buf \<and>
        drop (uv_len v) buf' = drop (uv_len v) buf \<and>
        (\<forall>i < uv_len v. bit (buf' ! i) 7 \<longleftrightarrow> Suc i \<noteq> uv_len v) \<and>
        uintvar_unpack buf' (int (length buf')) = Some (r, Some (take_bit 35 v)))"
proof (cases "len < int (uv_len v)")
  case True
  then show ?thesis by (simp add: uintvar_pack_eq)
next
  case False
  let ?buf = "uv_encode v @ drop (uv_len v) buf"
  have fits: "uv_len v \<le> length buf" using False assms by simp
  have pack: "uintvar_pack buf len v = Some (int (uv_len v), ?buf)"
    using False fits by (simp add: uintvar_pack_eq)
  have "bit (?buf ! i) 7 \<longleftrightarrow> Suc i \<noteq> uv_len v" if "i < uv_len v" for i
  proof -
    have "?buf ! i = uv_byte v (uv_len v - Suc i)"
      using that by (simp add: nth_append uv_encode_def rev_nth)
    then show ?thesis using that by (auto simp: uv_byte_top)
  qed
  then show ?thesis
    using False fits pack uintvar_roundtrip [OF pack] by auto
qed

theorem uintvar_pack_unpack_witness:
  "\<exists>r buf'. uintvar_pack [7, 7, 7] 3 300 = Some (r, buf') \<and>
     uintvar_unpack buf' (int (length buf')) = Some (r, Some 300)"
  using uintvar_pack_unpack [of 3 "[7, 7, 7]" 300] by (auto simp: uv_len_def split: if_splits)

text \<open>
  On any bytes, \<open>uintvar_unpack\<close> reads inside the first \<open>min 5 len\<close> bytes only; it returns the
  number of bytes up to and including the first one without continuation bit together with the
  base-128 value of their groups, or -1 (storing nothing) if there is no such byte.
\<close>

theorem uintvar_unpack_decodes:
  assumes "min 5 len \<le> length buf"
  shows "uintvar_unpack buf (int len) =
     (let bs = take (min 5 len) buf; p = uv_prefix bs
      in Some (if p < length bs then (int p + 1, Some (of_nat (uv_value (take (p + 1) bs))))
               else (-1, None)))"
  using uintvar_unpack_eq [OF assms refl] by (simp add: Let_def)

theorem uintvar_unpack_decodes_witness:
  "uintvar_unpack [0x82, 0x2c, 0xff] 3 = Some (2, Some 300)"
  using uintvar_unpack_decodes [of 3 "[0x82, 0x2c, 0xff]"] by (simp add: Let_def uv_prefix_def uv_value_def)

end
