(* ===== verification/Bits.thy ===== *)
theory Bits
  imports BfPrelude
begin

section \<open>Bit fields of a buffer (bits.c)\<close>

text \<open>
  Bits are numbered from 0, most significant bit of a byte first. \<open>mask\<close>, \<open>result\<close> and \<open>c\<close>
  are words of 64 bits: the code declares \<open>c\<close> as \<open>int\<close>, but only its low byte is ever stored.
  The mask is computed as \<open>(1 << n) - 1\<close> in \<open>int\<close>, so it is undefined for \<open>n\<close> outside 0 to 30.
\<close>

subsection \<open>The operations\<close>

definition c_mask :: "int \<Rightarrow> u64 option" where
  [c_sem]: "c_mask n = (if 0 \<le> n \<and> n \<le> 30 then Some (push_bit (nat n) 1 - 1) else None)"

text \<open>A shift by \<open>k\<close> of a value of \<open>w\<close> bits is defined for \<open>k\<close> from 0 to \<open>w - 1\<close> only.\<close>

definition c_shift_ok :: "int \<Rightarrow> int \<Rightarrow> unit option" where
  [c_sem]: "c_shift_ok w k = c_require (0 \<le> k \<and> k < w)"

text \<open>The loop of \<open>bits_get\<close>: the result so far, what is left of \<open>n\<close>, and the byte position.\<close>

function bits_get_loop ::
  "u8 list \<Rightarrow> int \<Rightarrow> int \<Rightarrow> int \<Rightarrow> u64 \<Rightarrow> (u64 \<times> int \<times> int) option" where
  "bits_get_loop ptr bytepos bitpos n result =
     (if bitpos + n > 8 then do {
        b \<leftarrow> c_read ptr bytepos;
        bits_get_loop ptr (bytepos + 1) 0 (n - (8 - bitpos)) (push_bit 8 result OR ucast b) }
      else Some (result, n, bytepos))"
  by pat_completeness auto
termination
  by (relation "measure (\<lambda>(ptr, bytepos, bitpos, n, result). nat (bitpos + n))") auto

declare bits_get_loop.simps [simp del]

definition bits_get :: "u8 list \<Rightarrow> int \<Rightarrow> int \<Rightarrow> u64 option" where
  [c_sem]: "bits_get buf pos n = do {
     let bytepos = c_div pos 8;
     let bitpos = c_mod pos 8;
     mask \<leftarrow> c_mask n;
     if bitpos + n \<le> 8 then do {
       let shiftwidth = 8 - (bitpos + n);
       c_shift_ok 32 shiftwidth;
       b \<leftarrow> c_read buf bytepos;
       Some (drop_bit (nat shiftwidth) (ucast b) AND mask) }
     else do {
       (result, n, bytepos) \<leftarrow> bits_get_loop buf bytepos bitpos n 0;
       c_shift_ok 64 n;
       let result = push_bit (nat n) result;
       c_shift_ok 32 (8 - n);
       b \<leftarrow> c_read buf bytepos;
       let result = result OR drop_bit (nat (8 - n)) (ucast b);
       Some (result AND mask) } }"

text \<open>The loop of \<open>bits_set\<close>: the buffer, what is left of \<open>n\<close>, and the byte position.\<close>

function bits_set_loop ::
  "u8 list \<Rightarrow> int \<Rightarrow> int \<Rightarrow> int \<Rightarrow> u64 \<Rightarrow> (u8 list \<times> int \<times> int) option" where
  "bits_set_loop ptr bytepos bitpos n value =
     (if bitpos + n > 8 then do {
        let bits = 8 - bitpos;
        let shiftwidth = n - bits;
        mask \<leftarrow> c_mask bits;
        c_shift_ok 64 shiftwidth;
        let c = drop_bit (nat shiftwidth) value AND mask;
        b \<leftarrow> c_read ptr bytepos;
        ptr \<leftarrow> c_write ptr bytepos (ucast ((ucast b AND NOT mask) OR c));
        bits_set_loop ptr (bytepos + 1) 0 (n - (8 - bitpos)) value }
      else Some (ptr, n, bytepos))"
  by pat_completeness auto
termination
  by (relation "measure (\<lambda>(ptr, bytepos, bitpos, n, value). nat (bitpos + n))") auto

declare bits_set_loop.simps [simp del]

definition bits_set :: "u8 list \<Rightarrow> int \<Rightarrow> int \<Rightarrow> u64 \<Rightarrow> u8 list option" where
  [c_sem]: "bits_set buf pos n value = do {
     mask \<leftarrow> c_mask n;
     let bytepos = c_div pos 8;
     let bitpos = c_mod pos 8;
     if bitpos + n \<le> 8 then do {
       let shiftwidth = 8 - (bitpos + n);
       c_shift_ok 64 shiftwidth;
       b \<leftarrow> c_read buf bytepos;
       let c = ucast b AND NOT (push_bit (nat shiftwidth) mask);
       let c = c OR push_bit (nat shiftwidth) value;
       c_write buf bytepos (ucast c) }
     else do {
       (buf, n, bytepos) \<leftarrow> bits_set_loop buf bytepos bitpos n value;
       mask \<leftarrow> c_mask n;
       let shiftwidth = 8 - n;
       c_shift_ok 64 shiftwidth;
       b \<leftarrow> c_read buf bytepos;
       let c = ucast b AND NOT (push_bit (nat shiftwidth) mask);
       let c = c OR push_bit (nat shiftwidth) value;
       c_write buf bytepos (ucast c) } }"

definition bits_size :: "int \<Rightarrow> int" where
  [c_sem]: "bits_size n = c_div n 8 + (if c_mod n 8 > 0 then 1 else 0)"

subsection \<open>Single bits of a buffer\<close>

definition bit_at :: "u8 list \<Rightarrow> nat \<Rightarrow> bool" where
  "bit_at buf i \<longleftrightarrow> bit (buf ! (i div 8)) (7 - i mod 8)"

lemma bit_at_byte: "j < 8 \<Longrightarrow> bit_at buf (8 * B + j) \<longleftrightarrow> bit (buf ! B) (7 - j)"
  by (simp add: bit_at_def)

lemma bit_at_rev: "k < 8 \<Longrightarrow> bit_at buf (8 * Suc B - 1 - k) \<longleftrightarrow> bit (buf ! B) k"
proof -
  assume "k < 8"
  then have *: "8 * Suc B - 1 - k = 8 * B + (7 - k)" by simp
  show ?thesis
    unfolding * using \<open>k < 8\<close> bit_at_byte [of "7 - k" buf B] by simp
qed

lemma bit_at_update:
  "B < length buf \<Longrightarrow>
   bit_at (buf[B := c]) i \<longleftrightarrow> (if i div 8 = B then bit c (7 - i mod 8) else bit_at buf i)"
  by (auto simp: bit_at_def)

lemma c_mask_nat: "n \<le> 30 \<Longrightarrow> c_mask (int n) = Some (mask n)"
  by (simp add: c_mask_def mask_eq_exp_minus_1 push_bit_eq_mult)

lemma c_shift_ok_nat [simp]: "int k < w \<Longrightarrow> c_shift_ok w (int k) = Some ()"
  by (simp add: c_shift_ok_def)

lemma bit_byte_small: "bit (b :: u8) k \<Longrightarrow> k < 8"
  using bit_imp_le_length [of b k] by simp

subsection \<open>Reading\<close>

text \<open>
  After whole bytes up to \<open>B\<close>, starting at \<open>B0\<close>, the result is those bytes, last byte lowest.
\<close>

definition get_inv :: "u8 list \<Rightarrow> nat \<Rightarrow> nat \<Rightarrow> u64 \<Rightarrow> bool" where
  "get_inv buf B0 B r \<longleftrightarrow>
     (\<forall>k. bit r k \<longleftrightarrow> k < 64 \<and> 8 * B0 + k < 8 * B \<and> bit_at buf (8 * B - 1 - k))"

lemma bit_append_low: "k < 8 \<Longrightarrow> bit (push_bit 8 (r :: u64) OR ucast (b :: u8)) k \<longleftrightarrow> bit b k"
  by (simp add: bit_simps)

lemma bit_append_high:
  "bit (push_bit 8 (r :: u64) OR ucast (b :: u8)) (8 + j) \<longleftrightarrow> 8 + j < 64 \<and> bit r j"
  using bit_byte_small [of b "8 + j"] by (auto simp: bit_simps)

lemma idx_next: "8 * Suc B - 1 - (8 + j) = 8 * B - 1 - j"
  by simp

lemma get_inv_step:
  assumes "get_inv buf B0 B r" and "B0 \<le> B"
  shows "get_inv buf B0 (Suc B) (push_bit 8 r OR ucast (buf ! B))"
  unfolding get_inv_def
proof
  fix k
  show "bit (push_bit 8 r OR ucast (buf ! B)) k \<longleftrightarrow>
      k < 64 \<and> 8 * B0 + k < 8 * Suc B \<and> bit_at buf (8 * Suc B - 1 - k)"
  proof (cases "k < 8")
    case True
    then have "8 * B0 + k < 8 * Suc B" and "k < 64" using assms(2) by simp_all
    then show ?thesis by (simp only: bit_append_low [OF True] bit_at_rev [OF True] simp_thms)
  next
    case False
    then obtain j where k: "k = 8 + j" by (metis le_Suc_ex not_less)
    have "bit r j \<longleftrightarrow> j < 64 \<and> 8 * B0 + j < 8 * B \<and> bit_at buf (8 * B - 1 - j)"
      using assms(1) unfolding get_inv_def by (rule spec)
    then show ?thesis unfolding k bit_append_high idx_next by auto
  qed
qed

lemma bits_get_loop_ok:
  assumes "get_inv buf B0 B r" and "B0 \<le> B" and "b < 8" and "8 * B + b + n \<le> 8 * length buf"
    and "8 < b + n \<or> (b = 0 \<and> 0 < n)"
  shows "\<exists>r' n' B'. bits_get_loop buf (int B) (int b) (int n) r = Some (r', int n', int B') \<and>
           get_inv buf B0 B' r' \<and> B0 \<le> B' \<and> 1 \<le> n' \<and> n' \<le> 8 \<and> n' \<le> n \<and>
           8 * B' + n' = 8 * B + b + n"
  using assms
proof (induction n arbitrary: B b r rule: less_induct)
  case (less n)
  show ?case
  proof (cases "8 < b + n")
    case True
    define m where "m = n - (8 - b)"
    have m: "int n - (8 - int b) = int m" "m < n" "0 < m"
      using True less.prems(3) by (auto simp: m_def)
    have "B < length buf" using less.prems(4) True by linarith
    then have step: "bits_get_loop buf (int B) (int b) (int n) r =
        bits_get_loop buf (int (Suc B)) (int 0) (int m) (push_bit 8 r OR ucast (buf ! B))"
      using True m(1) by (subst bits_get_loop.simps) (simp add: add.commute)
    have "\<exists>r' n' B'. bits_get_loop buf (int (Suc B)) (int 0) (int m)
          (push_bit 8 r OR ucast (buf ! B)) = Some (r', int n', int B') \<and>
        get_inv buf B0 B' r' \<and> B0 \<le> B' \<and> 1 \<le> n' \<and> n' \<le> 8 \<and> n' \<le> m \<and>
        8 * B' + n' = 8 * Suc B + 0 + m"
      by (rule less.IH [OF m(2) get_inv_step [OF less.prems(1,2)]])
        (use less.prems True m(3) in \<open>auto simp: m_def\<close>)
    then obtain r' n' B' where "bits_get_loop buf (int (Suc B)) (int 0) (int m)
          (push_bit 8 r OR ucast (buf ! B)) = Some (r', int n', int B')"
        "get_inv buf B0 B' r'" "B0 \<le> B'" "1 \<le> n'" "n' \<le> 8" "n' \<le> m"
        "8 * B' + n' = 8 * Suc B + 0 + m"
      by blast
    moreover have "8 * Suc B + 0 + m = 8 * B + b + n"
      using True less.prems(3) by (simp add: m_def)
    ultimately show ?thesis using step m(2)
      by (intro exI [of _ r'] exI [of _ n'] exI [of _ B']) simp
  next
    case False
    then have "bits_get_loop buf (int B) (int b) (int n) r = Some (r, int n, int B)"
      by (subst bits_get_loop.simps) simp
    with False less.prems show ?thesis by (intro exI [of _ r] exI [of _ n] exI [of _ B]) auto
  qed
qed

lemma bits_get_single:
  assumes "b + n \<le> 8" and "n \<le> 30" and "s = 8 - (b + n)"
  shows "bit (drop_bit s (ucast (buf ! B)) AND mask n :: u64) k \<longleftrightarrow>
         k < n \<and> bit_at buf (8 * B + b + n - 1 - k)"
proof (cases "k < n")
  case True
  then have "8 * B + b + n - 1 - k = 8 * Suc B - 1 - (s + k)" and "s + k < 8"
    using assms by auto
  with True show ?thesis
    using bit_at_rev [of "s + k" buf B] by (simp add: bit_simps)
qed (simp add: bit_simps)

lemma bits_get_multi:
  assumes "get_inv buf B B' r" and "n' \<le> 8" and "n \<le> 30"
    and E: "8 * B' + n' = 8 * B + b + n"
  shows "bit ((push_bit n' r OR drop_bit (8 - n') (ucast (buf ! B'))) AND mask n) k \<longleftrightarrow>
         k < n \<and> bit_at buf (8 * B + b + n - 1 - k)"
proof (cases "k < n")
  case True
  have k64: "k < 64" using True assms(3) by simp
  show ?thesis
  proof (cases "k < n'")
    case k: True
    then have "8 * B' + n' - 1 - k = 8 * Suc B' - 1 - (8 - n' + k)" and "8 - n' + k < 8"
      using assms(2) by simp_all
    with k True k64 show ?thesis
      using bit_at_rev [of "8 - n' + k" buf B'] by (simp add: bit_simps E)
  next
    case False
    then obtain j where k: "k = n' + j" by (metis le_Suc_ex not_less)
    have idx: "8 * B' + n' - 1 - k = 8 * B' - 1 - j" unfolding k by simp
    have "8 * B + j < 8 * B'" using True E unfolding k by linarith
    then have "bit r j \<longleftrightarrow> bit_at buf (8 * B' - 1 - j)"
      using assms(1) k64 k by (auto simp: get_inv_def)
    moreover have "\<not> bit (buf ! B') (8 - n' + k)"
      using False assms(2) bit_byte_small [of "buf ! B'" "8 - n' + k"] by auto
    ultimately show ?thesis
      unfolding E [symmetric] idx using False True k64 by (simp add: bit_simps k)
  qed
qed (simp add: bit_simps)

lemma pos_split:
  "int pos div 8 = int (pos div 8)" "int pos mod 8 = int (pos mod 8)"
  by (simp_all add: zdiv_int zmod_int)

lemma bits_get_ok:
  assumes "n \<le> 30" and "pos + n \<le> 8 * length buf" and "pos < 8 * length buf"
  shows "\<exists>r. bits_get buf (int pos) (int n) = Some r \<and>
           (\<forall>k. bit r k \<longleftrightarrow> k < n \<and> bit_at buf (pos + n - 1 - k))"
proof -
  define B b where "B = pos div 8" and "b = pos mod 8"
  have pos: "pos = 8 * B + b" "b < 8" by (simp_all add: B_def b_def)
  have B: "B < length buf" using assms(3) pos by linarith
  have ints: "int pos div 8 = int B" "int pos mod 8 = int b"
    by (simp_all add: B_def b_def pos_split)
  show ?thesis
  proof (cases "b + n \<le> 8")
    case True
    define s where "s = 8 - (b + n)"
    have s: "8 - (int b + int n) = int s" and s32: "int s < 32" and le: "int b + int n \<le> 8"
      using True by (simp_all add: s_def)
    have "bits_get buf (int pos) (int n) =
        Some (drop_bit s (ucast (buf ! B)) AND mask n)"
      using s32 le B assms(1) by (simp add: bits_get_def ints s c_mask_nat)
    then show ?thesis
      using bits_get_single [OF True assms(1) s_def] pos(1) by blast
  next
    case False
    have start: "get_inv buf B B 0" by (simp add: get_inv_def)
    have "8 < b + n \<or> (b = 0 \<and> 0 < n)" using False by simp
    note loop_ok = bits_get_loop_ok [OF start order_refl pos(2) assms(2) [unfolded pos(1)] this]
    have "\<exists>r' n' B'. bits_get_loop buf (int B) (int b) (int n) 0 = Some (r', int n', int B') \<and>
        get_inv buf B B' r' \<and> B \<le> B' \<and> 1 \<le> n' \<and> n' \<le> 8 \<and> n' \<le> n \<and>
        8 * B' + n' = 8 * B + b + n"
      by (rule loop_ok)
    then obtain r' n' B' where loop:
        "bits_get_loop buf (int B) (int b) (int n) 0 = Some (r', int n', int B')"
        "get_inv buf B B' r'" "B \<le> B'" "1 \<le> n'" "n' \<le> 8" "8 * B' + n' = 8 * B + b + n"
      by blast
    have B': "B' < length buf" using loop(4,6) assms(2) pos(1) by linarith
    have n': "nat (8 - int n') = 8 - n'" "c_shift_ok 32 (8 - int n') = Some ()"
      using loop(5) by (simp_all add: c_shift_ok_def)
    have gt: "\<not> int b + int n \<le> 8" using False by simp
    have "bits_get buf (int pos) (int n) =
        Some ((push_bit n' r' OR drop_bit (8 - n') (ucast (buf ! B'))) AND mask n)"
      using gt loop(1,4,5) B' assms(1)
      by (simp add: bits_get_def ints c_mask_nat n' Let_def)
    then show ?thesis
      using bits_get_multi [OF loop(2,5) assms(1) loop(6)] pos(1) by blast
  qed
qed

subsection \<open>Writing\<close>

definition mid_byte :: "u64 \<Rightarrow> nat \<Rightarrow> nat \<Rightarrow> u8 \<Rightarrow> u8" where
  "mid_byte v n b old =
     ucast ((ucast old AND NOT (mask (8 - b))) OR (drop_bit (n - (8 - b)) v AND mask (8 - b)) :: u64)"

definition end_byte :: "u64 \<Rightarrow> nat \<Rightarrow> nat \<Rightarrow> u8 \<Rightarrow> u8" where
  "end_byte v n s old =
     ucast ((ucast old AND NOT (push_bit s (mask n))) OR push_bit s v :: u64)"

lemma bit_mid_byte:
  "k < 8 \<Longrightarrow> bit (mid_byte v n b old) k \<longleftrightarrow>
     (if k < 8 - b then bit v (n - (8 - b) + k) else bit old k)"
  by (auto simp: mid_byte_def bit_simps)

lemma bit_end_byte:
  "k < 8 \<Longrightarrow> bit (end_byte v n s old) k \<longleftrightarrow>
     (if s \<le> k \<and> k < s + n then bit v (k - s) else bit old k \<or> (s \<le> k \<and> bit v (k - s)))"
  by (auto simp: end_byte_def bit_simps)

lemma bit_bounded:
  assumes "unat (v :: u64) < 2 ^ n" and "n \<le> k"
  shows "\<not> bit v k"
proof -
  have "take_bit n v = v"
    using assms(1) by (simp add: word_unat_eq_iff unsigned_take_bit_eq take_bit_nat_eq_self)
  then have "bit v k \<longleftrightarrow> bit (take_bit n v) k" by simp
  with assms(2) show ?thesis by (simp add: bit_simps)
qed

text \<open>
  The buffer with the bits from \<open>pos\<close> up to \<open>lim\<close> replaced by those of \<open>v\<close>, whose last bit
  is at \<open>E - 1\<close>.
\<close>

definition set_inv :: "u8 list \<Rightarrow> nat \<Rightarrow> nat \<Rightarrow> u64 \<Rightarrow> nat \<Rightarrow> u8 list \<Rightarrow> bool" where
  "set_inv buf0 pos E v lim buf \<longleftrightarrow> length buf = length buf0 \<and>
     (\<forall>i. bit_at buf i \<longleftrightarrow>
        (if pos \<le> i \<and> i < lim then bit v (E - 1 - i) else bit_at buf0 i))"

lemma bit_at_split:
  "B < length buf \<Longrightarrow> j < 8 \<Longrightarrow>
   bit_at (buf[B := c]) (8 * B' + j) \<longleftrightarrow> (if B' = B then bit c (7 - j) else bit_at buf (8 * B' + j))"
  by (simp add: bit_at_update)

lemma idx_rev: "8 * B + m - 1 - (8 * B + j) = m - 1 - (j :: nat)"
  by simp

text \<open>
  Replacing one byte extends the invariant, if the new byte has the bits of \<open>v\<close> from bit \<open>b\<close>
  up to bit \<open>e\<close> of the byte and the old ones elsewhere.
\<close>

lemma set_inv_byte:
  assumes inv: "set_inv buf0 pos (8 * B + m) v (8 * B) buf" and B: "B < length buf"
    and pos: "pos = 8 * B + b \<or> pos \<le> 8 * B \<and> b = 0"
    and new: "\<And>j. j < 8 \<Longrightarrow> bit c (7 - j) \<longleftrightarrow>
        (if b \<le> j \<and> j < e then bit v (m - 1 - j) else bit (buf ! B) (7 - j))"
    and e: "e \<le> 8"
  shows "set_inv buf0 pos (8 * B + m) v (8 * B + e) (buf[B := c])"
proof -
  have "bit_at (buf[B := c]) i \<longleftrightarrow>
      (if pos \<le> i \<and> i < 8 * B + e then bit v (8 * B + m - 1 - i) else bit_at buf0 i)" for i
  proof -
    define B' j where "B' = i div 8" and "j = i mod 8"
    have i: "i = 8 * B' + j" and j: "j < 8" by (simp_all add: B'_def j_def)
    have old: "bit_at buf i \<longleftrightarrow>
        (if pos \<le> i \<and> i < 8 * B then bit v (8 * B + m - 1 - i) else bit_at buf0 i)"
      using inv unfolding set_inv_def by blast
    show ?thesis
    proof (cases "B' = B")
      case True
      have "\<not> i < 8 * B" unfolding i True by simp
      with old have "bit_at buf i = bit_at buf0 i" by simp
      moreover have "bit_at buf i = bit (buf ! B) (7 - j)"
        unfolding i True by (rule bit_at_byte [OF j])
      moreover have "pos \<le> i \<longleftrightarrow> b \<le> j" using pos unfolding i True by auto
      moreover have "i < 8 * B + e \<longleftrightarrow> j < e" unfolding i True by simp
      moreover have "8 * B + m - 1 - i = m - 1 - j" unfolding i True by (rule idx_rev)
      moreover have "bit_at (buf[B := c]) i = bit c (7 - j)"
        unfolding i True using bit_at_split [OF B j] by simp
      ultimately show ?thesis using new [OF j] by simp
    next
      case False
      then have "bit_at (buf[B := c]) i = bit_at buf i"
        unfolding i using bit_at_split [OF B j] by simp
      moreover have "i < 8 * B + e \<longleftrightarrow> i < 8 * B" if "pos \<le> i"
      proof
        assume "i < 8 * B + e"
        then have "8 * B' + j < 8 * B + 8" using e i by linarith
        then have "B' \<le> B" by linarith
        with False have "8 * B' + 8 \<le> 8 * B" by simp
        then show "i < 8 * B" using i j by linarith
      qed simp
      ultimately show ?thesis using old by auto
    qed
  qed
  with inv show ?thesis by (simp add: set_inv_def)
qed

lemma bits_set_loop_step:
  assumes "8 < b + n" and "b < 8" and "n \<le> 30" and "B < length buf"
  shows "bits_set_loop buf (int B) (int b) (int n) v =
    bits_set_loop (buf[B := mid_byte v n b (buf ! B)]) (int (Suc B)) (int 0) (int (n - (8 - b))) v"
proof -
  have sw: "int n - (8 - int b) = int b + int n - 8" by simp
  have "c_mask (8 - int b) = Some (mask (8 - b))"
    using assms(2) c_mask_nat [of "8 - b"] by simp
  moreover have "c_shift_ok 64 (int b + int n - 8) = Some ()" "nat (int b + int n - 8) = b + n - 8"
    using assms by (simp_all add: c_shift_ok_def)
  ultimately show ?thesis
    using assms by (subst bits_set_loop.simps) (simp add: mid_byte_def Let_def sw add.commute)
qed

lemma bits_set_loop_ok:
  assumes "set_inv buf0 pos E v (8 * B) buf" and "E = 8 * B + (b + n)"
    and "pos = 8 * B + b \<or> pos \<le> 8 * B \<and> b = 0" and "b < 8" and "n \<le> 30"
    and "E \<le> 8 * length buf0" and "8 < b + n \<or> (b = 0 \<and> 0 < n)"
  shows "\<exists>buf' n' B'. bits_set_loop buf (int B) (int b) (int n) v = Some (buf', int n', int B') \<and>
           set_inv buf0 pos E v (8 * B') buf' \<and> E = 8 * B' + n' \<and> 1 \<le> n' \<and> n' \<le> 8 \<and>
           pos \<le> 8 * B'"
  using assms
proof (induction n arbitrary: B b buf rule: less_induct)
  case (less n)
  show ?case
  proof (cases "8 < b + n")
    case True
    define m where "m = n - (8 - b)"
    have m: "n = (8 - b) + m" "0 < m" using True less.prems(4) by (auto simp: m_def)
    have E: "E = 8 * Suc B + m" using less.prems(2,4) m(1) by simp
    have len: "length buf = length buf0" using less.prems(1) by (simp add: set_inv_def)
    have B: "B < length buf" using E less.prems(6) len by simp
    let ?c = "mid_byte v n b (buf ! B)"
    have "set_inv buf0 pos (8 * B + (b + n)) v (8 * B + 8) (buf[B := ?c])"
    proof (rule set_inv_byte [OF _ B less.prems(3)])
      show "set_inv buf0 pos (8 * B + (b + n)) v (8 * B) buf"
        using less.prems(1,2) by simp
      fix j :: nat
      assume j: "j < 8"
      have "n - (8 - b) + (7 - j) = b + n - 1 - j" if "b \<le> j"
        using that j m less.prems(4) by simp
      then show "bit ?c (7 - j) \<longleftrightarrow>
          (if b \<le> j \<and> j < 8 then bit v (b + n - 1 - j) else bit (buf ! B) (7 - j))"
        using j less.prems(4) by (auto simp: bit_mid_byte)
    qed simp
    then have inv: "set_inv buf0 pos E v (8 * Suc B) (buf[B := ?c])"
      using less.prems(2) by (simp add: add.commute)
    have "\<exists>buf' n' B'. bits_set_loop (buf[B := ?c]) (int (Suc B)) (int 0) (int m) v =
          Some (buf', int n', int B') \<and>
        set_inv buf0 pos E v (8 * B') buf' \<and> E = 8 * B' + n' \<and> 1 \<le> n' \<and> n' \<le> 8 \<and>
        pos \<le> 8 * B'"
    proof (rule less.IH [OF _ inv _ _ _ _ less.prems(6)])
      show "m < n" using m less.prems(4) by simp
      show "E = 8 * Suc B + (0 + m)" using E by simp
      show "pos = 8 * Suc B + 0 \<or> pos \<le> 8 * Suc B \<and> 0 = 0"
        using less.prems(3,4) by auto
      show "m \<le> 30" using m(1) less.prems(5) by simp
    qed (use m in simp_all)
    then show ?thesis
      unfolding bits_set_loop_step [OF True less.prems(4,5) B, of v] m_def [symmetric] .
  next
    case False
    then have "bits_set_loop buf (int B) (int b) (int n) v = Some (buf, int n, int B)"
      by (subst bits_set_loop.simps) simp
    moreover have "b = 0" "0 < n" "n \<le> 8" "pos \<le> 8 * B" "E = 8 * B + n"
      using False less.prems(2,3,7) by auto
    ultimately show ?thesis
      using less.prems(1) by (intro exI [of _ buf] exI [of _ n] exI [of _ B]) simp
  qed
qed

text \<open>The single-byte case: only here is the value not masked.\<close>

lemma bits_set_single:
  assumes "b + n \<le> 8" and "pos = 8 * B + b" and "b < 8" and "B < length buf"
  shows "bits_set buf (int pos) (int n) v =
         Some (buf[B := end_byte v n (8 - (b + n)) (buf ! B)])"
proof -
  have ints: "int pos div 8 = int B" "int pos mod 8 = int b"
    unfolding pos_split assms(2) using assms(3) by simp_all
  have "nat (8 - (int b + int n)) = 8 - (b + n)" "c_shift_ok 64 (8 - (int b + int n)) = Some ()"
    "int b + int n \<le> 8"
    using assms(1) by (simp_all add: c_shift_ok_def)
  moreover have "c_mask (int n) = Some (mask n)" using assms(1) by (intro c_mask_nat) simp
  ultimately show ?thesis
    using assms(4) by (simp add: bits_set_def ints end_byte_def Let_def)
qed

lemma bits_set_multi:
  assumes "8 < b + n" and "pos = 8 * B + b" and "b < 8" and "n \<le> 30"
    and "bits_set_loop buf (int B) (int b) (int n) v = Some (buf', int n', int B')"
    and "B' < length buf'" and "1 \<le> n'" and "n' \<le> 8"
  shows "bits_set buf (int pos) (int n) v =
         Some (buf'[B' := end_byte v n' (8 - n') (buf' ! B')])"
proof -
  have ints: "int pos div 8 = int B" "int pos mod 8 = int b"
    unfolding pos_split assms(2) using assms(3) by simp_all
  have "nat (8 - int n') = 8 - n'" "c_shift_ok 64 (8 - int n') = Some ()" "\<not> int b + int n \<le> 8"
    using assms(1,7,8) by (simp_all add: c_shift_ok_def)
  moreover have "c_mask (int n') = Some (mask n')" "c_mask (int n) = Some (mask n)"
    using assms(4,8) by (auto intro!: c_mask_nat)
  ultimately show ?thesis
    using assms(5,6) by (simp add: bits_set_def ints end_byte_def Let_def)
qed

lemma bits_set_ok:
  assumes "n \<le> 30" and "pos + n \<le> 8 * length buf" and "pos < 8 * length buf"
    and fits: "unat v < 2 ^ n \<or> 8 < pos mod 8 + n"
  shows "\<exists>buf'. bits_set buf (int pos) (int n) v = Some buf' \<and>
           set_inv buf pos (pos + n) v (pos + n) buf'"
proof -
  define B b where "B = pos div 8" and "b = pos mod 8"
  have pos: "pos = 8 * B + b" "b < 8" by (simp_all add: B_def b_def)
  have B: "B < length buf" using assms(3) pos by linarith
  have start: "set_inv buf pos (8 * B + (b + n)) v (8 * B) buf"
    using pos by (auto simp: set_inv_def)
  show ?thesis
  proof (cases "b + n \<le> 8")
    case True
    let ?s = "8 - (b + n)"
    have small: "\<not> bit v k" if "n \<le> k" for k
      using fits True that bit_bounded by (auto simp: b_def)
    have "set_inv buf pos (8 * B + (b + n)) v (8 * B + (b + n))
        (buf[B := end_byte v n ?s (buf ! B)])"
    proof (rule set_inv_byte [OF start B])
      show "pos = 8 * B + b \<or> pos \<le> 8 * B \<and> b = 0" using pos(1) by simp
      fix j :: nat
      assume j: "j < 8"
      have "?s \<le> 7 - j \<and> 7 - j < ?s + n \<longleftrightarrow> b \<le> j \<and> j < b + n" using True j by auto
      moreover have "7 - j - ?s = b + n - 1 - j" if "b \<le> j" "j < b + n" using that True by simp
      moreover have "\<not> bit v (7 - j - ?s)" if "\<not> b \<le> j" using that True by (intro small) simp
      ultimately show "bit (end_byte v n ?s (buf ! B)) (7 - j) \<longleftrightarrow>
          (if b \<le> j \<and> j < b + n then bit v (b + n - 1 - j) else bit (buf ! B) (7 - j))"
        using j True by (auto simp: bit_end_byte)
    qed (rule True)
    then show ?thesis
      using bits_set_single [OF True pos B, of v] pos(1) by (simp add: add.assoc)
  next
    case False
    have "\<exists>buf' n' B'. bits_set_loop buf (int B) (int b) (int n) v = Some (buf', int n', int B') \<and>
        set_inv buf pos (8 * B + (b + n)) v (8 * B') buf' \<and> 8 * B + (b + n) = 8 * B' + n' \<and>
        1 \<le> n' \<and> n' \<le> 8 \<and> pos \<le> 8 * B'"
      using False pos assms(1) assms(2) [unfolded pos(1)]
      by (intro bits_set_loop_ok [OF start refl]) simp_all
    then obtain buf' n' B' where loop:
        "bits_set_loop buf (int B) (int b) (int n) v = Some (buf', int n', int B')"
        "set_inv buf pos (8 * B' + n') v (8 * B') buf'" "8 * B + (b + n) = 8 * B' + n'"
        "1 \<le> n'" "n' \<le> 8" "pos \<le> 8 * B'"
      by metis
    have "length buf' = length buf" using loop(2) by (simp add: set_inv_def)
    then have B': "B' < length buf'"
      using loop(3,4) assms(2) unfolding pos(1) by linarith
    let ?s = "8 - n'"
    have "set_inv buf pos (8 * B' + n') v (8 * B' + n')
        (buf'[B' := end_byte v n' ?s (buf' ! B')])"
    proof (rule set_inv_byte [OF loop(2) B'])
      show "pos = 8 * B' + 0 \<or> pos \<le> 8 * B' \<and> (0 :: nat) = 0" using loop(6) by simp
      fix j :: nat
      assume j: "j < 8"
      have "?s \<le> 7 - j \<longleftrightarrow> j < n'" using loop(5) j by auto
      moreover have "7 - j - ?s = n' - 1 - j" if "j < n'" using that loop(5) by simp
      ultimately show "bit (end_byte v n' ?s (buf' ! B')) (7 - j) \<longleftrightarrow>
          (if 0 \<le> j \<and> j < n' then bit v (n' - 1 - j) else bit (buf' ! B') (7 - j))"
        using j loop(5) by (auto simp: bit_end_byte)
    qed (rule loop(5))
    moreover have "pos + n = 8 * B' + n'" using loop(3) pos(1) by simp
    moreover have "8 < b + n" using False by simp
    ultimately show ?thesis
      using bits_set_multi [OF _ pos assms(1) loop(1) B' loop(4,5)] by simp
  qed
qed

text \<open>
  The general case, for a value of any size. If the field lies inside one byte the value is not
  masked, so its surplus bits reach the bits of that byte in front of the field: \<open>spill pos n v i\<close>
  says that a surplus bit which is set lands on bit \<open>i\<close> of the buffer.
\<close>

definition spill :: "nat \<Rightarrow> nat \<Rightarrow> u64 \<Rightarrow> nat \<Rightarrow> bool" where
  "spill pos n v i \<longleftrightarrow>
     pos mod 8 + n \<le> 8 \<and> i < pos \<and> i div 8 = pos div 8 \<and> bit v (pos + n - 1 - i)"

definition set_result :: "u8 list \<Rightarrow> nat \<Rightarrow> nat \<Rightarrow> u64 \<Rightarrow> u8 list \<Rightarrow> bool" where
  "set_result buf0 pos n v buf \<longleftrightarrow> length buf = length buf0 \<and>
     (\<forall>i. bit_at buf i \<longleftrightarrow>
        (if pos \<le> i \<and> i < pos + n then bit v (pos + n - 1 - i)
         else bit_at buf0 i \<or> spill pos n v i))"

lemma no_spill: "unat v < 2 ^ n \<or> 8 < pos mod 8 + n \<Longrightarrow> \<not> spill pos n v i"
proof -
  have "n \<le> pos + n - 1 - i" if "i < pos" using that by simp
  then show "unat v < 2 ^ n \<or> 8 < pos mod 8 + n \<Longrightarrow> \<not> spill pos n v i"
    using bit_bounded [of v n "pos + n - 1 - i"] by (auto simp: spill_def simp del: diff_diff_left)
qed

lemma bits_set_any:
  assumes "n \<le> 30" and "pos + n \<le> 8 * length buf" and "pos < 8 * length buf"
  shows "\<exists>buf'. bits_set buf (int pos) (int n) v = Some buf' \<and> set_result buf pos n v buf'"
proof (cases "8 < pos mod 8 + n")
  case True
  then obtain buf' where "bits_set buf (int pos) (int n) v = Some buf'"
    "set_inv buf pos (pos + n) v (pos + n) buf'"
    using bits_set_ok [OF assms] by blast
  then show ?thesis using no_spill [of v n pos] True by (auto simp: set_result_def set_inv_def)
next
  case False
  define B b where "B = pos div 8" and "b = pos mod 8"
  have pos: "pos = 8 * B + b" "b < 8" by (simp_all add: B_def b_def)
  have B: "B < length buf" using assms(3) pos by linarith
  have bn: "b + n \<le> 8" using False by (simp add: b_def)
  let ?c = "end_byte v n (8 - (b + n)) (buf ! B)"
  have "bit_at (buf[B := ?c]) i \<longleftrightarrow>
      (if pos \<le> i \<and> i < pos + n then bit v (pos + n - 1 - i)
       else bit_at buf i \<or> spill pos n v i)" for i
  proof (cases "i div 8 = B")
    case True
    define j where "j = i mod 8"
    have i: "i = 8 * B + j" "j < 8" using True by (auto simp: j_def)
    have "bit_at (buf[B := ?c]) i \<longleftrightarrow> bit ?c (7 - j)"
      unfolding i(1) using bit_at_split [OF B i(2)] by simp
    moreover have "8 - (b + n) \<le> 7 - j \<longleftrightarrow> j < b + n" using bn i(2) by auto
    moreover have "7 - j < 8 - (b + n) + n \<longleftrightarrow> b \<le> j" using bn i(2) by auto
    moreover have "7 - j - (8 - (b + n)) = b + n - 1 - j" if "j < b + n" using that bn i(2) by simp
    moreover have "bit_at buf i \<longleftrightarrow> bit (buf ! B) (7 - j)"
      unfolding i(1) by (rule bit_at_byte [OF i(2)])
    moreover have "pos \<le> i \<longleftrightarrow> b \<le> j" "i < pos + n \<longleftrightarrow> j < b + n" "i < pos \<longleftrightarrow> j < b"
      "pos + n - 1 - i = b + n - 1 - j"
      unfolding pos(1) i(1) by auto
    ultimately show ?thesis using True bn i(2)
      by (auto simp: bit_end_byte spill_def B_def [symmetric] b_def [symmetric])
  next
    case False
    then have "bit_at (buf[B := ?c]) i = bit_at buf i" using bit_at_update [OF B] by simp
    moreover have "\<not> (pos \<le> i \<and> i < pos + n)"
    proof
      assume "pos \<le> i \<and> i < pos + n"
      then have "i div 8 = B" using pos bn by (intro div_nat_eqI) auto
      with False show False by simp
    qed
    ultimately show ?thesis using False by (auto simp: spill_def B_def)
  qed
  then show ?thesis using bits_set_single [OF bn pos B] by (simp add: set_result_def)
qed

text \<open>Reading back what was written.\<close>

lemma bits_set_get:
  assumes "n \<le> 30" and "pos + n \<le> 8 * length buf" and "pos < 8 * length buf"
  shows "\<exists>buf'. bits_set buf (int pos) (int n) v = Some buf' \<and> set_result buf pos n v buf' \<and>
           bits_get buf' (int pos) (int n) = Some (take_bit n v)"
proof -
  obtain buf' where buf': "bits_set buf (int pos) (int n) v = Some buf'"
    "set_result buf pos n v buf'"
    using bits_set_any [OF assms] by blast
  have len: "length buf' = length buf" using buf'(2) by (simp add: set_result_def)
  obtain r where r: "bits_get buf' (int pos) (int n) = Some r"
    "\<And>k. bit r k \<longleftrightarrow> k < n \<and> bit_at buf' (pos + n - 1 - k)"
    using bits_get_ok [of n pos buf'] assms len by auto
  have "r = take_bit n v"
  proof (rule bit_word_eqI)
    fix k
    have "pos + n - 1 - (pos + n - 1 - k) = k" "pos \<le> pos + n - 1 - k" "pos + n - 1 - k < pos + n"
      if "k < n" using that by simp_all
    then have "bit_at buf' (pos + n - 1 - k) \<longleftrightarrow> bit v k" if "k < n"
      using buf'(2) that unfolding set_result_def by presburger
    then show "bit r k \<longleftrightarrow> bit (take_bit n v) k" by (auto simp: r(2) bit_simps)
  qed
  with buf' r(1) show ?thesis by blast
qed


lemma bits_size_ceiling: "bits_size (int n) = int ((n + 7) div 8)"
proof -
  define q r where "q = n div 8" and "r = n mod 8"
  have n: "n = 8 * q + r" and r: "r < 8" by (simp_all add: q_def r_def)
  have "(r + 7) div 8 = (if 0 < r then 1 else 0)"
    using r by (auto intro: div_nat_eqI)
  moreover have "(n + 7) div 8 = q + (r + 7) div 8"
    unfolding n add.assoc by simp
  ultimately have "(n + 7) div 8 = q + (if 0 < r then 1 else 0)" by simp
  moreover have "bits_size (int n) = int q + (if 0 < r then 1 else 0)"
    by (simp add: bits_size_def pos_split q_def r_def)
  ultimately show ?thesis by simp
qed

subsection \<open>Properties\<close>

text \<open>
  For up to 30 bits that lie inside the buffer at any bit position, \<open>bits_get\<close> is defined, and
  bit \<open>k\<close> of its result is the bit of the buffer \<open>k\<close> places before the end of the field; all higher
  bits are 0.
\<close>

theorem bits_get_field:
  assumes "n \<le> 30" and "pos + n \<le> 8 * length buf" and "pos < 8 * length buf"
  shows "\<exists>r. bits_get buf (int pos) (int n) = Some r \<and>
           (\<forall>k. bit r k \<longleftrightarrow> k < n \<and> bit_at buf (pos + n - 1 - k))"
  by (rule bits_get_ok [OF assms])

theorem bits_get_field_witness:
  "\<exists>r. bits_get [0x0f, 0xa0, 1] 4 12 = Some r \<and> (bit r 11 \<longleftrightarrow> bit_at [0x0f, 0xa0, 1] 4)"
  using bits_get_field [of 12 4 "[0x0f, 0xa0, 1]"] by auto

text \<open>
  C37: For up to 30 bits at any position inside the buffer and a value of any size,
  \<open>bits_set\<close> followed by \<open>bits_get\<close> of the same field gives the low \<open>n\<close> bits of the value. Every bit outside
  the field stays, except that a field inside one byte lets the surplus bits of a value that is too
  large be merged into the bits in front of it; if the value fits in the field, or the field spans
  two bytes, no other bit changes.
\<close>

theorem bits_set_get_roundtrip:
  assumes "n \<le> 30" and "pos + n \<le> 8 * length buf" and "pos < 8 * length buf"
  shows "\<exists>buf'. bits_set buf (int pos) (int n) v = Some buf' \<and>
           bits_get buf' (int pos) (int n) = Some (take_bit n v) \<and> length buf' = length buf \<and>
           (\<forall>i. \<not> (pos \<le> i \<and> i < pos + n) \<longrightarrow>
              (bit_at buf' i \<longleftrightarrow> bit_at buf i \<or> spill pos n v i)) \<and>
           (unat v < 2 ^ n \<or> 8 < pos mod 8 + n \<longrightarrow> (\<forall>i. \<not> spill pos n v i))"
proof -
  obtain buf' where "bits_set buf (int pos) (int n) v = Some buf'" "set_result buf pos n v buf'"
    "bits_get buf' (int pos) (int n) = Some (take_bit n v)"
    using bits_set_get [OF assms] by blast
  then show ?thesis using no_spill by (intro exI [of _ buf']) (auto simp: set_result_def)
qed

theorem bits_set_get_roundtrip_witness:
  "(\<exists>buf'. bits_set [0, 0xff, 0] 6 11 0x155 = Some buf' \<and>
           bits_get buf' 6 11 = Some (take_bit 11 0x155)) \<and>
   (\<exists>buf'. bits_set [0, 0] 4 2 0xf = Some buf' \<and> bits_get buf' 4 2 = Some 3)"
proof -
  have "take_bit 2 (0xf :: u64) = 3" by code_simp
  then show ?thesis
    using bits_set_get_roundtrip [of 11 6 "[0, 0xff, 0]" "0x155"]
      bits_set_get_roundtrip [of 2 4 "[0, 0]" "0xf"] by auto
qed

text \<open>
  If the value fits in the field, or the field spans two bytes, \<open>bits_set\<close> changes the bits of the field only: every other bit and
  the length of the buffer stay, and the bits of the field are those of the value.
\<close>

theorem bits_set_frame:
  assumes "n \<le> 30" and "pos + n \<le> 8 * length buf" and "pos < 8 * length buf"
    and "unat v < 2 ^ n \<or> 8 < pos mod 8 + n"
  shows "\<exists>buf'. bits_set buf (int pos) (int n) v = Some buf' \<and> length buf' = length buf \<and>
           (\<forall>i < 8 * length buf. bit_at buf' i \<longleftrightarrow>
              (if pos \<le> i \<and> i < pos + n then bit v (pos + n - 1 - i) else bit_at buf i))"
proof -
  obtain buf' where "bits_set buf (int pos) (int n) v = Some buf'"
    "set_inv buf pos (pos + n) v (pos + n) buf'"
    using bits_set_ok [OF assms] by blast
  then show ?thesis unfolding set_inv_def by blast
qed

theorem bits_set_frame_witness:
  "\<exists>buf'. bits_set [0, 0xff, 0] 6 11 0x155 = Some buf' \<and> bit_at buf' 17 = bit_at [0, 0xff, 0] 17"
  using bits_set_frame [of 11 6 "[0, 0xff, 0]" "0x155"] by auto



end
