(* ===== verification/BinHeap.thy ===== *)
theory BinHeap
  imports BfPrelude
begin

section \<open>The binary heap (heap.c)\<close>

text \<open>
  The heap keeps its items in an array that grows and shrinks in blocks of 128 cells. An item is
  an opaque value (the code's \<open>void *\<close>), compared by the function \<open>cmp\<close> the heap was made with;
  a cell that was allocated but never written is \<open>None\<close>. If an accessor is set, every item has a
  \<open>HeapInfo\<close> object that records its position; these objects are not owned by the heap, and the
  component \<open>heap_infos\<close> is the part of memory that holds them, by address. Positions and sizes
  are natural numbers: the code's \<open>long\<close>s are never negative.
\<close>

subsection \<open>State\<close>

record 'a heap =
  heap_arr :: "'a option list"
  heap_cap :: nat
  heap_len :: nat
  heap_cmp :: "'a \<Rightarrow> 'a \<Rightarrow> int"
  heap_get_info :: "('a \<Rightarrow> addr) option"
  heap_infos :: "addr \<rightharpoonup> nat"

definition HEAP_BLOCK_SIZE :: nat where
  [c_sem]: "HEAP_BLOCK_SIZE = 128"

definition HEAP_PARENT_POS :: "nat \<Rightarrow> nat" where
  [c_sem]: "HEAP_PARENT_POS pos = (pos - 1) div 2"

definition HEAP_LEFT_POS :: "nat \<Rightarrow> nat" where
  [c_sem]: "HEAP_LEFT_POS pos = pos * 2 + 1"

definition HEAP_RIGHT_POS :: "nat \<Rightarrow> nat" where
  [c_sem]: "HEAP_RIGHT_POS pos = pos * 2 + 2"

subsection \<open>Access to the array\<close>

definition heap_rd :: "'a heap \<Rightarrow> nat \<Rightarrow> 'a option" where
  [c_sem]: "heap_rd h pos = (if pos < length (heap_arr h) then heap_arr h ! pos else None)"

text \<open>\<open>info->pos\<close>, through the accessor.\<close>

definition heap_info_pos :: "'a heap \<Rightarrow> ('a \<Rightarrow> addr) \<Rightarrow> 'a \<Rightarrow> nat option" where
  [c_sem]: "heap_info_pos h f item = heap_infos h (f item)"

definition heap_info_set :: "'a heap \<Rightarrow> ('a \<Rightarrow> addr) \<Rightarrow> 'a \<Rightarrow> nat \<Rightarrow> 'a heap option" where
  [c_sem]: "heap_info_set h f item pos =
     (case heap_infos h (f item) of
        None \<Rightarrow> None
      | Some _ \<Rightarrow> Some (h\<lparr>heap_infos := (heap_infos h)(f item \<mapsto> pos)\<rparr>))"

definition heap_move :: "'a heap \<Rightarrow> nat \<Rightarrow> 'a \<Rightarrow> 'a heap option" where
  [c_sem]: "heap_move h pos item = do {
     h \<leftarrow> (case heap_get_info h of None \<Rightarrow> Some h | Some f \<Rightarrow> heap_info_set h f item pos);
     c_require (pos < length (heap_arr h));
     Some (h\<lparr>heap_arr := (heap_arr h)[pos := Some item]\<rparr>) }"

lemma heap_move_frame:
  assumes "heap_move h pos item = Some h'"
  shows "heap_len h' = heap_len h" "heap_cap h' = heap_cap h" "heap_cmp h' = heap_cmp h"
    "heap_get_info h' = heap_get_info h" "length (heap_arr h') = length (heap_arr h)"
  using assms by (auto simp: heap_move_def heap_info_set_def c_require_def
      split: option.splits if_splits bind_splits)

subsection \<open>Resizing\<close>

definition heap_resize :: "'a heap \<Rightarrow> nat \<Rightarrow> 'a heap" where
  [c_sem]: "heap_resize h sz =
     (let heap_size = sz + HEAP_BLOCK_SIZE - sz mod HEAP_BLOCK_SIZE
      in if heap_cap h \<noteq> heap_size
         then h\<lparr>heap_arr := take heap_size (heap_arr h) @
                            replicate (heap_size - length (heap_arr h)) None,
                heap_cap := heap_size\<rparr>
         else h)"

subsection \<open>Sifting\<close>

text \<open>The loops return the heap and the number of exchanges.\<close>

function heap_up_loop :: "'a heap \<Rightarrow> nat \<Rightarrow> nat \<Rightarrow> ('a heap \<times> nat) option" where
  "heap_up_loop h pos n =
     (if pos > 0 then do {
        let parent = HEAP_PARENT_POS pos;
        x \<leftarrow> heap_rd h pos;
        y \<leftarrow> heap_rd h parent;
        if heap_cmp h x y < 0 then do {
          h \<leftarrow> heap_move h parent x;
          h \<leftarrow> heap_move h pos y;
          heap_up_loop h parent (n + 1) }
        else Some (h, n) }
      else Some (h, n))"
  by pat_completeness auto
termination
  by (relation "measure (\<lambda>(h, pos, n). pos)") (auto simp: HEAP_PARENT_POS_def)

declare heap_up_loop.simps [simp del]

definition heap_up :: "'a heap \<Rightarrow> nat \<Rightarrow> ('a heap \<times> nat) option" where
  [c_sem]: "heap_up h pos = heap_up_loop h pos 0"

text \<open>The child that \<open>heap_down\<close> compares with: the smaller one, the left one if it is alone.\<close>

definition heap_down_pos :: "'a heap \<Rightarrow> nat \<Rightarrow> nat option" where
  [c_sem]: "heap_down_pos h pos =
     (let left = HEAP_LEFT_POS pos; right = HEAP_RIGHT_POS pos
      in if right < heap_len h then do {
           l \<leftarrow> heap_rd h left;
           r \<leftarrow> heap_rd h right;
           Some (if heap_cmp h l r < 0 then left else right) }
         else Some left)"

lemma heap_down_pos_cases:
  "heap_down_pos h pos = Some d \<Longrightarrow> d = HEAP_LEFT_POS pos \<or> d = HEAP_RIGHT_POS pos"
  by (auto simp: heap_down_pos_def Let_def split: if_splits bind_splits)

function heap_down_loop :: "'a heap \<Rightarrow> nat \<Rightarrow> nat \<Rightarrow> ('a heap \<times> nat) option" where
  "heap_down_loop h pos n = do {
     down \<leftarrow> heap_down_pos h pos;
     if down < heap_len h then do {
       d \<leftarrow> heap_rd h down;
       p \<leftarrow> heap_rd h pos;
       if heap_cmp h d p < 0 then do {
         h1 \<leftarrow> heap_move h down p;
         h2 \<leftarrow> heap_move h1 pos d;
         heap_down_loop h2 down (n + 1) }
       else Some (h, n) }
     else Some (h, n) }"
  by pat_completeness auto
termination
  by (relation "measure (\<lambda>(h, pos, n). heap_len h - pos)")
    (auto simp: HEAP_LEFT_POS_def HEAP_RIGHT_POS_def heap_move_frame dest!: heap_down_pos_cases)

declare heap_down_loop.simps [simp del]

definition heap_down :: "'a heap \<Rightarrow> nat \<Rightarrow> ('a heap \<times> nat) option" where
  [c_sem]: "heap_down h pos = heap_down_loop h pos 0"

definition heap_hipify_pos :: "'a heap \<Rightarrow> nat \<Rightarrow> ('a heap \<times> nat) option" where
  [c_sem]: "heap_hipify_pos h pos = do {
     (h, n) \<leftarrow> heap_up h pos;
     if n = 0 then heap_down h pos else Some (h, n) }"

text \<open>The loop of \<open>heap_build_heap\<close> for \<open>i\<close> from \<open>k - 1\<close> down to 0.\<close>

fun heap_build_loop :: "'a heap \<Rightarrow> nat \<Rightarrow> nat \<Rightarrow> ('a heap \<times> nat) option" where
  "heap_build_loop h 0 n = Some (h, n)"
| "heap_build_loop h (Suc i) n = do {
     (h, m) \<leftarrow> heap_down h i;
     heap_build_loop h i (n + m) }"

definition heap_build_heap :: "'a heap \<Rightarrow> ('a heap \<times> nat) option" where
  [c_sem]: "heap_build_heap h =
     (if heap_len h > 1 then heap_build_loop h (heap_len h div 2) 0 else Some (h, 0))"

subsection \<open>The operations\<close>

definition heap_create :: "('a \<Rightarrow> 'a \<Rightarrow> int) \<Rightarrow> 'a heap" where
  [c_sem]: "heap_create cmp =
     \<lparr>heap_arr = replicate HEAP_BLOCK_SIZE None, heap_cap = HEAP_BLOCK_SIZE, heap_len = 0,
      heap_cmp = cmp, heap_get_info = None, heap_infos = Map.empty\<rparr>"

definition heap_build :: "('a \<Rightarrow> 'a \<Rightarrow> int) \<Rightarrow> 'a list \<Rightarrow> nat \<Rightarrow> 'a heap option" where
  [c_sem]: "heap_build cmp array n = do {
     let h = heap_create cmp;
     let h = heap_resize h n;
     c_require (n \<le> length array \<and> n \<le> length (heap_arr h));
     let h = h\<lparr>heap_arr := map Some (take n array) @ drop n (heap_arr h)\<rparr>;
     let h = h\<lparr>heap_len := n\<rparr>;
     (h, _) \<leftarrow> heap_build_heap h;
     Some h }"

text \<open>The items the destructor is called on, in order.\<close>

definition heap_destroy :: "'a heap \<Rightarrow> 'a list option" where
  [c_sem]: "heap_destroy h = those (map (heap_rd h) [0..<heap_len h])"

definition heap_size :: "'a heap \<Rightarrow> nat" where
  [c_sem]: "heap_size h = heap_len h"

definition heap_insert :: "'a heap \<Rightarrow> 'a \<Rightarrow> (nat \<times> 'a heap) option" where
  [c_sem]: "heap_insert h item = do {
     let h = (if heap_cap h < heap_len h + 1 then heap_resize h (heap_len h + 1) else h);
     let pos = heap_len h;
     h \<leftarrow> heap_move (h\<lparr>heap_len := pos + 1\<rparr>) pos item;
     (h, _) \<leftarrow> heap_up h (heap_len h - 1);
     Some (heap_len h, h) }"

text \<open>The array is given back in part once more than a block of it is unused.\<close>

definition heap_trim :: "'a heap \<Rightarrow> 'a heap" where
  [c_sem]: "heap_trim h =
     (if heap_cap h - heap_len h > HEAP_BLOCK_SIZE then heap_resize h (heap_len h) else h)"

definition heap_shift :: "'a heap \<Rightarrow> ('a option \<times> 'a heap) option" where
  [c_sem]: "heap_shift h =
     (if heap_len h > 0 then do {
        item \<leftarrow> heap_rd h 0;
        let h = h\<lparr>heap_len := heap_len h - 1\<rparr>;
        last \<leftarrow> heap_rd h (heap_len h);
        h \<leftarrow> heap_move h 0 last;
        (h, _) \<leftarrow> heap_down h 0;
        Some (Some item, heap_trim h) }
      else Some (None, h))"

definition heap_min :: "'a heap \<Rightarrow> 'a option option" where
  [c_sem]: "heap_min h = (if heap_len h > 0 then do { x \<leftarrow> heap_rd h 0; Some (Some x) } else Some None)"

definition heap_del_pos :: "'a heap \<Rightarrow> nat \<Rightarrow> ('a option \<times> 'a heap) option" where
  [c_sem]: "heap_del_pos h pos =
     (if 0 \<le> pos \<and> pos < heap_len h then do {
        item \<leftarrow> heap_rd h pos;
        h \<leftarrow> (if pos = heap_len h - 1 then Some (h\<lparr>heap_len := heap_len h - 1\<rparr>)
              else do {
                let h = h\<lparr>heap_len := heap_len h - 1\<rparr>;
                last \<leftarrow> heap_rd h (heap_len h);
                h \<leftarrow> heap_move h pos last;
                (h, _) \<leftarrow> heap_hipify_pos h pos;
                Some h });
        Some (Some item, heap_trim h) }
      else Some (None, h))"

text \<open>The search loop of \<open>heap_del_item\<close>, over the positions still to look at.\<close>

fun heap_del_item_loop ::
  "('a \<Rightarrow> 'p \<Rightarrow> bool) \<Rightarrow> 'p \<Rightarrow> 'a heap \<Rightarrow> nat list \<Rightarrow> ('a option \<times> 'a heap) option" where
  "heap_del_item_loop match pattern h [] = Some (None, h)"
| "heap_del_item_loop match pattern h (i # is) = do {
     x \<leftarrow> heap_rd h i;
     if match x pattern then heap_del_pos h i
     else heap_del_item_loop match pattern h is }"

definition heap_del_item ::
  "'a heap \<Rightarrow> ('a \<Rightarrow> 'p \<Rightarrow> bool) \<Rightarrow> 'p \<Rightarrow> ('a option \<times> 'a heap) option" where
  [c_sem]: "heap_del_item h match pattern = heap_del_item_loop match pattern h [0..<heap_len h]"

subsection \<open>Position records\<close>

fun heap_set_info_loop :: "('a \<Rightarrow> addr) \<Rightarrow> 'a heap \<Rightarrow> nat list \<Rightarrow> 'a heap option" where
  "heap_set_info_loop f h [] = Some h"
| "heap_set_info_loop f h (i # is) = do {
     x \<leftarrow> heap_rd h i;
     h \<leftarrow> heap_info_set h f x i;
     heap_set_info_loop f h is }"

definition heap_set_info_accessor :: "'a heap \<Rightarrow> ('a \<Rightarrow> addr) option \<Rightarrow> 'a heap option" where
  [c_sem]: "heap_set_info_accessor h fn =
     (let h = h\<lparr>heap_get_info := fn\<rparr>
      in case fn of None \<Rightarrow> Some h | Some f \<Rightarrow> heap_set_info_loop f h [0..<heap_len h])"

text \<open>\<open>a\<close> is the address that \<open>malloc\<close> returned.\<close>

definition heap_info_init :: "(addr \<rightharpoonup> nat) \<Rightarrow> addr \<Rightarrow> (addr \<rightharpoonup> nat)" where
  [c_sem]: "heap_info_init m a = m(a \<mapsto> 0)"

definition heap_info_destroy :: "(addr \<rightharpoonup> nat) \<Rightarrow> addr \<Rightarrow> (addr \<rightharpoonup> nat)" where
  [c_sem]: "heap_info_destroy m a = m(a := None)"

definition heap_hipify :: "'a heap \<Rightarrow> 'a \<Rightarrow> ('a option \<times> 'a heap) option" where
  [c_sem]: "heap_hipify h item =
     (case heap_get_info h of
        None \<Rightarrow> Some (None, h)
      | Some f \<Rightarrow> do {
          pos \<leftarrow> heap_info_pos h f item;
          (h, _) \<leftarrow> heap_hipify_pos h pos;
          Some (Some item, h) })"

definition heap_del :: "'a heap \<Rightarrow> 'a \<Rightarrow> ('a option \<times> 'a heap) option" where
  [c_sem]: "heap_del h item =
     (case heap_get_info h of
        None \<Rightarrow> Some (None, h)
      | Some f \<Rightarrow> do {
          pos \<leftarrow> heap_info_pos h f item;
          heap_del_pos h pos })"

subsection \<open>The checker\<close>

text \<open>The comparison of the item at \<open>i\<close> with a child, if the child exists.\<close>

definition heap_check_child :: "'a heap \<Rightarrow> nat \<Rightarrow> nat \<Rightarrow> bool option" where
  [c_sem]: "heap_check_child h i child =
     (if child < heap_len h then do {
        c \<leftarrow> heap_rd h child;
        x \<leftarrow> heap_rd h i;
        Some (heap_cmp h c x \<ge> 0) }
      else Some True)"

fun heap_check_loop :: "'a heap \<Rightarrow> nat list \<Rightarrow> int option" where
  "heap_check_loop h [] = Some 1"
| "heap_check_loop h (i # is) = do {
     info_ok \<leftarrow> (case heap_get_info h of
        None \<Rightarrow> Some True
      | Some f \<Rightarrow> do {
          x \<leftarrow> heap_rd h i;
          pos \<leftarrow> heap_info_pos h f x;
          Some (pos = i) });
     if \<not> info_ok then Some 0
     else do {
       let parent = HEAP_PARENT_POS i;
       parent_ok \<leftarrow> (if parent > 0 then do {
            p \<leftarrow> heap_rd h parent;
            x \<leftarrow> heap_rd h i;
            Some (heap_cmp h p x \<le> 0) }
          else Some True);
       if \<not> parent_ok then Some 0
       else do {
         left_ok \<leftarrow> heap_check_child h i (HEAP_LEFT_POS i);
         if \<not> left_ok then Some 0
         else do {
           right_ok \<leftarrow> heap_check_child h i (HEAP_RIGHT_POS i);
           if \<not> right_ok then Some 0
           else heap_check_loop h is } } } }"

definition heap_check_properties :: "'a heap \<Rightarrow> int option" where
  [c_sem]: "heap_check_properties h = heap_check_loop h [0..<heap_len h]"

end
