(* ===== verification/BinHeapCorrect.thy ===== *)
theory BinHeapCorrect
  imports BinHeap
begin

section \<open>Correctness of the binary heap\<close>

text \<open>
  The items of a heap as a list, the well-formedness every operation keeps (the array bounds,
  the initialised part, the position records), the heap order, and the functional behaviour of
  each operation. The lemmas about order hold for any comparison function that is a total
  preorder; that is the locale \<open>comparator\<close>.
\<close>

subsection \<open>Items and well-formedness\<close>

definition heap_items :: "'a heap \<Rightarrow> 'a list" where
  "heap_items h = map the (take (heap_len h) (heap_arr h))"

definition heap_wf :: "'a heap \<Rightarrow> bool" where
  "heap_wf h \<longleftrightarrow> length (heap_arr h) = heap_cap h \<and> heap_len h \<le> heap_cap h \<and>
     (\<forall>i < heap_len h. heap_arr h ! i \<noteq> None)"

text \<open>Every item's record holds its position.\<close>

definition heap_info_ok :: "'a heap \<Rightarrow> bool" where
  "heap_info_ok h \<longleftrightarrow> (case heap_get_info h of None \<Rightarrow> True
     | Some f \<Rightarrow> \<forall>i < heap_len h. heap_infos h (f (heap_items h ! i)) = Some i)"

abbreviation heap_ok :: "'a heap \<Rightarrow> bool" where
  "heap_ok h \<equiv> heap_wf h \<and> heap_info_ok h"

lemma heap_items_length [simp]: "heap_wf h \<Longrightarrow> length (heap_items h) = heap_len h"
  by (simp add: heap_items_def heap_wf_def)

lemma heap_rd_item [simp]:
  "heap_wf h \<Longrightarrow> i < heap_len h \<Longrightarrow> heap_rd h i = Some (heap_items h ! i)"
  by (auto simp: heap_rd_def heap_items_def heap_wf_def)

lemma heap_info_okD:
  "heap_info_ok h \<Longrightarrow> heap_get_info h = Some f \<Longrightarrow> i < heap_len h \<Longrightarrow>
   heap_infos h (f (heap_items h ! i)) = Some i"
  by (simp add: heap_info_ok_def)

lemma heap_info_inj:
  assumes "heap_info_ok h" "heap_get_info h = Some f" "i < heap_len h" "j < heap_len h"
    and "f (heap_items h ! i) = f (heap_items h ! j)"
  shows "i = j"
proof -
  have "Some i = Some j"
    using heap_info_okD [OF assms(1,2,3)] heap_info_okD [OF assms(1,2,4)]
    unfolding assms(5) by (rule trans [OF sym])
  then show ?thesis by simp
qed

text \<open>A move that is defined, as an update.\<close>

definition heap_put :: "'a heap \<Rightarrow> nat \<Rightarrow> 'a \<Rightarrow> 'a heap" where
  "heap_put h pos item = h\<lparr>heap_arr := (heap_arr h)[pos := Some item],
     heap_infos := (case heap_get_info h of None \<Rightarrow> heap_infos h
                    | Some f \<Rightarrow> (heap_infos h)(f item \<mapsto> pos))\<rparr>"

definition heap_has_info :: "'a heap \<Rightarrow> 'a \<Rightarrow> bool" where
  "heap_has_info h item \<longleftrightarrow>
     (case heap_get_info h of None \<Rightarrow> True | Some f \<Rightarrow> heap_infos h (f item) \<noteq> None)"

lemma heap_move_put:
  "pos < length (heap_arr h) \<Longrightarrow> heap_has_info h item \<Longrightarrow> heap_move h pos item = Some (heap_put h pos item)"
  by (auto simp: heap_move_def heap_put_def heap_has_info_def heap_info_set_def split: option.splits)

lemma heap_put_simps [simp]:
  "heap_arr (heap_put h pos item) = (heap_arr h)[pos := Some item]"
  "heap_len (heap_put h pos item) = heap_len h"
  "heap_cap (heap_put h pos item) = heap_cap h"
  "heap_cmp (heap_put h pos item) = heap_cmp h"
  "heap_get_info (heap_put h pos item) = heap_get_info h"
  by (simp_all add: heap_put_def)

lemma heap_put_infos:
  "heap_infos (heap_put h pos item) = (case heap_get_info h of None \<Rightarrow> heap_infos h
                    | Some f \<Rightarrow> (heap_infos h)(f item \<mapsto> pos))"
  by (simp add: heap_put_def)

lemma heap_put_wf: "heap_wf h \<Longrightarrow> heap_wf (heap_put h pos item)"
  by (cases "pos < length (heap_arr h)") (auto simp: heap_wf_def nth_list_update list_update_beyond)

lemma heap_put_items:
  "heap_items (heap_put h pos item) = (heap_items h)[pos := item]"
  by (simp add: heap_items_def take_update_swap map_update)

lemma heap_has_info_item:
  "heap_info_ok h \<Longrightarrow> i < heap_len h \<Longrightarrow> heap_has_info h (heap_items h ! i)"
  by (auto simp: heap_has_info_def heap_info_ok_def split: option.splits)

lemma heap_has_info_put: "heap_has_info h x \<Longrightarrow> heap_has_info (heap_put h pos y) x"
  by (auto simp: heap_has_info_def heap_put_infos split: option.splits)

subsection \<open>Rearrangements\<close>

text \<open>
  \<open>h'\<close> holds the items of \<open>h\<close> in another order, well formed, with no other change: the records
  of items that are not in the heap are untouched.
\<close>

definition heap_perm :: "'a heap \<Rightarrow> 'a heap \<Rightarrow> bool" where
  "heap_perm h h' \<longleftrightarrow> heap_ok h' \<and> heap_len h' = heap_len h \<and> heap_cap h' = heap_cap h \<and>
     heap_cmp h' = heap_cmp h \<and> heap_get_info h' = heap_get_info h \<and>
     mset (heap_items h') = mset (heap_items h) \<and>
     (\<forall>a. (\<forall>f. heap_get_info h = Some f \<longrightarrow> a \<notin> f ` set (heap_items h)) \<longrightarrow>
          heap_infos h' a = heap_infos h a)"

lemma heap_perm_refl: "heap_ok h \<Longrightarrow> heap_perm h h"
  by (simp add: heap_perm_def)

lemma heap_perm_trans: "heap_perm h1 h2 \<Longrightarrow> heap_perm h2 h3 \<Longrightarrow> heap_perm h1 h3"
  by (auto simp: heap_perm_def dest: mset_eq_setD)

lemma heap_perm_simps:
  assumes "heap_perm h h'"
  shows "heap_wf h'" "heap_info_ok h'" "heap_len h' = heap_len h" "heap_cap h' = heap_cap h"
    "heap_cmp h' = heap_cmp h" "heap_get_info h' = heap_get_info h"
    "mset (heap_items h') = mset (heap_items h)"
  using assms by (simp_all add: heap_perm_def)

text \<open>The exchange of two items, which is how both loops write.\<close>

definition list_swap :: "'a list \<Rightarrow> nat \<Rightarrow> nat \<Rightarrow> 'a list" where
  "list_swap xs i j = xs[i := xs ! j, j := xs ! i]"

lemma list_swap_mset: "i < length xs \<Longrightarrow> j < length xs \<Longrightarrow> mset (list_swap xs i j) = mset xs"
  by (simp add: list_swap_def mset_swap)

lemma list_swap_length [simp]: "length (list_swap xs i j) = length xs"
  by (simp add: list_swap_def)

lemma list_swap_nth:
  "i < length xs \<Longrightarrow> j < length xs \<Longrightarrow> k < length xs \<Longrightarrow> list_swap xs i j ! k =
     (if k = i then xs ! j else if k = j then xs ! i else xs ! k)"
  by (auto simp: list_swap_def nth_list_update)

lemma heap_swap:
  assumes ok: "heap_wf h" "heap_info_ok h" and ij: "i < heap_len h" "j < heap_len h" "i \<noteq> j"
  obtains h1 h2 where "heap_move h i (heap_items h ! j) = Some h1"
    and "heap_move h1 j (heap_items h ! i) = Some h2"
    and "heap_perm h h2" and "heap_items h2 = list_swap (heap_items h) i j"
proof
  let ?x = "heap_items h ! i" and ?y = "heap_items h ! j"
  let ?h1 = "heap_put h i ?y"
  let ?h2 = "heap_put ?h1 j ?x"
  have len: "heap_len h \<le> length (heap_arr h)" using ok(1) by (simp add: heap_wf_def)
  show "heap_move h i ?y = Some ?h1"
    using len ij heap_has_info_item [OF ok(2)] by (simp add: heap_move_put)
  show "heap_move ?h1 j ?x = Some ?h2"
    using len ij heap_has_info_item [OF ok(2)] by (simp add: heap_move_put heap_has_info_put)
  show items: "heap_items ?h2 = list_swap (heap_items h) i j"
    by (simp add: heap_put_items list_swap_def)
  have wf: "heap_wf ?h2" using ok(1) by (simp add: heap_put_wf)
  have "heap_info_ok ?h2"
  proof (cases "heap_get_info h")
    case None
    then show ?thesis by (simp add: heap_info_ok_def)
  next
    case (Some f)
    have inj: "f (heap_items h ! k) = f (heap_items h ! l) \<longleftrightarrow> k = l"
      if "k < heap_len h" "l < heap_len h" for k l
      using heap_info_inj [OF ok(2) Some] that by blast
    have pos: "heap_infos h (f (heap_items h ! k)) = Some k" if "k < heap_len h" for k
      using ok(2) Some that by (simp add: heap_info_ok_def)
    show ?thesis
      unfolding heap_info_ok_def items
      using Some ok(1) ij by (auto simp: heap_put_infos list_swap_nth inj pos)
  qed
  with wf ok(1) ij show "heap_perm h ?h2"
    by (auto simp: heap_perm_def items list_swap_mset heap_put_infos split: option.splits)
qed

subsection \<open>Heap order\<close>

text \<open>
  The order holds at position \<open>i\<close> if the item is not smaller than its parent. \<open>heap_from\<close>: it
  holds below position \<open>k\<close>. \<open>up_ok\<close>: it holds everywhere but at \<open>pos\<close>, and would hold there if
  the parent were taken out. \<open>down_ok\<close>: it holds below \<open>k\<close> everywhere but at the children of
  \<open>pos\<close>. \<open>hip_ok\<close>: everywhere but at \<open>pos\<close> and its children.
\<close>

definition heap_from :: "('a \<Rightarrow> 'a \<Rightarrow> int) \<Rightarrow> nat \<Rightarrow> 'a list \<Rightarrow> bool" where
  "heap_from cmp k xs \<longleftrightarrow>
     (\<forall>i < length xs. 0 < i \<and> k \<le> HEAP_PARENT_POS i \<longrightarrow> cmp (xs ! HEAP_PARENT_POS i) (xs ! i) \<le> 0)"

abbreviation is_heap :: "('a \<Rightarrow> 'a \<Rightarrow> int) \<Rightarrow> 'a list \<Rightarrow> bool" where
  "is_heap cmp \<equiv> heap_from cmp 0"

definition up_ok :: "('a \<Rightarrow> 'a \<Rightarrow> int) \<Rightarrow> nat \<Rightarrow> 'a list \<Rightarrow> bool" where
  "up_ok cmp pos xs \<longleftrightarrow>
     (\<forall>i < length xs. 0 < i \<and> i \<noteq> pos \<longrightarrow> cmp (xs ! HEAP_PARENT_POS i) (xs ! i) \<le> 0) \<and>
     (\<forall>i < length xs. 0 < i \<and> HEAP_PARENT_POS i = pos \<and> 0 < pos \<longrightarrow>
        cmp (xs ! HEAP_PARENT_POS pos) (xs ! i) \<le> 0)"

definition down_ok :: "('a \<Rightarrow> 'a \<Rightarrow> int) \<Rightarrow> nat \<Rightarrow> nat \<Rightarrow> 'a list \<Rightarrow> bool" where
  "down_ok cmp k pos xs \<longleftrightarrow>
     (\<forall>i < length xs. 0 < i \<and> k \<le> HEAP_PARENT_POS i \<and> HEAP_PARENT_POS i \<noteq> pos \<longrightarrow>
        cmp (xs ! HEAP_PARENT_POS i) (xs ! i) \<le> 0) \<and>
     (\<forall>i < length xs. 0 < i \<and> HEAP_PARENT_POS i = pos \<and> 0 < pos \<and> k \<le> HEAP_PARENT_POS pos \<longrightarrow>
        cmp (xs ! HEAP_PARENT_POS pos) (xs ! i) \<le> 0)"

definition hip_ok :: "('a \<Rightarrow> 'a \<Rightarrow> int) \<Rightarrow> nat \<Rightarrow> 'a list \<Rightarrow> bool" where
  "hip_ok cmp pos xs \<longleftrightarrow>
     (\<forall>i < length xs. 0 < i \<and> i \<noteq> pos \<and> HEAP_PARENT_POS i \<noteq> pos \<longrightarrow>
        cmp (xs ! HEAP_PARENT_POS i) (xs ! i) \<le> 0) \<and>
     (\<forall>i < length xs. 0 < i \<and> HEAP_PARENT_POS i = pos \<and> 0 < pos \<longrightarrow>
        cmp (xs ! HEAP_PARENT_POS pos) (xs ! i) \<le> 0)"

lemma parent_less: "0 < i \<Longrightarrow> HEAP_PARENT_POS i < i"
  by (simp add: HEAP_PARENT_POS_def)

lemma parent_child [simp]:
  "HEAP_PARENT_POS (HEAP_LEFT_POS pos) = pos"
  "HEAP_PARENT_POS (HEAP_RIGHT_POS pos) = pos"
  by (simp_all add: HEAP_PARENT_POS_def HEAP_LEFT_POS_def HEAP_RIGHT_POS_def)

lemma parent_cases:
  "0 < i \<Longrightarrow> HEAP_PARENT_POS i = pos \<Longrightarrow> i = HEAP_LEFT_POS pos \<or> i = HEAP_RIGHT_POS pos"
  unfolding HEAP_PARENT_POS_def HEAP_LEFT_POS_def HEAP_RIGHT_POS_def by presburger

lemma child_pos [simp]: "0 < HEAP_LEFT_POS pos" "0 < HEAP_RIGHT_POS pos"
  "pos < HEAP_LEFT_POS pos" "HEAP_LEFT_POS pos < HEAP_RIGHT_POS pos"
  by (simp_all add: HEAP_LEFT_POS_def HEAP_RIGHT_POS_def)

context comparator
begin

lemma up_swap:
  assumes up: "up_ok cmp pos xs" and pos: "0 < pos" "pos < length xs"
    and lt: "cmp (xs ! pos) (xs ! HEAP_PARENT_POS pos) < 0"
  shows "up_ok cmp (HEAP_PARENT_POS pos) (list_swap xs pos (HEAP_PARENT_POS pos))"
proof -
  let ?q = "HEAP_PARENT_POS pos" and ?ys = "list_swap xs pos (HEAP_PARENT_POS pos)"
  have q: "?q < pos" "?q < length xs" using parent_less [OF pos(1)] pos(2) by simp_all
  have nth: "?ys ! i = (if i = pos then xs ! ?q else if i = ?q then xs ! pos else xs ! i)"
    if "i < length xs" for i using that pos q by (simp add: list_swap_nth)
  have up1: "cmp (xs ! HEAP_PARENT_POS i) (xs ! i) \<le> 0" if "i < length xs" "0 < i" "i \<noteq> pos" for i
    using up that by (simp add: up_ok_def)
  have up2: "cmp (xs ! ?q) (xs ! i) \<le> 0" if "i < length xs" "0 < i" "HEAP_PARENT_POS i = pos" for i
    using up that pos by (simp add: up_ok_def)
  have le: "cmp (xs ! pos) (xs ! ?q) \<le> 0" using lt by simp
  have "cmp (?ys ! HEAP_PARENT_POS i) (?ys ! i) \<le> 0" if i: "i < length xs" "0 < i" "i \<noteq> ?q" for i
  proof -
    have p: "HEAP_PARENT_POS i < i" "HEAP_PARENT_POS i < length xs"
      using parent_less [OF i(2)] i(1) by simp_all
    consider "i = pos" | "i \<noteq> pos" "HEAP_PARENT_POS i = pos" | "i \<noteq> pos" "HEAP_PARENT_POS i = ?q"
      | "i \<noteq> pos" "HEAP_PARENT_POS i \<noteq> pos" "HEAP_PARENT_POS i \<noteq> ?q" by blast
    then show ?thesis
    proof cases
      case 1
      then show ?thesis using le q pos by (simp add: nth)
    next
      case 2
      then show ?thesis using up2 [OF i(1,2)] i pos by (simp add: nth)
    next
      case 3
      then have "cmp (xs ! ?q) (xs ! i) \<le> 0" using up1 [OF i(1,2)] by simp
      then show ?thesis using 3 cmp_trans [OF le] i q by (simp add: nth)
    next
      case 4
      then show ?thesis using up1 [OF i(1,2)] i p by (simp add: nth)
    qed
  qed
  moreover have "cmp (?ys ! HEAP_PARENT_POS ?q) (?ys ! i) \<le> 0"
    if i: "i < length xs" "0 < i" "HEAP_PARENT_POS i = ?q" "0 < ?q" for i
  proof -
    have p: "HEAP_PARENT_POS ?q < ?q" by (rule parent_less [OF i(4)])
    have top: "cmp (xs ! HEAP_PARENT_POS ?q) (xs ! ?q) \<le> 0"
      using up1 [of ?q] q i(4) by simp
    show ?thesis
    proof (cases "i = pos")
      case True
      then show ?thesis using top p q pos by (simp add: nth)
    next
      case False
      then have "cmp (xs ! ?q) (xs ! i) \<le> 0" using up1 [OF i(1,2)] i(3) by simp
      then show ?thesis using cmp_trans [OF top] p q False i parent_less [OF i(2)] by (simp add: nth)
    qed
  qed
  ultimately show ?thesis by (simp add: up_ok_def)
qed

lemma up_stop:
  assumes "up_ok cmp pos xs" and "pos = 0 \<or> \<not> cmp (xs ! pos) (xs ! HEAP_PARENT_POS pos) < 0"
  shows "is_heap cmp xs"
  using assms cmp_not_less by (auto simp: up_ok_def heap_from_def)

lemma hip_up:
  assumes hip: "hip_ok cmp pos xs" and pos: "0 < pos" "pos < length xs"
    and lt: "cmp (xs ! pos) (xs ! HEAP_PARENT_POS pos) < 0"
  shows "up_ok cmp pos xs"
  unfolding up_ok_def
proof (intro conjI allI impI)
  fix i
  assume i: "i < length xs" "0 < i \<and> i \<noteq> pos"
  show "cmp (xs ! HEAP_PARENT_POS i) (xs ! i) \<le> 0"
  proof (cases "HEAP_PARENT_POS i = pos")
    case True
    then have "cmp (xs ! HEAP_PARENT_POS pos) (xs ! i) \<le> 0"
      using hip i pos by (simp add: hip_ok_def)
    then show ?thesis using lt cmp_trans [of "xs ! pos" "xs ! HEAP_PARENT_POS pos"] True by simp
  next
    case False
    then show ?thesis using hip i by (simp add: hip_ok_def)
  qed
next
  fix i
  assume "i < length xs" "0 < i \<and> HEAP_PARENT_POS i = pos \<and> 0 < pos"
  then show "cmp (xs ! HEAP_PARENT_POS pos) (xs ! i) \<le> 0"
    using hip by (simp add: hip_ok_def)
qed

lemma hip_down:
  assumes "hip_ok cmp pos xs" and "pos = 0 \<or> \<not> cmp (xs ! pos) (xs ! HEAP_PARENT_POS pos) < 0"
  shows "down_ok cmp 0 pos xs"
  using assms cmp_not_less by (auto simp: hip_ok_def down_ok_def)

lemma down_swap:
  assumes down: "down_ok cmp k pos xs" and k: "k \<le> pos"
    and d: "0 < d" "d < length xs" "HEAP_PARENT_POS d = pos"
    and lt: "cmp (xs ! d) (xs ! pos) < 0"
    and least: "\<And>i. i < length xs \<Longrightarrow> 0 < i \<Longrightarrow> HEAP_PARENT_POS i = pos \<Longrightarrow> cmp (xs ! d) (xs ! i) \<le> 0"
  shows "down_ok cmp k d (list_swap xs d pos)"
proof -
  let ?ys = "list_swap xs d pos"
  have pos: "pos < d" "pos < length xs" using parent_less [OF d(1)] d by simp_all
  have nth: "?ys ! i = (if i = d then xs ! pos else if i = pos then xs ! d else xs ! i)"
    if "i < length xs" for i using that pos d by (simp add: list_swap_nth)
  have down1: "cmp (xs ! HEAP_PARENT_POS i) (xs ! i) \<le> 0"
    if "i < length xs" "0 < i" "k \<le> HEAP_PARENT_POS i" "HEAP_PARENT_POS i \<noteq> pos" for i
    using down that by (simp add: down_ok_def)
  have down2: "cmp (xs ! HEAP_PARENT_POS pos) (xs ! i) \<le> 0"
    if "i < length xs" "0 < i" "HEAP_PARENT_POS i = pos" "0 < pos" "k \<le> HEAP_PARENT_POS pos" for i
    using down that by (simp add: down_ok_def)
  have "cmp (?ys ! HEAP_PARENT_POS i) (?ys ! i) \<le> 0"
    if i: "i < length xs" "0 < i" "k \<le> HEAP_PARENT_POS i" "HEAP_PARENT_POS i \<noteq> d" for i
  proof -
    have p: "HEAP_PARENT_POS i < i" "HEAP_PARENT_POS i < length xs"
      using parent_less [OF i(2)] i(1) by simp_all
    consider "i = d" | "i \<noteq> d" "HEAP_PARENT_POS i = pos" | "i = pos"
      | "i \<noteq> d" "HEAP_PARENT_POS i \<noteq> pos" "i \<noteq> pos" by blast
    then show ?thesis
    proof cases
      case 1
      then show ?thesis using lt d pos by (simp add: nth)
    next
      case 2
      then show ?thesis using least [OF i(1,2)] i pos p by (simp add: nth)
    next
      case 3
      then show ?thesis using down2 [OF d(2,1,3)] i p pos by (simp add: nth)
    next
      case 4
      then show ?thesis using down1 [OF i(1,2,3)] i p by (simp add: nth)
    qed
  qed
  moreover have "cmp (?ys ! HEAP_PARENT_POS d) (?ys ! i) \<le> 0"
    if i: "i < length xs" "0 < i" "HEAP_PARENT_POS i = d" for i
  proof -
    have "d < i" using parent_less [OF i(2)] i(3) by simp
    moreover have "cmp (xs ! d) (xs ! i) \<le> 0" using down1 [OF i(1,2)] i(3) pos(1) k by simp
    ultimately show ?thesis using i pos d by (simp add: nth)
  qed
  ultimately show ?thesis by (simp add: down_ok_def)
qed

lemma down_stop:
  assumes "down_ok cmp k pos xs"
    and "\<And>i. i < length xs \<Longrightarrow> 0 < i \<Longrightarrow> HEAP_PARENT_POS i = pos \<Longrightarrow> cmp (xs ! pos) (xs ! i) \<le> 0"
  shows "heap_from cmp k xs"
  using assms by (auto simp: down_ok_def heap_from_def)

text \<open>The first item of a heap is a least one.\<close>

lemma is_heap_min:
  assumes "is_heap cmp xs" and "i < length xs"
  shows "cmp (xs ! 0) (xs ! i) \<le> 0"
  using assms(2)
proof (induction i rule: less_induct)
  case (less i)
  show ?case
  proof (cases "i = 0")
    case True
    then show ?thesis by (simp add: cmp_refl)
  next
    case False
    then have "HEAP_PARENT_POS i < i" by (simp add: parent_less)
    then have "cmp (xs ! 0) (xs ! HEAP_PARENT_POS i) \<le> 0"
      using less by simp
    moreover have "cmp (xs ! HEAP_PARENT_POS i) (xs ! i) \<le> 0"
      using assms(1) False less.prems by (simp add: heap_from_def)
    ultimately show ?thesis by (rule cmp_trans)
  qed
qed

end

subsection \<open>The sifting loops\<close>

context comparator
begin

lemma heap_up_loop_ok:
  assumes "heap_wf h" "heap_info_ok h" "heap_cmp h = cmp" "pos < heap_len h"
  shows "\<exists>h' n'. heap_up_loop h pos n = Some (h', n') \<and> heap_perm h h' \<and> n \<le> n' \<and>
     (n' = n \<longrightarrow> h' = h) \<and>
     (n' = n \<longleftrightarrow> pos = 0 \<or> \<not> cmp (heap_items h ! pos) (heap_items h ! HEAP_PARENT_POS pos) < 0) \<and>
     (up_ok cmp pos (heap_items h) \<longrightarrow> is_heap cmp (heap_items h'))"
  using assms
proof (induction pos arbitrary: h n rule: less_induct)
  case (less pos)
  note ok = less.prems
  let ?q = "HEAP_PARENT_POS pos"
  show ?case
  proof (cases "pos = 0 \<or> \<not> cmp (heap_items h ! pos) (heap_items h ! ?q) < 0")
    case True
    have "heap_up_loop h pos n = Some (h, n)"
      using True ok parent_less [of pos]
      by (subst heap_up_loop.simps) (cases "pos = 0"; simp add: Let_def)
    moreover have "is_heap cmp (heap_items h)" if "up_ok cmp pos (heap_items h)"
      using up_stop [OF that True] .
    ultimately show ?thesis using True ok heap_perm_refl by blast
  next
    case False
    then have pos: "0 < pos" and lt: "cmp (heap_items h ! pos) (heap_items h ! ?q) < 0" by auto
    have q: "?q < pos" "?q < heap_len h" using parent_less [OF pos] ok(4) by simp_all
    obtain h1 h2 where sw: "heap_move h ?q (heap_items h ! pos) = Some h1"
      "heap_move h1 pos (heap_items h ! ?q) = Some h2" "heap_perm h h2"
      "heap_items h2 = list_swap (heap_items h) ?q pos"
      by (rule heap_swap [OF ok(1,2) q(2) ok(4)]) (use q(1) in auto)
    note sim = heap_perm_simps [OF sw(3)]
    have step: "heap_up_loop h pos n = heap_up_loop h2 ?q (n + 1)"
      using pos lt ok q sw(1,2) by (subst heap_up_loop.simps) (simp add: Let_def)
    have items: "heap_items h2 = list_swap (heap_items h) pos ?q"
      using sw(4) q(1) by (simp add: list_swap_def list_update_swap)
    obtain h' n' where rec: "heap_up_loop h2 ?q (n + 1) = Some (h', n')" "heap_perm h2 h'"
      "n + 1 \<le> n'" "up_ok cmp ?q (heap_items h2) \<longrightarrow> is_heap cmp (heap_items h')"
      using less.IH [OF q(1), of h2 "n + 1"] sim ok q(2) by auto
    have "up_ok cmp ?q (heap_items h2)" if "up_ok cmp pos (heap_items h)"
      unfolding items using up_swap [OF that pos _ lt] ok by simp
    then show ?thesis
      using step rec heap_perm_trans [OF sw(3)] False by auto
  qed
qed

text \<open>The child that is compared is the least one.\<close>

lemma heap_down_pos_ok:
  assumes "heap_wf h" "heap_cmp h = cmp"
  obtains d where "heap_down_pos h pos = Some d" and "HEAP_PARENT_POS d = pos" and "pos < d"
    and "\<And>i. i < heap_len h \<Longrightarrow> 0 < i \<Longrightarrow> HEAP_PARENT_POS i = pos \<Longrightarrow>
           d < heap_len h \<and> cmp (heap_items h ! d) (heap_items h ! i) \<le> 0"
proof (cases "HEAP_RIGHT_POS pos < heap_len h")
  case True
  let ?l = "HEAP_LEFT_POS pos" and ?r = "HEAP_RIGHT_POS pos"
  have l: "?l < heap_len h" using True child_pos(4) [of pos] by linarith
  let ?d = "if cmp (heap_items h ! ?l) (heap_items h ! ?r) < 0 then ?l else ?r"
  show ?thesis
  proof (rule that [of ?d])
    show "heap_down_pos h pos = Some ?d"
      using True l assms by (simp add: heap_down_pos_def Let_def)
    show "HEAP_PARENT_POS ?d = pos" by simp
    show "pos < ?d" using child_pos(3,4) [of pos] by (simp del: child_pos)
    show "?d < heap_len h \<and> cmp (heap_items h ! ?d) (heap_items h ! i) \<le> 0"
      if "i < heap_len h" "0 < i" "HEAP_PARENT_POS i = pos" for i
      using parent_cases [OF that(2,3)] True l cmp_not_less cmp_refl by auto
  qed
next
  case False
  let ?l = "HEAP_LEFT_POS pos"
  show ?thesis
  proof (rule that [of ?l])
    show "heap_down_pos h pos = Some ?l" using False by (simp add: heap_down_pos_def Let_def)
    show "?l < heap_len h \<and> cmp (heap_items h ! ?l) (heap_items h ! i) \<le> 0"
      if "i < heap_len h" "0 < i" "HEAP_PARENT_POS i = pos" for i
      using parent_cases [OF that(2,3)] False that(1) cmp_refl by auto
  qed simp_all
qed

lemma heap_down_loop_ok:
  assumes "heap_wf h" "heap_info_ok h" "heap_cmp h = cmp" "pos < heap_len h"
  shows "\<exists>h' n'. heap_down_loop h pos n = Some (h', n') \<and> heap_perm h h' \<and>
     (k \<le> pos \<longrightarrow> down_ok cmp k pos (heap_items h) \<longrightarrow> heap_from cmp k (heap_items h'))"
  using assms
proof (induction "heap_len h - pos" arbitrary: h pos n rule: less_induct)
  case less
  note ok = less.prems
  obtain d where d: "heap_down_pos h pos = Some d" "HEAP_PARENT_POS d = pos" "pos < d"
    and least: "\<And>i. i < heap_len h \<Longrightarrow> 0 < i \<Longrightarrow> HEAP_PARENT_POS i = pos \<Longrightarrow>
           d < heap_len h \<and> cmp (heap_items h ! d) (heap_items h ! i) \<le> 0"
    using heap_down_pos_ok [OF ok(1,3)] by blast
  show ?case
  proof (cases "d < heap_len h \<and> cmp (heap_items h ! d) (heap_items h ! pos) < 0")
    case False
    have "heap_down_loop h pos n = Some (h, n)"
      using False d(1) ok by (subst heap_down_loop.simps) auto
    moreover have "heap_from cmp k (heap_items h)" if "down_ok cmp k pos (heap_items h)"
      using that
    proof (rule down_stop)
      fix i
      assume i: "i < length (heap_items h)" "0 < i" "HEAP_PARENT_POS i = pos"
      then have "d < heap_len h \<and> cmp (heap_items h ! d) (heap_items h ! i) \<le> 0"
        using least ok(1) by simp
      with False show "cmp (heap_items h ! pos) (heap_items h ! i) \<le> 0"
        using cmp_not_less cmp_trans by blast
    qed
    ultimately show ?thesis using ok heap_perm_refl by blast
  next
    case True
    obtain h1 h2 where sw: "heap_move h d (heap_items h ! pos) = Some h1"
      "heap_move h1 pos (heap_items h ! d) = Some h2" "heap_perm h h2"
      "heap_items h2 = list_swap (heap_items h) d pos"
      using heap_swap [OF ok(1,2) _ ok(4)] True d(3) by (metis less_irrefl)
    note sim = heap_perm_simps [OF sw(3)]
    have step: "heap_down_loop h pos n = heap_down_loop h2 d (n + 1)"
      using True d(1) ok sw(1,2) by (subst heap_down_loop.simps) simp
    have "heap_len h2 - d < heap_len h - pos" "d < heap_len h2"
      using True d(3) sim(3) by auto
    then obtain h' n' where rec: "heap_down_loop h2 d (n + 1) = Some (h', n')" "heap_perm h2 h'"
      "k \<le> d \<longrightarrow> down_ok cmp k d (heap_items h2) \<longrightarrow> heap_from cmp k (heap_items h')"
      using less.hyps [of h2 d "n + 1"] sim ok by auto
    have "down_ok cmp k d (heap_items h2)" if "k \<le> pos" "down_ok cmp k pos (heap_items h)"
      unfolding sw(4) by (rule down_swap [OF that(2,1)]) (use d True ok least in auto)
    with rec(3) d(3) have "k \<le> pos \<longrightarrow> down_ok cmp k pos (heap_items h) \<longrightarrow>
        heap_from cmp k (heap_items h')" by simp
    then show ?thesis using step rec heap_perm_trans [OF sw(3)] by auto
  qed
qed

lemma heap_hipify_pos_ok:
  assumes ok: "heap_wf h" "heap_info_ok h" "heap_cmp h = cmp" "pos < heap_len h"
  shows "\<exists>h' n. heap_hipify_pos h pos = Some (h', n) \<and> heap_perm h h' \<and>
     (hip_ok cmp pos (heap_items h) \<longrightarrow> is_heap cmp (heap_items h'))"
proof -
  let ?stop = "pos = 0 \<or> \<not> cmp (heap_items h ! pos) (heap_items h ! HEAP_PARENT_POS pos) < 0"
  obtain h1 n where up: "heap_up h pos = Some (h1, n)" "heap_perm h h1" "n = 0 \<longrightarrow> h1 = h"
    "n = 0 \<longleftrightarrow> ?stop" "up_ok cmp pos (heap_items h) \<longrightarrow> is_heap cmp (heap_items h1)"
    using heap_up_loop_ok [OF ok, of 0] unfolding heap_up_def by blast
  show ?thesis
  proof (cases "n = 0")
    case True
    then have stop: ?stop and "h1 = h" using up by simp_all
    obtain h' m where down: "heap_down h pos = Some (h', m)" "heap_perm h h'"
      "down_ok cmp 0 pos (heap_items h) \<longrightarrow> is_heap cmp (heap_items h')"
      using heap_down_loop_ok [OF ok, of 0 0] unfolding heap_down_def by blast
    have "down_ok cmp 0 pos (heap_items h)" if "hip_ok cmp pos (heap_items h)"
      using hip_down [OF that stop] .
    then show ?thesis
      using True up(1) down \<open>h1 = h\<close> by (simp add: heap_hipify_pos_def)
  next
    case False
    have "up_ok cmp pos (heap_items h)" if "hip_ok cmp pos (heap_items h)"
      using hip_up [OF that] False up(4) ok by auto
    then show ?thesis
      using False up(1,2,5) by (simp add: heap_hipify_pos_def)
  qed
qed

end

subsection \<open>The invariant and the array's size\<close>

definition heap_inv :: "'a heap \<Rightarrow> bool" where
  "heap_inv h \<longleftrightarrow> heap_ok h \<and> is_heap (heap_cmp h) (heap_items h)"

text \<open>The array is a whole number of blocks, and at most one block of it is unused.\<close>

definition heap_cap_ok :: "'a heap \<Rightarrow> bool" where
  "heap_cap_ok h \<longleftrightarrow> heap_cap h mod HEAP_BLOCK_SIZE = 0 \<and> heap_cap h > 0 \<and>
     heap_cap h \<le> heap_len h + HEAP_BLOCK_SIZE"

lemma block_up:
  "n < n + HEAP_BLOCK_SIZE - n mod HEAP_BLOCK_SIZE"
  "n + HEAP_BLOCK_SIZE - n mod HEAP_BLOCK_SIZE \<le> n + HEAP_BLOCK_SIZE"
  "(n + HEAP_BLOCK_SIZE - n mod HEAP_BLOCK_SIZE) mod HEAP_BLOCK_SIZE = 0"
proof -
  have lt: "n mod HEAP_BLOCK_SIZE < HEAP_BLOCK_SIZE" by (simp add: HEAP_BLOCK_SIZE_def)
  then show "n < n + HEAP_BLOCK_SIZE - n mod HEAP_BLOCK_SIZE" by linarith
  show "n + HEAP_BLOCK_SIZE - n mod HEAP_BLOCK_SIZE \<le> n + HEAP_BLOCK_SIZE" by simp
  have "n + HEAP_BLOCK_SIZE - n mod HEAP_BLOCK_SIZE = (n - n mod HEAP_BLOCK_SIZE) + HEAP_BLOCK_SIZE"
    using lt mod_less_eq_dividend [of n HEAP_BLOCK_SIZE] by linarith
  also have "\<dots> = n div HEAP_BLOCK_SIZE * HEAP_BLOCK_SIZE + HEAP_BLOCK_SIZE"
    by (simp add: minus_mod_eq_div_mult)
  finally show "(n + HEAP_BLOCK_SIZE - n mod HEAP_BLOCK_SIZE) mod HEAP_BLOCK_SIZE = 0" by simp
qed

lemma heap_resize_simps [simp]:
  "heap_len (heap_resize h sz) = heap_len h"
  "heap_cmp (heap_resize h sz) = heap_cmp h"
  "heap_get_info (heap_resize h sz) = heap_get_info h"
  "heap_infos (heap_resize h sz) = heap_infos h"
  "heap_cap (heap_resize h sz) = sz + HEAP_BLOCK_SIZE - sz mod HEAP_BLOCK_SIZE"
  by (simp_all add: heap_resize_def Let_def)

lemma heap_resize_arr:
  assumes "length (heap_arr h) = heap_cap h"
  shows "length (heap_arr (heap_resize h sz)) = heap_cap (heap_resize h sz)"
    and "i < heap_cap h \<Longrightarrow> i < heap_cap (heap_resize h sz) \<Longrightarrow>
         heap_arr (heap_resize h sz) ! i = heap_arr h ! i"
  using assms by (auto simp: heap_resize_def Let_def nth_append)

lemma heap_resize_ok:
  assumes "heap_wf h" and "heap_len h \<le> sz"
  shows "heap_wf (heap_resize h sz)" and "heap_items (heap_resize h sz) = heap_items h"
proof -
  have cap: "heap_len h < heap_cap (heap_resize h sz)"
    using block_up(1) [of sz] assms(2) by simp
  have wf: "length (heap_arr h) = heap_cap h" "heap_len h \<le> heap_cap h"
    using assms(1) by (simp_all add: heap_wf_def)
  have nth: "heap_arr (heap_resize h sz) ! i = heap_arr h ! i" if "i < heap_len h" for i
    using heap_resize_arr(2) [OF wf(1)] that cap wf(2) by simp
  then show "heap_wf (heap_resize h sz)"
    using assms(1) cap heap_resize_arr(1) [OF wf(1)] by (simp add: heap_wf_def)
  show "heap_items (heap_resize h sz) = heap_items h"
    unfolding heap_items_def
  proof (rule arg_cong [where f = "map the"], rule nth_equalityI)
    show "length (take (heap_len (heap_resize h sz)) (heap_arr (heap_resize h sz))) =
        length (take (heap_len h) (heap_arr h))"
      using cap wf heap_resize_arr(1) [OF wf(1)] by simp
  qed (use nth in simp)
qed

lemma heap_resize_info:
  assumes "heap_wf h" "heap_info_ok h" "heap_len h \<le> sz"
  shows "heap_info_ok (heap_resize h sz)"
  using assms by (auto simp: heap_info_ok_def heap_resize_ok(2) split: option.splits)

lemma heap_resize_cap_ok: "heap_len h \<le> sz \<Longrightarrow> sz \<le> heap_len h \<Longrightarrow> heap_cap_ok (heap_resize h sz)"
  using block_up [of sz] by (simp add: heap_cap_ok_def)

lemma heap_trim_ok:
  assumes "heap_ok h"
  shows "heap_ok (heap_trim h)" "heap_items (heap_trim h) = heap_items h"
    "heap_len (heap_trim h) = heap_len h" "heap_cmp (heap_trim h) = heap_cmp h"
    "heap_get_info (heap_trim h) = heap_get_info h" "heap_infos (heap_trim h) = heap_infos h"
  using assms by (simp_all add: heap_trim_def heap_resize_ok heap_resize_info)

lemma heap_trim_cap:
  assumes "heap_cap h mod HEAP_BLOCK_SIZE = 0" "heap_cap h > 0"
  shows "heap_cap_ok (heap_trim h)"
proof (cases "heap_cap h - heap_len h > HEAP_BLOCK_SIZE")
  case True
  then show ?thesis by (simp add: heap_trim_def heap_resize_cap_ok)
next
  case False
  then show ?thesis using assms by (simp add: heap_trim_def heap_cap_ok_def)
qed

subsection \<open>Taking an item out\<close>

lemma heap_rd_len [simp]: "heap_rd (h\<lparr>heap_len := n\<rparr>) i = heap_rd h i"
  by (simp add: heap_rd_def)

lemma heap_items_shrink:
  assumes "heap_wf h" "0 < heap_len h"
  shows "heap_wf (h\<lparr>heap_len := heap_len h - 1\<rparr>)"
    and "heap_items (h\<lparr>heap_len := heap_len h - 1\<rparr>) = butlast (heap_items h)"
proof -
  show "heap_wf (h\<lparr>heap_len := heap_len h - 1\<rparr>)" using assms by (auto simp: heap_wf_def)
  show "heap_items (h\<lparr>heap_len := heap_len h - 1\<rparr>) = butlast (heap_items h)"
    using assms by (simp add: heap_items_def heap_wf_def butlast_take flip: map_butlast)
qed

lemma heap_info_shrink:
  assumes "heap_wf h" "heap_info_ok h" "0 < heap_len h"
  shows "heap_info_ok (h\<lparr>heap_len := heap_len h - 1\<rparr>)"
  using assms heap_items_shrink [OF assms(1,3)]
  by (auto simp: heap_info_ok_def nth_butlast split: option.splits)

lemma mset_butlast_last: "xs \<noteq> [] \<Longrightarrow> add_mset (last xs) (mset (butlast xs)) = mset xs"
proof -
  assume "xs \<noteq> []"
  then have "mset xs = mset (butlast xs @ [last xs])" by simp
  then show ?thesis by simp
qed

lemma is_heap_butlast: "is_heap cmp xs \<Longrightarrow> is_heap cmp (butlast xs)"
  unfolding heap_from_def
proof (intro allI impI)
  fix i
  assume heap: "\<forall>i < length xs. 0 < i \<and> 0 \<le> HEAP_PARENT_POS i \<longrightarrow>
      cmp (xs ! HEAP_PARENT_POS i) (xs ! i) \<le> 0"
    and i: "i < length (butlast xs)" "0 < i \<and> 0 \<le> HEAP_PARENT_POS i"
  have "HEAP_PARENT_POS i < length (butlast xs)" using parent_less [of i] i by simp
  then show "cmp (butlast xs ! HEAP_PARENT_POS i) (butlast xs ! i) \<le> 0"
    using heap i by (simp add: nth_butlast)
qed

lemma is_heap_snoc: "is_heap cmp xs \<Longrightarrow> up_ok cmp (length xs) (xs @ [x])"
  unfolding up_ok_def
proof (intro conjI allI impI)
  fix i
  assume heap: "is_heap cmp xs" and i: "i < length (xs @ [x])" "0 < i \<and> i \<noteq> length xs"
  then have "i < length xs" "HEAP_PARENT_POS i < length xs"
    using parent_less [of i] by simp_all
  then show "cmp ((xs @ [x]) ! HEAP_PARENT_POS i) ((xs @ [x]) ! i) \<le> 0"
    using heap i by (simp add: nth_append heap_from_def)
next
  fix i
  assume "i < length (xs @ [x])" "0 < i \<and> HEAP_PARENT_POS i = length xs \<and> 0 < length xs"
  then show "cmp ((xs @ [x]) ! HEAP_PARENT_POS (length xs)) ((xs @ [x]) ! i) \<le> 0"
    using parent_less [of i] by simp
qed

text \<open>The last item moves to the freed position.\<close>

lemma heap_fill_hole:
  assumes ok: "heap_wf h" "heap_info_ok h" and pos: "pos < heap_len h - 1"
  obtains last h2 where "heap_rd h (heap_len h - 1) = Some last"
    and "heap_move (h\<lparr>heap_len := heap_len h - 1\<rparr>) pos last = Some h2"
    and "heap_wf h2" and "heap_info_ok h2" and "heap_len h2 = heap_len h - 1"
    and "heap_items h2 = (butlast (heap_items h))[pos := last]"
    and "heap_cmp h2 = heap_cmp h" and "heap_cap h2 = heap_cap h"
    and "heap_get_info h2 = heap_get_info h"
    and "add_mset (heap_items h ! pos) (mset (heap_items h2)) = mset (heap_items h)"
    and "is_heap cmp (heap_items h) \<and> comparator cmp \<longrightarrow> hip_ok cmp pos (heap_items h2)"
    and "\<forall>a. (\<forall>f. heap_get_info h = Some f \<longrightarrow> a \<notin> f ` set (heap_items h)) \<longrightarrow>
           heap_infos h2 a = heap_infos h a"
proof
  let ?xs = "heap_items h" and ?n = "heap_len h"
  let ?last = "?xs ! (?n - 1)"
  let ?h1 = "h\<lparr>heap_len := ?n - 1\<rparr>"
  let ?h2 = "heap_put ?h1 pos ?last"
  have n: "0 < ?n" "length ?xs = ?n" using pos ok(1) by simp_all
  have "heap_has_info h ?last" using heap_has_info_item [OF ok(2)] n by simp
  then have has: "heap_has_info ?h1 ?last"
    by (auto simp: heap_has_info_def split: option.splits)
  show "heap_rd h (?n - 1) = Some ?last" using ok(1) n by simp
  show "heap_move ?h1 pos ?last = Some ?h2"
    using ok(1) pos has by (intro heap_move_put) (auto simp: heap_wf_def)
  show wf: "heap_wf ?h2" using heap_items_shrink(1) [OF ok(1) n(1)] by (rule heap_put_wf)
  show items: "heap_items ?h2 = (butlast ?xs)[pos := ?last]"
    unfolding heap_put_items heap_items_shrink(2) [OF ok(1) n(1)] by (rule refl)
  have nth: "heap_items ?h2 ! i = (if i = pos then ?last else ?xs ! i)" if "i < ?n - 1" for i
    using that pos n(2) unfolding items by (simp add: nth_butlast)
  show "heap_info_ok ?h2"
  proof (cases "heap_get_info h")
    case None
    then show ?thesis by (simp add: heap_info_ok_def)
  next
    case (Some f)
    have "heap_infos ?h2 (f (heap_items ?h2 ! i)) = Some i" if i: "i < ?n - 1" for i
    proof (cases "i = pos")
      case True
      then show ?thesis unfolding nth [OF i] using Some by (simp add: heap_put_infos)
    next
      case False
      then have "f (?xs ! i) \<noteq> f ?last"
        using heap_info_inj [OF ok(2) Some, of i "?n - 1"] i n(1) by auto
      then show ?thesis
        unfolding nth [OF i]
        using Some i False heap_info_okD [OF ok(2) Some, of i] by (simp add: heap_put_infos)
    qed
    with Some show ?thesis by (simp add: heap_info_ok_def)
  qed
  show "add_mset (?xs ! pos) (mset (heap_items ?h2)) = mset ?xs"
  proof -
    have "?xs \<noteq> []" using n by auto
    then have "mset ?xs = add_mset ?last (mset (butlast ?xs))"
      using mset_butlast_last [of ?xs] n(2) by (simp add: last_conv_nth)
    moreover have "?xs ! pos = butlast ?xs ! pos" "pos < length (butlast ?xs)"
      using pos n(2) by (simp_all add: nth_butlast)
    ultimately show ?thesis unfolding items by (simp add: mset_update)
  qed
  show "is_heap cmp ?xs \<and> comparator cmp \<longrightarrow> hip_ok cmp pos (heap_items ?h2)"
  proof
    assume cmp: "is_heap cmp ?xs \<and> comparator cmp"
    have heap: "cmp (?xs ! HEAP_PARENT_POS i) (?xs ! i) \<le> 0" if "i < ?n" "0 < i" for i
      using cmp that n(2) by (simp add: heap_from_def)
    have len: "length (heap_items ?h2) = ?n - 1" using wf by simp
    have lt: "HEAP_PARENT_POS i < ?n - 1" if "0 < i" "i < ?n - 1" for i
      using parent_less [OF that(1)] that(2) by simp
    show "hip_ok cmp pos (heap_items ?h2)"
      unfolding hip_ok_def len
    proof (intro conjI allI impI)
      fix i
      assume i: "i < ?n - 1" "0 < i \<and> i \<noteq> pos \<and> HEAP_PARENT_POS i \<noteq> pos"
      then have "HEAP_PARENT_POS i < ?n - 1" using lt by blast
      then show "cmp (heap_items ?h2 ! HEAP_PARENT_POS i) (heap_items ?h2 ! i) \<le> 0"
        unfolding nth [OF i(1)] nth [OF \<open>HEAP_PARENT_POS i < ?n - 1\<close>]
        using heap [of i] i by simp
    next
      fix i
      assume i: "i < ?n - 1" "0 < i \<and> HEAP_PARENT_POS i = pos \<and> 0 < pos"
      then have "pos < i" using parent_less [of i] by simp
      have "HEAP_PARENT_POS pos < ?n - 1" using lt [of pos] i pos by simp
      have "cmp (?xs ! HEAP_PARENT_POS pos) (?xs ! pos) \<le> 0" "cmp (?xs ! pos) (?xs ! i) \<le> 0"
        using heap [of pos] heap [of i] i pos by auto
      then have "cmp (?xs ! HEAP_PARENT_POS pos) (?xs ! i) \<le> 0"
        by (rule comparator.cmp_trans [OF conjunct2 [OF cmp]])
      then show "cmp (heap_items ?h2 ! HEAP_PARENT_POS pos) (heap_items ?h2 ! i) \<le> 0"
        unfolding nth [OF i(1)] nth [OF \<open>HEAP_PARENT_POS pos < ?n - 1\<close>]
        using i \<open>pos < i\<close> parent_less [of pos] by simp
    qed
  qed
  show "\<forall>a. (\<forall>f. heap_get_info h = Some f \<longrightarrow> a \<notin> f ` set ?xs) \<longrightarrow>
      heap_infos ?h2 a = heap_infos h a"
  proof (cases "heap_get_info h")
    case None
    then show ?thesis by (simp add: heap_put_infos)
  next
    case (Some f)
    have "?last \<in> set ?xs" using n by (simp add: nth_mem)
    then show ?thesis using Some by (auto simp: heap_put_infos)
  qed
qed simp_all

subsection \<open>The operations\<close>

text \<open>What every operation leaves alone.\<close>

definition heap_same :: "'a heap \<Rightarrow> 'a heap \<Rightarrow> bool" where
  "heap_same h h' \<longleftrightarrow> heap_cmp h' = heap_cmp h \<and> heap_get_info h' = heap_get_info h"

text \<open>The records outside \<open>X\<close> are the same.\<close>

definition infos_frame :: "'a set \<Rightarrow> 'a heap \<Rightarrow> 'a heap \<Rightarrow> bool" where
  "infos_frame X h h' \<longleftrightarrow>
     (\<forall>a. (\<forall>f. heap_get_info h = Some f \<longrightarrow> a \<notin> f ` X) \<longrightarrow> heap_infos h' a = heap_infos h a)"

lemma infos_frame_trans:
  "infos_frame X h1 h2 \<Longrightarrow> infos_frame Y h2 h3 \<Longrightarrow> X \<subseteq> Z \<Longrightarrow> Y \<subseteq> Z \<Longrightarrow> heap_same h1 h2 \<Longrightarrow>
   infos_frame Z h1 h3"
  unfolding infos_frame_def heap_same_def by (metis image_mono subset_iff)

lemma heap_perm_same: "heap_perm h h' \<Longrightarrow> heap_same h h'"
  by (simp add: heap_perm_def heap_same_def)

lemma heap_perm_frame: "heap_perm h h' \<Longrightarrow> infos_frame (set (heap_items h)) h h'"
  by (simp add: heap_perm_def infos_frame_def)

text \<open>A new item: its record exists and is not the record of an item of the heap.\<close>

definition heap_fresh :: "'a heap \<Rightarrow> 'a \<Rightarrow> bool" where
  "heap_fresh h item \<longleftrightarrow> heap_has_info h item \<and>
     (\<forall>f. heap_get_info h = Some f \<longrightarrow> f item \<notin> f ` set (heap_items h))"

lemma heap_create_inv:
  "heap_inv (heap_create cmp)" "heap_cap_ok (heap_create cmp)"
  "heap_items (heap_create cmp) = []"
  by (simp_all add: heap_inv_def heap_create_def heap_wf_def heap_info_ok_def heap_items_def
      heap_from_def heap_cap_ok_def HEAP_BLOCK_SIZE_def)

lemma heap_size_items: "heap_wf h \<Longrightarrow> heap_size h = length (heap_items h)"
  by (simp add: heap_size_def)

lemma heap_put_end:
  assumes ok: "heap_wf h" "heap_info_ok h" and room: "heap_len h < heap_cap h"
    and fresh: "heap_fresh h item"
  defines "h1 \<equiv> heap_put (h\<lparr>heap_len := heap_len h + 1\<rparr>) (heap_len h) item"
  shows "heap_move (h\<lparr>heap_len := heap_len h + 1\<rparr>) (heap_len h) item = Some h1"
    and "heap_wf h1" and "heap_info_ok h1" and "heap_items h1 = heap_items h @ [item]"
    and "infos_frame (insert item (set (heap_items h))) h h1"
proof -
  have len: "length (heap_arr h) = heap_cap h" using ok(1) by (simp add: heap_wf_def)
  have has: "heap_has_info (h\<lparr>heap_len := heap_len h + 1\<rparr>) item"
    using fresh by (auto simp: heap_fresh_def heap_has_info_def split: option.splits)
  show "heap_move (h\<lparr>heap_len := heap_len h + 1\<rparr>) (heap_len h) item = Some h1"
    unfolding h1_def using room len has by (simp add: heap_move_put)
  show "heap_wf h1"
    unfolding h1_def using ok(1) room by (auto simp: heap_wf_def nth_list_update less_Suc_eq)
  show items: "heap_items h1 = heap_items h @ [item]"
    unfolding h1_def using room len
    by (simp add: heap_items_def take_Suc_conv_app_nth take_update_swap list_update_append)
  show "heap_info_ok h1"
  proof (cases "heap_get_info h")
    case None
    then show ?thesis by (simp add: heap_info_ok_def h1_def)
  next
    case (Some f)
    then have other: "f item \<noteq> f x" if "x \<in> set (heap_items h)" for x
      using fresh that by (auto simp: heap_fresh_def)
    have "heap_infos h1 (f (heap_items h1 ! i)) = Some i" if "i < Suc (heap_len h)" for i
    proof (cases "i = heap_len h")
      case True
      then show ?thesis
        using Some ok(1) unfolding items by (simp add: nth_append h1_def heap_put_infos)
    next
      case False
      with that have i: "i < heap_len h" by simp
      then have "heap_items h ! i \<in> set (heap_items h)" using ok(1) by simp
      from other [OF this] show ?thesis
        using Some i ok(1) heap_info_okD [OF ok(2) Some i] unfolding items
        by (simp add: nth_append h1_def heap_put_infos)
    qed
    then show ?thesis using Some by (simp add: heap_info_ok_def h1_def)
  qed
  show "infos_frame (insert item (set (heap_items h))) h h1"
    by (auto simp: infos_frame_def h1_def heap_put_infos split: option.splits)
qed

lemma heap_insert_ok:
  assumes inv: "heap_inv h" and cap: "heap_cap_ok h" and cmp: "comparator (heap_cmp h)"
    and fresh: "heap_fresh h item"
  shows "\<exists>h'. heap_insert h item = Some (Suc (heap_len h), h') \<and> heap_inv h' \<and> heap_cap_ok h' \<and>
     heap_same h h' \<and> mset (heap_items h') = add_mset item (mset (heap_items h)) \<and>
     infos_frame (insert item (set (heap_items h))) h h'"
proof -
  have ok: "heap_wf h" "heap_info_ok h" "is_heap (heap_cmp h) (heap_items h)"
    using inv by (simp_all add: heap_inv_def)
  define g where "g = (if heap_cap h < heap_len h + 1 then heap_resize h (heap_len h + 1) else h)"
  have g: "heap_wf g" "heap_info_ok g" "heap_items g = heap_items h" "heap_len g = heap_len h"
    "heap_same h g" "heap_infos g = heap_infos h"
    using ok heap_resize_ok [OF ok(1), of "heap_len h + 1"]
      heap_resize_info [OF ok(1,2), of "heap_len h + 1"] by (simp_all add: g_def heap_same_def)
  have g_cap: "heap_len h < heap_cap g" "heap_cap g mod HEAP_BLOCK_SIZE = 0"
      "heap_cap g \<le> heap_len h + 1 + HEAP_BLOCK_SIZE"
    using cap block_up [of "heap_len h + 1"] by (auto simp: g_def heap_cap_ok_def)
  have g_fresh: "heap_fresh g item"
    using fresh g by (auto simp: heap_fresh_def heap_has_info_def heap_same_def split: option.splits)
  have room: "heap_len g < heap_cap g" using g g_cap by simp
  define h1 where "h1 = heap_put (g\<lparr>heap_len := heap_len g + 1\<rparr>) (heap_len g) item"
  note e = heap_put_end [OF g(1,2) room g_fresh, folded h1_def]
  have len1: "heap_len h1 = Suc (heap_len h)" and same1: "heap_same h h1"
    and cap1: "heap_cap h1 = heap_cap g"
    using g by (simp_all add: h1_def heap_same_def)
  have up: "up_ok (heap_cmp h) (heap_len h) (heap_items h1)"
    using is_heap_snoc [OF ok(3)] ok(1) unfolding e(4) g(3) by simp
  obtain h2 n where u: "heap_up h1 (heap_len h) = Some (h2, n)" "heap_perm h1 h2"
    "is_heap (heap_cmp h) (heap_items h2)"
    using comparator.heap_up_loop_ok [OF cmp e(2,3), of "heap_len h" 0] same1 len1 up
    by (auto simp: heap_up_def heap_same_def)
  note p = heap_perm_simps [OF u(2)]
  have same2: "heap_same h h2" using same1 p by (simp add: heap_same_def)
  have set1: "set (heap_items h1) = insert item (set (heap_items h))"
    unfolding e(4) g(3) by simp
  have fr1: "infos_frame (insert item (set (heap_items h))) h h1"
    using e(5) g by (simp add: infos_frame_def heap_same_def)
  have "infos_frame (insert item (set (heap_items h))) h h2"
    using infos_frame_trans [OF fr1 heap_perm_frame [OF u(2)] _ _ same1] set1 by auto
  moreover have "heap_insert h item = Some (Suc (heap_len h), h2)"
    using e(1) u(1) len1 p(3) g(4) unfolding heap_insert_def g_def [symmetric] by (simp add: Let_def)
  moreover have "heap_inv h2" using p u(3) same2 by (simp add: heap_inv_def heap_same_def)
  moreover have "heap_cap_ok h2"
    using p(3,4) cap1 len1 g_cap by (auto simp: heap_cap_ok_def)
  moreover have "mset (heap_items h2) = add_mset item (mset (heap_items h))"
    using p(7) unfolding e(4) g(3) by simp
  ultimately show ?thesis using same2 by blast
qed

lemma heap_min_ok:
  assumes "heap_inv h" and "comparator (heap_cmp h)"
  shows "heap_min h = Some (if heap_items h = [] then None else Some (heap_items h ! 0))"
    and "x \<in> set (heap_items h) \<Longrightarrow> heap_cmp h (heap_items h ! 0) x \<le> 0"
proof -
  have "length (heap_items h) = heap_len h" using assms(1) by (simp add: heap_inv_def)
  then have "heap_items h = [] \<longleftrightarrow> heap_len h = 0" by (metis length_0_conv)
  then show "heap_min h = Some (if heap_items h = [] then None else Some (heap_items h ! 0))"
    using assms(1) by (simp add: heap_min_def heap_inv_def)
  show "heap_cmp h (heap_items h ! 0) x \<le> 0" if "x \<in> set (heap_items h)"
    using that assms comparator.is_heap_min [OF assms(2)]
    by (auto simp: heap_inv_def in_set_conv_nth)
qed

text \<open>The common part of \<open>heap_shift\<close> and \<open>heap_del_pos\<close>: what is left after the trim.\<close>

lemma heap_rest_ok:
  assumes "heap_ok g" "is_heap (heap_cmp g) (heap_items g)" "heap_cap g mod HEAP_BLOCK_SIZE = 0"
    and "0 < heap_cap g"
  shows "heap_inv (heap_trim g) \<and> heap_cap_ok (heap_trim g)"
  using assms heap_trim_ok [of g] heap_trim_cap by (simp add: heap_inv_def)

lemma single_item: "heap_wf h \<Longrightarrow> heap_len h = 1 \<Longrightarrow> heap_items h = [heap_items h ! 0]"
  using heap_items_length [of h] by (metis One_nat_def length_0_conv length_Suc_conv nth_Cons_0)

lemma heap_del_pos_ok:
  assumes inv: "heap_inv h" and cap: "heap_cap_ok h" and cmp: "comparator (heap_cmp h)"
    and pos: "pos < heap_len h"
  shows "\<exists>h'. heap_del_pos h pos = Some (Some (heap_items h ! pos), h') \<and> heap_inv h' \<and>
     heap_cap_ok h' \<and> heap_same h h' \<and>
     add_mset (heap_items h ! pos) (mset (heap_items h')) = mset (heap_items h) \<and>
     infos_frame (set (heap_items h)) h h'"
proof -
  have ok: "heap_wf h" "heap_info_ok h" "is_heap (heap_cmp h) (heap_items h)"
    using inv by (simp_all add: heap_inv_def)
  have cap0: "heap_cap h mod HEAP_BLOCK_SIZE = 0" "0 < heap_cap h"
    using cap by (simp_all add: heap_cap_ok_def)
  show ?thesis
  proof (cases "pos = heap_len h - 1")
    case True
    let ?g = "h\<lparr>heap_len := heap_len h - 1\<rparr>"
    have n: "0 < heap_len h" using pos by simp
    have g: "heap_ok ?g" "heap_items ?g = butlast (heap_items h)"
      using heap_items_shrink [OF ok(1) n] heap_info_shrink [OF ok(1,2) n] by blast+
    have len: "length (heap_items h) = heap_len h" using ok(1) by simp
    have "is_heap (heap_cmp h) (butlast (heap_items h))"
      using ok(3) by (rule is_heap_butlast)
    then have "heap_inv (heap_trim ?g) \<and> heap_cap_ok (heap_trim ?g)"
      by (intro heap_rest_ok g) (use cap0 g(2) in auto)
    moreover have "heap_del_pos h pos = Some (Some (heap_items h ! pos), heap_trim ?g)"
      using True pos ok(1) by (simp add: heap_del_pos_def)
    moreover have "add_mset (heap_items h ! pos) (mset (butlast (heap_items h))) = mset (heap_items h)"
    proof -
      have "heap_items h \<noteq> []" using n len by auto
      then show ?thesis using mset_butlast_last [of "heap_items h"] True len
        by (simp add: last_conv_nth)
    qed
    ultimately show ?thesis
      using g heap_trim_ok [OF g(1)] by (intro exI [of _ "heap_trim ?g"])
        (simp add: heap_same_def infos_frame_def)
  next
    case False
    then have lt: "pos < heap_len h - 1" using pos by simp
    obtain last h2 where h2: "heap_rd h (heap_len h - 1) = Some last"
      "heap_move (h\<lparr>heap_len := heap_len h - 1\<rparr>) pos last = Some h2"
      "heap_wf h2" "heap_info_ok h2" "heap_len h2 = heap_len h - 1"
      "heap_items h2 = (butlast (heap_items h))[pos := last]"
      "heap_cmp h2 = heap_cmp h" "heap_cap h2 = heap_cap h" "heap_get_info h2 = heap_get_info h"
      "add_mset (heap_items h ! pos) (mset (heap_items h2)) = mset (heap_items h)"
      "is_heap (heap_cmp h) (heap_items h) \<and> comparator (heap_cmp h) \<longrightarrow>
         hip_ok (heap_cmp h) pos (heap_items h2)"
      "\<forall>a. (\<forall>f. heap_get_info h = Some f \<longrightarrow> a \<notin> f ` set (heap_items h)) \<longrightarrow>
           heap_infos h2 a = heap_infos h a"
      by (rule heap_fill_hole [OF ok(1,2) lt, where cmp = "heap_cmp h"])
    obtain h3 n where h3: "heap_hipify_pos h2 pos = Some (h3, n)" "heap_perm h2 h3"
      "is_heap (heap_cmp h) (heap_items h3)"
      using comparator.heap_hipify_pos_ok [OF cmp h2(3,4,7), of pos] h2(5,11) lt ok(3) cmp by auto
    note p = heap_perm_simps [OF h3(2)]
    have h3_ok: "heap_ok h3" using p by simp
    have "heap_inv (heap_trim h3) \<and> heap_cap_ok (heap_trim h3)"
      by (intro heap_rest_ok h3_ok) (use p h2 h3 cap0 in auto)
    moreover have "heap_del_pos h pos = Some (Some (heap_items h ! pos), heap_trim h3)"
      using False pos ok(1) h2(1,2) h3(1) by (simp add: heap_del_pos_def Let_def)
    moreover have sub: "set (heap_items h2) \<subseteq> set (heap_items h)"
      using h2(10) by (metis set_mset_mset set_mset_add_mset_insert subset_insertI)
    moreover have "infos_frame (set (heap_items h)) h h3"
    proof (rule infos_frame_trans [OF _ heap_perm_frame [OF h3(2)] _ sub])
      show "infos_frame (set (heap_items h)) h h2" using h2(12) by (simp add: infos_frame_def)
    qed (use h2 in \<open>simp_all add: heap_same_def\<close>)
    ultimately show ?thesis
      using heap_trim_ok [OF h3_ok] p h2 by (intro exI [of _ "heap_trim h3"])
        (simp add: heap_same_def infos_frame_def)
  qed
qed

lemma heap_shift_ok:
  assumes inv: "heap_inv h" and cap: "heap_cap_ok h" and cmp: "comparator (heap_cmp h)"
    and pos: "0 < heap_len h"
  shows "\<exists>h'. heap_shift h = Some (Some (heap_items h ! 0), h') \<and> heap_inv h' \<and>
     heap_cap_ok h' \<and> heap_same h h' \<and>
     add_mset (heap_items h ! 0) (mset (heap_items h')) = mset (heap_items h) \<and>
     infos_frame (set (heap_items h)) h h'"
proof (cases "heap_len h = 1")
  case True
  have ok: "heap_wf h" "heap_info_ok h" using inv by (simp_all add: heap_inv_def)
  have cap0: "heap_cap h mod HEAP_BLOCK_SIZE = 0" "0 < heap_cap h"
    using cap by (simp_all add: heap_cap_ok_def)
  let ?x = "heap_items h ! 0"
  let ?g = "heap_put (h\<lparr>heap_len := 0\<rparr>) 0 ?x"
  have items: "heap_items h = [?x]" using single_item [OF ok(1) True] .
  have "heap_has_info h ?x" using heap_has_info_item [OF ok(2)] True by simp
  then have has: "heap_has_info (h\<lparr>heap_len := 0\<rparr>) ?x"
    by (auto simp: heap_has_info_def split: option.splits)
  have len: "0 < length (heap_arr h)" using ok(1) cap0 by (simp add: heap_wf_def)
  have g: "heap_ok ?g" "heap_items ?g = []"
    using ok(1) by (auto simp: heap_wf_def heap_info_ok_def heap_items_def split: option.splits)
  have down: "heap_down ?g 0 = Some (?g, 0)"
    by (simp add: heap_down_def heap_down_loop.simps heap_down_pos_def Let_def)
  have "heap_shift h = Some (Some ?x, heap_trim ?g)"
    using True ok(1) len has down by (simp add: heap_shift_def heap_move_put)
  moreover have "heap_inv (heap_trim ?g) \<and> heap_cap_ok (heap_trim ?g)"
    by (intro heap_rest_ok g) (use cap0 g(2) in \<open>auto simp: heap_from_def\<close>)
  moreover have "infos_frame (set (heap_items h)) h (heap_trim ?g)"
    using heap_trim_ok [OF g(1)]
    by (subst items) (auto simp: infos_frame_def heap_put_infos split: option.splits)
  moreover have "mset (heap_items h) = {#?x#}" by (subst items) simp
  ultimately show ?thesis
    using heap_trim_ok [OF g(1)] g(2) by (intro exI [of _ "heap_trim ?g"]) (simp add: heap_same_def)
next
  case False
  have ok: "heap_wf h" "heap_info_ok h" "is_heap (heap_cmp h) (heap_items h)"
    using inv by (simp_all add: heap_inv_def)
  have cap0: "heap_cap h mod HEAP_BLOCK_SIZE = 0" "0 < heap_cap h"
    using cap by (simp_all add: heap_cap_ok_def)
  have lt: "0 < heap_len h - 1" using False pos by simp
  obtain last h2 where h2: "heap_rd h (heap_len h - 1) = Some last"
    "heap_move (h\<lparr>heap_len := heap_len h - 1\<rparr>) 0 last = Some h2"
    "heap_wf h2" "heap_info_ok h2" "heap_len h2 = heap_len h - 1"
    "heap_items h2 = (butlast (heap_items h))[0 := last]"
    "heap_cmp h2 = heap_cmp h" "heap_cap h2 = heap_cap h" "heap_get_info h2 = heap_get_info h"
    "add_mset (heap_items h ! 0) (mset (heap_items h2)) = mset (heap_items h)"
    "is_heap (heap_cmp h) (heap_items h) \<and> comparator (heap_cmp h) \<longrightarrow>
       hip_ok (heap_cmp h) 0 (heap_items h2)"
    "\<forall>a. (\<forall>f. heap_get_info h = Some f \<longrightarrow> a \<notin> f ` set (heap_items h)) \<longrightarrow>
         heap_infos h2 a = heap_infos h a"
    by (rule heap_fill_hole [OF ok(1,2) lt, where cmp = "heap_cmp h"])
  have "down_ok (heap_cmp h) 0 0 (heap_items h2)"
    using comparator.hip_down [OF cmp] h2(11) ok(3) cmp by blast
  then obtain h3 n where h3: "heap_down h2 0 = Some (h3, n)" "heap_perm h2 h3"
    "is_heap (heap_cmp h) (heap_items h3)"
    using comparator.heap_down_loop_ok [OF cmp h2(3,4,7), of 0 0 0] h2(5) lt
    by (auto simp: heap_down_def)
  note p = heap_perm_simps [OF h3(2)]
  have h3_ok: "heap_ok h3" using p by simp
  have "heap_inv (heap_trim h3) \<and> heap_cap_ok (heap_trim h3)"
    by (intro heap_rest_ok h3_ok) (use p h2 h3 cap0 in auto)
  moreover have "heap_shift h = Some (Some (heap_items h ! 0), heap_trim h3)"
    using pos ok(1) h2(1,2) h3(1) by (simp add: heap_shift_def Let_def)
  moreover have sub: "set (heap_items h2) \<subseteq> set (heap_items h)"
    using h2(10) by (metis set_mset_mset set_mset_add_mset_insert subset_insertI)
  moreover have "infos_frame (set (heap_items h)) h h3"
  proof (rule infos_frame_trans [OF _ heap_perm_frame [OF h3(2)] _ sub])
    show "infos_frame (set (heap_items h)) h h2" using h2(12) by (simp add: infos_frame_def)
  qed (use h2 in \<open>simp_all add: heap_same_def\<close>)
  ultimately show ?thesis
    using heap_trim_ok [OF h3_ok] p h2 by (intro exI [of _ "heap_trim h3"])
      (simp add: heap_same_def infos_frame_def)
qed

end
