(* ===== verification/BinHeapOps.thy ===== *)
theory BinHeapOps
  imports BinHeapCorrect
begin

section \<open>The heap as a priority queue\<close>

text \<open>
  The remaining operations (build, search, removal and repair through the position records, the
  checker), the priority-queue contract that the timer relies on as the locale \<open>prio_queue\<close>,
  and its instance for every comparison function. The properties of the component are at the end.
\<close>

subsection \<open>Building\<close>

context comparator
begin

lemma heap_from_step: "heap_from cmp (Suc i) xs \<Longrightarrow> down_ok cmp i i xs"
  using parent_less [of i] by (force simp: heap_from_def down_ok_def)

lemma heap_from_half:
  assumes "2 \<le> length xs"
  shows "heap_from cmp (length xs div 2) xs"
proof -
  have "HEAP_PARENT_POS i < length xs div 2" if "i < length xs" "0 < i" for i
  proof -
    have "i - 1 + 2 \<le> length xs" using that by simp
    then have "(i - 1 + 2) div 2 \<le> length xs div 2" by (rule div_le_mono)
    then show ?thesis by (simp add: HEAP_PARENT_POS_def)
  qed
  then show ?thesis by (fastforce simp: heap_from_def)
qed

lemma heap_build_loop_ok:
  assumes "heap_wf h" "heap_info_ok h" "heap_cmp h = cmp" "k \<le> heap_len h"
    and "heap_from cmp k (heap_items h)"
  shows "\<exists>h' m. heap_build_loop h k n = Some (h', m) \<and> heap_perm h h' \<and> is_heap cmp (heap_items h')"
  using assms
proof (induction k arbitrary: h n)
  case 0
  then show ?case using heap_perm_refl by auto
next
  case (Suc i)
  have "i < heap_len h" using Suc.prems(4) by simp
  then obtain h1 m where d: "heap_down h i = Some (h1, m)" "heap_perm h h1"
    "heap_from cmp i (heap_items h1)"
    using heap_down_loop_ok [OF Suc.prems(1-3), of i 0 i] heap_from_step [OF Suc.prems(5)]
    by (auto simp: heap_down_def)
  note p = heap_perm_simps [OF d(2)]
  obtain h' m' where "heap_build_loop h1 i (n + m) = Some (h', m')" "heap_perm h1 h'"
    "is_heap cmp (heap_items h')"
    using Suc.IH [of h1 "n + m"] p d(3) Suc.prems(3,4) by auto
  then show ?case using d(1) heap_perm_trans [OF d(2)] by auto
qed

lemma heap_build_heap_ok:
  assumes "heap_wf h" "heap_info_ok h" "heap_cmp h = cmp"
  shows "\<exists>h' m. heap_build_heap h = Some (h', m) \<and> heap_perm h h' \<and> is_heap cmp (heap_items h')"
proof (cases "heap_len h > 1")
  case True
  then have "heap_from cmp (heap_len h div 2) (heap_items h)"
    using heap_from_half [of "heap_items h"] assms(1) by simp
  then show ?thesis
    using heap_build_loop_ok [OF assms, of "heap_len h div 2" 0] True by (simp add: heap_build_heap_def)
next
  case False
  then have "is_heap cmp (heap_items h)" using assms(1) by (auto simp: heap_from_def)
  then show ?thesis using False heap_perm_refl [of h] assms by (simp add: heap_build_heap_def)
qed

end

lemma heap_build_ok:
  assumes cmp: "comparator cmp" and n: "n \<le> length array"
  shows "\<exists>h. heap_build cmp array n = Some h \<and> heap_inv h \<and> heap_cap_ok h \<and>
     heap_cmp h = cmp \<and> heap_get_info h = None \<and> mset (heap_items h) = mset (take n array)"
proof -
  let ?c = "heap_create cmp"
  let ?r = "heap_resize ?c n"
  have c: "length (heap_arr ?c) = heap_cap ?c" by (simp add: heap_create_def)
  have len: "length (heap_arr ?r) = heap_cap ?r" by (rule heap_resize_arr(1) [OF c])
  have cap: "n < heap_cap ?r" "heap_cap ?r \<le> n + HEAP_BLOCK_SIZE"
    "heap_cap ?r mod HEAP_BLOCK_SIZE = 0"
    using block_up [of n] by simp_all
  define g where "g = ?r\<lparr>heap_arr := map Some (take n array) @ drop n (heap_arr ?r), heap_len := n\<rparr>"
  have items: "heap_items g = take n array"
    using n by (simp add: g_def heap_items_def comp_def)
  have g: "heap_wf g" "heap_info_ok g" "heap_cmp g = cmp" "heap_get_info g = None"
    using n len cap by (auto simp: g_def heap_wf_def heap_info_ok_def heap_create_def nth_append)
  have g_cap: "heap_cap g = heap_cap ?r" "heap_len g = n" by (simp_all add: g_def)
  obtain h m where h: "heap_build_heap g = Some (h, m)" "heap_perm g h" "is_heap cmp (heap_items h)"
    using comparator.heap_build_heap_ok [OF cmp g(1-3)] by blast
  note p = heap_perm_simps [OF h(2)]
  have "heap_build cmp array n = Some h"
    using n h(1) len cap(1) unfolding heap_build_def Let_def g_def by simp
  moreover have "heap_cap_ok h"
    using p(3,4) g_cap cap by (simp add: heap_cap_ok_def)
  ultimately show ?thesis
    using p h(3) g items by (simp add: heap_inv_def)
qed

subsection \<open>Search, and the operations through the records\<close>

lemma heap_del_item_loop_eq:
  assumes "heap_wf h" and "\<And>i. i \<in> set is \<Longrightarrow> i < heap_len h"
  shows "heap_del_item_loop match pattern h is =
     (case find (\<lambda>i. match (heap_items h ! i) pattern) is of
        None \<Rightarrow> Some (None, h) | Some i \<Rightarrow> heap_del_pos h i)"
  using assms(2) by (induction "is") (simp_all add: assms(1))

lemma find_upt_Some:
  "find P [0..<n] = Some i \<longleftrightarrow> i < n \<and> P i \<and> (\<forall>j < i. \<not> P j)"
  by (auto simp: find_Some_iff)

lemma heap_del_item_found:
  assumes inv: "heap_inv h" "heap_cap_ok h" "comparator (heap_cmp h)"
    and i: "i < heap_len h" "match (heap_items h ! i) pattern"
    and first: "\<And>j. j < i \<Longrightarrow> \<not> match (heap_items h ! j) pattern"
  shows "\<exists>h'. heap_del_item h match pattern = Some (Some (heap_items h ! i), h') \<and> heap_inv h' \<and>
     heap_cap_ok h' \<and> heap_same h h' \<and>
     add_mset (heap_items h ! i) (mset (heap_items h')) = mset (heap_items h)"
proof -
  have "find (\<lambda>i. match (heap_items h ! i) pattern) [0..<heap_len h] = Some i"
    using i first by (simp add: find_upt_Some)
  then have "heap_del_item h match pattern = heap_del_pos h i"
    using inv(1) heap_del_item_loop_eq [of h "[0..<heap_len h]" match pattern]
    by (simp add: heap_del_item_def heap_inv_def)
  then show ?thesis using heap_del_pos_ok [OF inv i(1)] by auto
qed

lemma heap_del_item_none:
  assumes "heap_wf h" and "\<And>x. x \<in> set (heap_items h) \<Longrightarrow> \<not> match x pattern"
  shows "heap_del_item h match pattern = Some (None, h)"
proof -
  have "find (\<lambda>i. match (heap_items h ! i) pattern) [0..<heap_len h] = None"
    using assms by (auto simp: find_None_iff)
  then show ?thesis
    using assms(1) heap_del_item_loop_eq [of h "[0..<heap_len h]" match pattern]
    by (simp add: heap_del_item_def)
qed

lemma heap_del_ok:
  assumes inv: "heap_inv h" "heap_cap_ok h" "comparator (heap_cmp h)"
    and f: "heap_get_info h = Some f" and x: "x \<in> set (heap_items h)"
  shows "\<exists>h'. heap_del h x = Some (Some x, h') \<and> heap_inv h' \<and> heap_cap_ok h' \<and> heap_same h h' \<and>
     add_mset x (mset (heap_items h')) = mset (heap_items h)"
proof -
  obtain i where i: "i < heap_len h" "heap_items h ! i = x"
    using x inv(1) by (auto simp: in_set_conv_nth heap_inv_def)
  have "heap_infos h (f x) = Some i"
    using heap_info_okD [OF _ f i(1)] inv(1) i(2) by (simp add: heap_inv_def)
  then have "heap_del h x = heap_del_pos h i"
    using f by (simp add: heap_del_def heap_info_pos_def)
  then show ?thesis using heap_del_pos_ok [OF inv i(1)] i(2) by auto
qed

text \<open>
  The key of one item may have changed: the comparison function of the heap agrees with one for
  which the heap was in order, except on that item.
\<close>

lemma hip_ok_changed:
  assumes old: "is_heap cmp0 xs" "comparator cmp0" and pos: "pos < length xs"
    and agree: "\<And>i j. i < length xs \<Longrightarrow> j < length xs \<Longrightarrow> i \<noteq> pos \<Longrightarrow> j \<noteq> pos \<Longrightarrow>
        cmp (xs ! i) (xs ! j) = cmp0 (xs ! i) (xs ! j)"
  shows "hip_ok cmp pos xs"
  unfolding hip_ok_def
proof (intro conjI allI impI)
  fix i
  assume i: "i < length xs" "0 < i \<and> i \<noteq> pos \<and> HEAP_PARENT_POS i \<noteq> pos"
  then show "cmp (xs ! HEAP_PARENT_POS i) (xs ! i) \<le> 0"
    using agree [of "HEAP_PARENT_POS i" i] old(1) parent_less [of i] by (simp add: heap_from_def)
next
  fix i
  assume i: "i < length xs" "0 < i \<and> HEAP_PARENT_POS i = pos \<and> 0 < pos"
  have lt: "pos < i" "HEAP_PARENT_POS pos < pos" using i parent_less [of i] parent_less [of pos] by simp_all
  have "cmp0 (xs ! HEAP_PARENT_POS pos) (xs ! pos) \<le> 0" "cmp0 (xs ! pos) (xs ! i) \<le> 0"
    using old(1) i pos by (auto simp: heap_from_def)
  then have "cmp0 (xs ! HEAP_PARENT_POS pos) (xs ! i) \<le> 0"
    by (rule comparator.cmp_trans [OF old(2)])
  then show "cmp (xs ! HEAP_PARENT_POS pos) (xs ! i) \<le> 0"
    using agree [of "HEAP_PARENT_POS pos" i] i lt by simp
qed

lemma heap_hipify_ok:
  assumes ok: "heap_wf h" "heap_info_ok h" and cmp: "comparator (heap_cmp h)" "comparator cmp0"
    and f: "heap_get_info h = Some f" and x: "x \<in> set (heap_items h)"
    and old: "is_heap cmp0 (heap_items h)"
    and agree: "\<And>y z. y \<in> set (heap_items h) \<Longrightarrow> z \<in> set (heap_items h) \<Longrightarrow> y \<noteq> x \<Longrightarrow> z \<noteq> x \<Longrightarrow>
        heap_cmp h y z = cmp0 y z"
  shows "\<exists>h'. heap_hipify h x = Some (Some x, h') \<and> heap_inv h' \<and> heap_perm h h'"
proof -
  obtain pos where pos: "pos < heap_len h" "heap_items h ! pos = x"
    using x ok(1) by (auto simp: in_set_conv_nth)
  have info: "heap_infos h (f x) = Some pos"
    using heap_info_okD [OF ok(2) f pos(1)] pos(2) by simp
  have ne: "heap_items h ! i \<noteq> x" if "i < heap_len h" "i \<noteq> pos" for i
    using heap_info_inj [OF ok(2) f that(1) pos(1)] that(2) pos(2) by auto
  have "hip_ok (heap_cmp h) pos (heap_items h)"
    by (rule hip_ok_changed [OF old cmp(2)]) (use ok(1) pos(1) ne agree in auto)
  then obtain h' n where h': "heap_hipify_pos h pos = Some (h', n)" "heap_perm h h'"
    "is_heap (heap_cmp h) (heap_items h')"
    using comparator.heap_hipify_pos_ok [OF cmp(1) ok refl pos(1)] by blast
  then show ?thesis
    using f info heap_perm_simps [OF h'(2)]
    by (simp add: heap_hipify_def heap_info_pos_def heap_inv_def)
qed

subsection \<open>Setting the accessor\<close>

lemma heap_items_infos [simp]: "heap_items (h\<lparr>heap_infos := m\<rparr>) = heap_items h"
  by (simp add: heap_items_def)

lemma heap_set_info_loop_ok:
  assumes wf: "heap_wf h" and f: "inj_on f (set (heap_items h))" "distinct (heap_items h)"
    and has: "\<And>i. i < heap_len h \<Longrightarrow> m (f (heap_items h ! i)) \<noteq> None"
    and "\<And>i. i \<in> set is \<Longrightarrow> i < heap_len h" and "distinct is"
  shows "\<exists>m'. heap_set_info_loop f (h\<lparr>heap_infos := m\<rparr>) is = Some (h\<lparr>heap_infos := m'\<rparr>) \<and>
     (\<forall>i < heap_len h. m' (f (heap_items h ! i)) =
        (if i \<in> set is then Some i else m (f (heap_items h ! i))))"
  using assms(4-6)
proof (induction "is" arbitrary: m)
  case Nil
  then show ?case by auto
next
  case (Cons k ks)
  let ?m1 = "m(f (heap_items h ! k) \<mapsto> k)"
  have k: "k < heap_len h" using Cons.prems(2) by simp
  have inj: "f (heap_items h ! i) = f (heap_items h ! k) \<longleftrightarrow> i = k" if "i < heap_len h" for i
    using f wf that k by (auto simp: nth_eq_iff_index_eq dest: inj_onD)
  obtain v where v: "m (f (heap_items h ! k)) = Some v" using Cons.prems(1) [OF k] by blast
  have wf': "heap_wf (h\<lparr>heap_infos := m\<rparr>)" using wf by (simp add: heap_wf_def)
  have step: "heap_set_info_loop f (h\<lparr>heap_infos := m\<rparr>) (k # ks) =
      heap_set_info_loop f (h\<lparr>heap_infos := ?m1\<rparr>) ks"
    using heap_rd_item [OF wf', of k] k v by (simp add: heap_info_set_def)
  obtain m' where m': "heap_set_info_loop f (h\<lparr>heap_infos := ?m1\<rparr>) ks = Some (h\<lparr>heap_infos := m'\<rparr>)"
    "\<And>i. i < heap_len h \<Longrightarrow> m' (f (heap_items h ! i)) =
        (if i \<in> set ks then Some i else ?m1 (f (heap_items h ! i)))"
  proof -
    have prem: "?m1 (f (heap_items h ! i)) \<noteq> None" if "i < heap_len h" for i
      using Cons.prems(1) [OF that] by simp
    have mem: "i < heap_len h" if "i \<in> set ks" for i
      using Cons.prems(2) [of i] that by simp
    have d: "distinct ks" using Cons.prems(3) by simp
    show ?thesis using Cons.IH [of ?m1, OF prem mem d] that by blast
  qed
  have "m' (f (heap_items h ! i)) = (if i \<in> set (k # ks) then Some i else m (f (heap_items h ! i)))"
    if "i < heap_len h" for i
    using m'(2) [OF that] inj [OF that] by auto
  then show ?case using m'(1) unfolding step by auto
qed

lemma heap_set_info_accessor_ok:
  assumes wf: "heap_wf h" and f: "inj_on f (set (heap_items h))" "distinct (heap_items h)"
    and has: "\<And>x. x \<in> set (heap_items h) \<Longrightarrow> heap_infos h (f x) \<noteq> None"
  shows "\<exists>h'. heap_set_info_accessor h (Some f) = Some h' \<and> heap_ok h' \<and>
     heap_items h' = heap_items h \<and> heap_get_info h' = Some f \<and> heap_cmp h' = heap_cmp h"
proof -
  let ?g = "h\<lparr>heap_get_info := Some f\<rparr>"
  have g: "heap_wf ?g" "heap_items ?g = heap_items h"
    using wf by (simp_all add: heap_wf_def heap_items_def)
  obtain m' where m': "heap_set_info_loop f ?g [0..<heap_len h] = Some (?g\<lparr>heap_infos := m'\<rparr>)"
    "\<forall>i < heap_len h. m' (f (heap_items h ! i)) = Some i"
    using heap_set_info_loop_ok [OF g(1), of f "heap_infos h" "[0..<heap_len h]"] f has wf g(2)
    by (auto simp: nth_mem)
  have "heap_ok (?g\<lparr>heap_infos := m'\<rparr>)"
    using wf g(2) m'(2) by (simp add: heap_wf_def heap_info_ok_def)
  then show ?thesis
    using m'(1) g(2) by (intro exI [of _ "?g\<lparr>heap_infos := m'\<rparr>"])
      (simp add: heap_set_info_accessor_def Let_def)
qed

subsection \<open>The checker\<close>

definition pos_good :: "'a heap \<Rightarrow> nat \<Rightarrow> bool" where
  "pos_good h i \<longleftrightarrow>
     (\<forall>f. heap_get_info h = Some f \<longrightarrow> heap_infos h (f (heap_items h ! i)) = Some i) \<and>
     (HEAP_PARENT_POS i > 0 \<longrightarrow> heap_cmp h (heap_items h ! HEAP_PARENT_POS i) (heap_items h ! i) \<le> 0) \<and>
     (\<forall>c \<in> {HEAP_LEFT_POS i, HEAP_RIGHT_POS i}. c < heap_len h \<longrightarrow>
        heap_cmp h (heap_items h ! c) (heap_items h ! i) \<ge> 0)"

lemma heap_check_child_eq:
  "heap_wf h \<Longrightarrow> i < heap_len h \<Longrightarrow> heap_check_child h i c =
     Some (c < heap_len h \<longrightarrow> heap_cmp h (heap_items h ! c) (heap_items h ! i) \<ge> 0)"
  by (simp add: heap_check_child_def)

lemma heap_check_loop_eq:
  assumes wf: "heap_wf h"
    and has: "\<And>f x. heap_get_info h = Some f \<Longrightarrow> x \<in> set (heap_items h) \<Longrightarrow> heap_infos h (f x) \<noteq> None"
    and "\<And>i. i \<in> set is \<Longrightarrow> i < heap_len h"
  shows "heap_check_loop h is = Some (if \<forall>i \<in> set is. pos_good h i then 1 else 0)"
  using assms(3)
proof (induction "is")
  case Nil
  then show ?case by simp
next
  case (Cons i "is")
  have i: "i < heap_len h" using Cons.prems by simp
  have p: "HEAP_PARENT_POS i < heap_len h"
    using i parent_less [of i] by (cases "i = 0") (auto simp: HEAP_PARENT_POS_def)
  have info: "(case heap_get_info h of None \<Rightarrow> Some True
      | Some f \<Rightarrow> do { x \<leftarrow> heap_rd h i; pos \<leftarrow> heap_info_pos h f x; Some (pos = i) }) =
      Some (\<forall>f. heap_get_info h = Some f \<longrightarrow> heap_infos h (f (heap_items h ! i)) = Some i)"
  proof (cases "heap_get_info h")
    case (Some f)
    have "heap_infos h (f (heap_items h ! i)) \<noteq> None"
      by (rule has [OF Some]) (use i wf in simp)
    then show ?thesis using Some i wf by (auto simp: heap_info_pos_def)
  qed simp
  have parent: "(if HEAP_PARENT_POS i > 0 then do {
        p \<leftarrow> heap_rd h (HEAP_PARENT_POS i);
        x \<leftarrow> heap_rd h i;
        Some (heap_cmp h p x \<le> 0) } else Some True) =
      Some (HEAP_PARENT_POS i > 0 \<longrightarrow>
        heap_cmp h (heap_items h ! HEAP_PARENT_POS i) (heap_items h ! i) \<le> 0)"
    using i p wf by simp
  have IH: "heap_check_loop h is = Some (if \<forall>i \<in> set is. pos_good h i then 1 else 0)"
    by (rule Cons.IH) (use Cons.prems in simp)
  show ?case
    unfolding heap_check_loop.simps info Let_def parent heap_check_child_eq [OF wf i] IH
      bind.bind_lunit
    by (simp add: pos_good_def)
qed

text \<open>
  The test of the parent skips the items whose parent is the root, but the tests of the children
  cover them.
\<close>

lemma all_pos_good:
  assumes "heap_wf h" and cmp: "comparator (heap_cmp h)"
  shows "(\<forall>i \<in> set [0..<heap_len h]. pos_good h i) \<longleftrightarrow>
         heap_info_ok h \<and> is_heap (heap_cmp h) (heap_items h)"
proof
  assume good: "\<forall>i \<in> set [0..<heap_len h]. pos_good h i"
  then have "heap_info_ok h" by (auto simp: heap_info_ok_def pos_good_def split: option.split)
  moreover have "is_heap (heap_cmp h) (heap_items h)"
    unfolding heap_from_def
  proof (intro allI impI)
    fix i
    assume i: "i < length (heap_items h)" "0 < i \<and> 0 \<le> HEAP_PARENT_POS i"
    have "HEAP_PARENT_POS i < heap_len h" using i assms(1) parent_less [of i] by simp
    then have "pos_good h (HEAP_PARENT_POS i)" using good by simp
    then have all: "\<forall>c \<in> {HEAP_LEFT_POS (HEAP_PARENT_POS i), HEAP_RIGHT_POS (HEAP_PARENT_POS i)}.
        c < heap_len h \<longrightarrow> heap_cmp h (heap_items h ! c) (heap_items h ! HEAP_PARENT_POS i) \<ge> 0"
      unfolding pos_good_def by blast
    have "i \<in> {HEAP_LEFT_POS (HEAP_PARENT_POS i), HEAP_RIGHT_POS (HEAP_PARENT_POS i)}"
      using parent_cases [of i "HEAP_PARENT_POS i"] i by simp
    moreover have "i < heap_len h" using i assms(1) by simp
    ultimately have "heap_cmp h (heap_items h ! i) (heap_items h ! HEAP_PARENT_POS i) \<ge> 0"
      using all by blast
    then show "heap_cmp h (heap_items h ! HEAP_PARENT_POS i) (heap_items h ! i) \<le> 0"
      by (simp add: comparator.cmp_ge [OF cmp])
  qed
  ultimately show "heap_info_ok h \<and> is_heap (heap_cmp h) (heap_items h)" ..
next
  assume ok: "heap_info_ok h \<and> is_heap (heap_cmp h) (heap_items h)"
  show "\<forall>i \<in> set [0..<heap_len h]. pos_good h i"
  proof
    fix i
    assume "i \<in> set [0..<heap_len h]"
    then have i: "i < heap_len h" by simp
    have child: "heap_cmp h (heap_items h ! i) (heap_items h ! c) \<le> 0"
      if "c < heap_len h" "0 < c" "HEAP_PARENT_POS c = i" for c
      using ok that assms(1) by (auto simp: heap_from_def)
    have "0 < i" if "HEAP_PARENT_POS i > 0" using that by (cases i) (simp_all add: HEAP_PARENT_POS_def)
    then have "HEAP_PARENT_POS i > 0 \<longrightarrow>
        heap_cmp h (heap_items h ! HEAP_PARENT_POS i) (heap_items h ! i) \<le> 0"
      using ok i assms(1) by (simp add: heap_from_def)
    then show "pos_good h i"
      unfolding pos_good_def using ok i child heap_info_okD
      by (auto simp: comparator.cmp_ge [OF cmp])
  qed
qed

lemma heap_check_properties_eq:
  assumes "heap_wf h" and "comparator (heap_cmp h)"
    and "\<And>f x. heap_get_info h = Some f \<Longrightarrow> x \<in> set (heap_items h) \<Longrightarrow> heap_infos h (f x) \<noteq> None"
  shows "heap_check_properties h =
     Some (if heap_info_ok h \<and> is_heap (heap_cmp h) (heap_items h) then 1 else 0)"
  unfolding heap_check_properties_def all_pos_good [OF assms(1,2), symmetric]
  by (rule heap_check_loop_eq) (use assms in auto)

lemma those_map_all: "(\<And>x. x \<in> set xs \<Longrightarrow> f x = Some (g x)) \<Longrightarrow> those (map f xs) = Some (map g xs)"
  by (induction xs) auto

lemma heap_items_nth: "heap_wf h \<Longrightarrow> map (\<lambda>i. heap_items h ! i) [0..<heap_len h] = heap_items h"
  using map_nth [of "heap_items h"] by simp

lemma heap_destroy_ok: "heap_wf h \<Longrightarrow> heap_destroy h = Some (heap_items h)"
  using those_map_all [of "[0..<heap_len h]" "heap_rd h" "\<lambda>i. heap_items h ! i"]
  by (simp add: heap_destroy_def heap_items_nth)

subsection \<open>The contract of a priority queue\<close>

text \<open>
  What a client of the heap relies on: the queue holds a multiset of items, insertion adds one,
  \<open>min_op\<close> and \<open>shift_op\<close> deliver a least one, \<open>del_op\<close> removes a matching one.
\<close>

text \<open>The results of \<open>n\<close> removals of the minimum.\<close>

fun shifts :: "('q \<Rightarrow> ('a option \<times> 'q) option) \<Rightarrow> nat \<Rightarrow> 'q \<Rightarrow> ('a list \<times> 'q) option" where
  "shifts shift_op 0 q = Some ([], q)"
| "shifts shift_op (Suc n) q = do {
     (x, q) \<leftarrow> shift_op q;
     (xs, q) \<leftarrow> shifts shift_op n q;
     Some ((case x of None \<Rightarrow> [] | Some x \<Rightarrow> [x]) @ xs, q) }"

locale prio_queue = comparator cmp
  for cmp :: "'a \<Rightarrow> 'a \<Rightarrow> int" +
  fixes inv :: "'q \<Rightarrow> bool"
    and content :: "'q \<Rightarrow> 'a multiset"
    and insert_op :: "'q \<Rightarrow> 'a \<Rightarrow> (nat \<times> 'q) option"
    and min_op :: "'q \<Rightarrow> 'a option option"
    and shift_op :: "'q \<Rightarrow> ('a option \<times> 'q) option"
    and del_op :: "'q \<Rightarrow> ('a \<Rightarrow> 'p \<Rightarrow> bool) \<Rightarrow> 'p \<Rightarrow> ('a option \<times> 'q) option"
  assumes insert_law: "inv q \<Longrightarrow> \<exists>q'. insert_op q x = Some (Suc (size (content q)), q') \<and> inv q' \<and>
      content q' = add_mset x (content q)"
    and empty_law: "inv q \<Longrightarrow> content q = {#} \<Longrightarrow>
      min_op q = Some None \<and> shift_op q = Some (None, q)"
    and min_law: "inv q \<Longrightarrow> content q \<noteq> {#} \<Longrightarrow> \<exists>x q'. min_op q = Some (Some x) \<and>
      shift_op q = Some (Some x, q') \<and> inv q' \<and> content q = add_mset x (content q') \<and>
      (\<forall>y \<in># content q. cmp x y \<le> 0)"
    and del_law: "inv q \<Longrightarrow> \<exists>x \<in># content q. match x p \<Longrightarrow>
      \<exists>x q'. del_op q match p = Some (Some x, q') \<and> match x p \<and> inv q' \<and>
      content q = add_mset x (content q')"
    and del_none_law: "inv q \<Longrightarrow> \<forall>x \<in># content q. \<not> match x p \<Longrightarrow> del_op q match p = Some (None, q)"
begin

lemma min_in: "inv q \<Longrightarrow> min_op q = Some (Some x) \<Longrightarrow> x \<in># content q \<and> (\<forall>y \<in># content q. cmp x y \<le> 0)"
  using empty_law [of q] min_law [of q] by (cases "content q = {#}") auto

lemma min_exists: "inv q \<Longrightarrow> \<exists>m. min_op q = Some m \<and> (m = None \<longleftrightarrow> content q = {#})"
  using empty_law [of q] min_law [of q] by (cases "content q = {#}") auto

lemma shift_min:
  assumes "inv q" and "min_op q = Some (Some x)"
  shows "\<exists>q'. shift_op q = Some (Some x, q') \<and> inv q' \<and> content q = add_mset x (content q')"
  using empty_law [of q] min_law [of q] assms by (cases "content q = {#}") auto

lemma shift_none: "inv q \<Longrightarrow> shift_op q = Some (None, q') \<Longrightarrow> content q = {#} \<and> q' = q"
  using empty_law [of q] min_law [of q] by (cases "content q = {#}") auto

lemma shifts_sorted:
  assumes "inv q" and "size (content q) = n"
  shows "\<exists>xs q'. shifts shift_op n q = Some (xs, q') \<and> inv q' \<and> content q' = {#} \<and> mset xs = content q \<and>
    sorted_wrt (\<lambda>x y. cmp x y \<le> 0) xs"
  using assms
proof (induction n arbitrary: q)
  case 0
  then show ?case by simp
next
  case (Suc n)
  from Suc.prems(2) have "content q \<noteq> {#}" by auto
  then obtain x q' where x: "shift_op q = Some (Some x, q')" "inv q'"
    "content q = add_mset x (content q')" "\<forall>y \<in># content q. cmp x y \<le> 0"
    using min_law [OF Suc.prems(1)] by blast
  have "size (content q') = n" using Suc.prems(2) x(3) by simp
  then obtain xs q'' where ih: "shifts shift_op n q' = Some (xs, q'')" "inv q''" "content q'' = {#}"
    "mset xs = content q'" "sorted_wrt (\<lambda>x y. cmp x y \<le> 0) xs"
    using Suc.IH [OF x(2)] by blast
  have "\<forall>y \<in> set xs. cmp x y \<le> 0"
  proof
    fix y
    assume "y \<in> set xs"
    then have "y \<in># content q'" using ih(4) by (metis set_mset_mset)
    then show "cmp x y \<le> 0" using x(3,4) by simp
  qed
  then show ?case using x ih by simp
qed

end

definition heap_queue :: "('a \<Rightarrow> 'a \<Rightarrow> int) \<Rightarrow> 'a heap \<Rightarrow> bool" where
  "heap_queue cmp h \<longleftrightarrow> heap_inv h \<and> heap_cap_ok h \<and> heap_cmp h = cmp \<and> heap_get_info h = None"

lemma heap_queue_fresh: "heap_queue cmp h \<Longrightarrow> heap_fresh h x"
  by (simp add: heap_queue_def heap_fresh_def heap_has_info_def)

context comparator
begin

lemma heap_queue_insert:
  assumes "heap_queue cmp h"
  shows "\<exists>h'. heap_insert h x = Some (Suc (size (mset (heap_items h))), h') \<and> heap_queue cmp h' \<and>
    mset (heap_items h') = add_mset x (mset (heap_items h))"
proof -
  have "comparator (heap_cmp h)" and inv: "heap_inv h" "heap_cap_ok h"
    using assms comparator_axioms by (simp_all add: heap_queue_def)
  from heap_insert_ok [OF inv this(1) heap_queue_fresh [OF assms]] obtain h' where
    "heap_insert h x = Some (Suc (heap_len h), h')" "heap_inv h'" "heap_cap_ok h'" "heap_same h h'"
    "mset (heap_items h') = add_mset x (mset (heap_items h))"
    by blast
  then show ?thesis using assms by (simp add: heap_queue_def heap_same_def heap_inv_def)
qed

lemma heap_queue_empty:
  assumes "heap_queue cmp h" "mset (heap_items h) = {#}"
  shows "heap_min h = Some None \<and> heap_shift h = Some (None, h)"
proof -
  have "heap_len h = 0" using assms by (simp add: heap_queue_def heap_inv_def flip: heap_items_length)
  then show ?thesis by (simp add: heap_min_def heap_shift_def)
qed

lemma heap_queue_min:
  assumes "heap_queue cmp h" "mset (heap_items h) \<noteq> {#}"
  shows "\<exists>x h'. heap_min h = Some (Some x) \<and> heap_shift h = Some (Some x, h') \<and> heap_queue cmp h' \<and>
    mset (heap_items h) = add_mset x (mset (heap_items h')) \<and>
    (\<forall>y \<in># mset (heap_items h). cmp x y \<le> 0)"
proof -
  have cmp: "comparator (heap_cmp h)" and inv: "heap_inv h" "heap_cap_ok h" and eq: "heap_cmp h = cmp"
    using assms comparator_axioms by (simp_all add: heap_queue_def)
  have len: "0 < heap_len h"
    using assms(2) inv(1) by (simp add: heap_inv_def flip: heap_items_length)
  have min: "heap_min h = Some (Some (heap_items h ! 0))"
    using heap_min_ok(1) [OF inv(1) cmp] assms(2) by simp
  have least: "\<forall>y \<in># mset (heap_items h). cmp (heap_items h ! 0) y \<le> 0"
    using heap_min_ok(2) [OF inv(1) cmp] eq by simp
  from heap_shift_ok [OF inv cmp len] obtain h' where
    "heap_shift h = Some (Some (heap_items h ! 0), h')" "heap_inv h'" "heap_cap_ok h'"
    "heap_same h h'" "add_mset (heap_items h ! 0) (mset (heap_items h')) = mset (heap_items h)"
    by blast
  then show ?thesis using min least assms(1) by (simp add: heap_queue_def heap_same_def)
qed

lemma heap_queue_del:
  assumes "heap_queue cmp h" "\<exists>x \<in># mset (heap_items h). match x p"
  shows "\<exists>x h'. heap_del_item h match p = Some (Some x, h') \<and> match x p \<and> heap_queue cmp h' \<and>
    mset (heap_items h) = add_mset x (mset (heap_items h'))"
proof -
  have cmp: "comparator (heap_cmp h)" and inv: "heap_inv h" "heap_cap_ok h"
    using assms comparator_axioms by (simp_all add: heap_queue_def)
  define i where "i = (LEAST i. i < heap_len h \<and> match (heap_items h ! i) p)"
  obtain j where "j < heap_len h \<and> match (heap_items h ! j) p"
    using assms(2) inv(1) by (auto simp: in_set_conv_nth heap_inv_def)
  then have i: "i < heap_len h" "match (heap_items h ! i) p"
    unfolding i_def by (metis (mono_tags, lifting) LeastI)+
  have "\<not> match (heap_items h ! j) p" if "j < i" for j
    using not_less_Least [of j "\<lambda>i. i < heap_len h \<and> match (heap_items h ! i) p"] that i(1)
    unfolding i_def by auto
  from heap_del_item_found [where match = match, OF inv cmp i this] obtain h' where
    "heap_del_item h match p = Some (Some (heap_items h ! i), h')" "heap_inv h'" "heap_cap_ok h'"
    "heap_same h h'" "add_mset (heap_items h ! i) (mset (heap_items h')) = mset (heap_items h)"
    by blast
  then show ?thesis using i(2) assms(1) by (simp add: heap_queue_def heap_same_def)
qed

lemma heap_queue_del_none:
  "heap_queue cmp h \<Longrightarrow> \<forall>x \<in># mset (heap_items h). \<not> match x p \<Longrightarrow>
   heap_del_item h match p = Some (None, h)"
  by (rule heap_del_item_none) (simp_all add: heap_queue_def heap_inv_def)

end

sublocale comparator \<subseteq> pq: prio_queue cmp "heap_queue cmp" "\<lambda>h. mset (heap_items h)"
  heap_insert heap_min heap_shift heap_del_item
  by unfold_locales (rule heap_queue_insert heap_queue_empty heap_queue_min heap_queue_del
    heap_queue_del_none; assumption)+

context comparator
begin

lemma heap_queue_shifts:
  assumes "heap_queue cmp h"
  shows "\<exists>xs h'. shifts heap_shift (heap_len h) h = Some (xs, h') \<and>
    heap_shift h' = Some (None, h') \<and> mset xs = mset (heap_items h) \<and>
    sorted_wrt (\<lambda>x y. cmp x y \<le> 0) xs"
proof -
  have "size (mset (heap_items h)) = heap_len h"
    using assms by (simp add: heap_queue_def heap_inv_def)
  then show ?thesis
    using pq.shifts_sorted [OF assms] pq.empty_law by blast
qed

end

subsection \<open>Properties\<close>

text \<open>
  C33: Insertion into a well-formed heap (any total preorder as comparison, with or without position
  records) is memory safe, returns the new size, adds exactly the item, keeps the heap order, the
  position record of every item and the shape of the array, and touches no other record.
\<close>

theorem heap_insert_correct:
  assumes "heap_inv h" and "heap_cap_ok h" and "comparator (heap_cmp h)" and "heap_fresh h item"
  shows "\<exists>h'. heap_insert h item = Some (Suc (heap_len h), h') \<and> heap_inv h' \<and> heap_cap_ok h' \<and>
     heap_same h h' \<and> mset (heap_items h') = add_mset item (mset (heap_items h)) \<and>
     infos_frame (insert item (set (heap_items h))) h h'"
  by (rule heap_insert_ok [OF assms])

lemma int_diff_comparator: "comparator (\<lambda>x y. x - y :: int)"
  by unfold_locales auto

definition sample_heap :: "int heap" where
  "sample_heap = \<lparr>heap_arr = [Some 1, Some 5, Some 2] @ replicate 125 None, heap_cap = 128,
     heap_len = 3, heap_cmp = (\<lambda>x y. x - y), heap_get_info = Some nat,
     heap_infos = [1 \<mapsto> 0, 5 \<mapsto> 1, 2 \<mapsto> 2, 9 \<mapsto> 0]\<rparr>"

lemma less_3_cases: "i < 3 \<Longrightarrow> i = 0 \<or> i = 1 \<or> i = (2 :: nat)"
  by auto

lemma sample_heap_items: "heap_items sample_heap = [1, 5, 2]"
  by (simp add: heap_items_def sample_heap_def numeral_3_eq_3)

lemma sample_heap_fields:
  "heap_len sample_heap = 3" "heap_cap sample_heap = 128" "heap_cmp sample_heap = (\<lambda>x y. x - y)"
  "heap_get_info sample_heap = Some nat"
  "heap_infos sample_heap = [1 \<mapsto> 0, 5 \<mapsto> 1, 2 \<mapsto> 2, 9 \<mapsto> 0]"
  by (simp_all add: sample_heap_def)

lemma sample_heap_inv: "heap_inv sample_heap" "heap_cap_ok sample_heap"
proof -
  have "heap_wf sample_heap"
    by (auto simp: heap_wf_def sample_heap_def nth_Cons' dest!: less_3_cases)
  moreover have "heap_info_ok sample_heap"
    by (auto simp: heap_info_ok_def sample_heap_items sample_heap_fields dest!: less_3_cases)
  moreover have "is_heap (heap_cmp sample_heap) (heap_items sample_heap)"
    unfolding heap_from_def sample_heap_items sample_heap_fields HEAP_PARENT_POS_def
  proof (intro allI impI)
    fix i :: nat
    assume "i < length [1, 5, 2 :: int]"
    then have "i \<in> {0, 1, 2}" by auto
    then show "[1, 5, 2] ! ((i - 1) div 2) - [1, 5, 2] ! i \<le> (0 :: int)" by auto
  qed
  ultimately show "heap_inv sample_heap" by (simp add: heap_inv_def)
  show "heap_cap_ok sample_heap"
    by (simp add: heap_cap_ok_def sample_heap_fields HEAP_BLOCK_SIZE_def)
qed

theorem heap_insert_correct_witness:
  "\<exists>h'. heap_insert sample_heap 9 = Some (4, h') \<and> heap_inv h' \<and>
     mset (heap_items h') = {#9, 1, 5, 2#}"
proof -
  have "heap_fresh sample_heap 9"
    by (simp add: heap_fresh_def heap_has_info_def sample_heap_items sample_heap_fields)
  then show ?thesis
    using heap_insert_correct [of sample_heap 9] sample_heap_inv int_diff_comparator
    by (auto simp: sample_heap_items sample_heap_fields)
qed

text \<open>
  Removing the minimum of a non-empty heap returns an item that no other item precedes, the
  same one \<open>heap_min\<close> shows, leaves exactly the other items, keeps the heap order, the position
  records and the shape of the array, which is given back when a block of it is free.
\<close>

theorem heap_shift_correct:
  assumes "heap_inv h" and "heap_cap_ok h" and "comparator (heap_cmp h)" and "0 < heap_len h"
  shows "\<exists>x h'. heap_min h = Some (Some x) \<and> heap_shift h = Some (Some x, h') \<and>
     (\<forall>y \<in># mset (heap_items h). heap_cmp h x y \<le> 0) \<and>
     add_mset x (mset (heap_items h')) = mset (heap_items h) \<and>
     heap_inv h' \<and> heap_cap_ok h' \<and> heap_same h h' \<and> infos_frame (set (heap_items h)) h h'"
proof -
  have ne: "heap_items h \<noteq> []"
    using assms(1,4) by (auto simp: heap_inv_def dest: heap_items_length)
  show ?thesis
    using heap_shift_ok [OF assms] heap_min_ok [OF assms(1,3)] ne by auto
qed

theorem heap_shift_correct_witness:
  "\<exists>x h'. heap_shift sample_heap = Some (Some x, h') \<and>
     (\<forall>y \<in> {1, 5, 2}. x \<le> y) \<and> add_mset x (mset (heap_items h')) = {#1, 5, 2#}"
  using heap_shift_correct [of sample_heap] sample_heap_inv int_diff_comparator
  by (fastforce simp: sample_heap_items sample_heap_fields)

text \<open>
  Removing an item through its position record removes exactly that item from any place of
  the heap and keeps order, records and array.
\<close>

theorem heap_del_correct:
  assumes "heap_inv h" and "heap_cap_ok h" and "comparator (heap_cmp h)"
    and "heap_get_info h = Some f" and "x \<in> set (heap_items h)"
  shows "\<exists>h'. heap_del h x = Some (Some x, h') \<and> heap_inv h' \<and> heap_cap_ok h' \<and> heap_same h h' \<and>
     add_mset x (mset (heap_items h')) = mset (heap_items h)"
  by (rule heap_del_ok [OF assms])

theorem heap_del_correct_witness:
  "\<exists>h'. heap_del sample_heap 5 = Some (Some 5, h') \<and> heap_inv h' \<and>
     mset (heap_items h') = {#1, 2#}"
  using heap_del_correct [of sample_heap nat 5] sample_heap_inv int_diff_comparator
  by (auto simp: sample_heap_items sample_heap_fields add_mset_commute)

text \<open>
  After the key of one item of a heap has changed in any way (the new comparison agrees with
  the old one on the other items), \<open>heap_hipify\<close> on that item restores the heap order, keeps the
  items and updates every position record.
\<close>

theorem heap_hipify_correct:
  assumes "heap_wf h" and "heap_info_ok h" and "comparator (heap_cmp h)" and "comparator cmp0"
    and "heap_get_info h = Some f" and "x \<in> set (heap_items h)"
    and "is_heap cmp0 (heap_items h)"
    and "\<And>y z. y \<in> set (heap_items h) \<Longrightarrow> z \<in> set (heap_items h) \<Longrightarrow> y \<noteq> x \<Longrightarrow> z \<noteq> x \<Longrightarrow>
        heap_cmp h y z = cmp0 y z"
  shows "\<exists>h'. heap_hipify h x = Some (Some x, h') \<and> heap_inv h' \<and>
     mset (heap_items h') = mset (heap_items h)"
  using heap_hipify_ok [OF assms] by (blast dest: heap_perm_simps(7))

text \<open>In the sample the key of 1 becomes 7: it has to sink.\<close>

definition moved_key :: "int \<Rightarrow> int" where
  "moved_key x = (if x = 1 then 7 else x)"

theorem heap_hipify_correct_witness:
  "\<exists>h'. heap_hipify (sample_heap\<lparr>heap_cmp := \<lambda>x y. moved_key x - moved_key y\<rparr>) 1 =
       Some (Some 1, h') \<and>
     heap_inv h' \<and> mset (heap_items h') = {#1, 5, 2#}"
proof -
  let ?h = "sample_heap\<lparr>heap_cmp := \<lambda>x y. moved_key x - moved_key y\<rparr>"
  have items: "heap_items ?h = [1, 5, 2]"
    using sample_heap_items by (simp add: heap_items_def)
  have wf: "heap_wf ?h" using sample_heap_inv by (simp add: heap_inv_def heap_wf_def)
  have info: "heap_info_ok ?h"
    by (auto simp: heap_info_ok_def items sample_heap_fields dest!: less_3_cases)
  have cmp: "comparator (heap_cmp ?h)" by unfold_locales auto
  have heap: "is_heap (\<lambda>x y. x - y) (heap_items ?h)"
    using sample_heap_inv items by (simp add: heap_inv_def sample_heap_items sample_heap_fields)
  have mem: "heap_get_info ?h = Some nat" "1 \<in> set (heap_items ?h)"
    by (simp_all add: items sample_heap_fields)
  have agree: "heap_cmp ?h y z = y - z" if "y \<noteq> 1" "z \<noteq> 1" for y z
    using that by (simp add: moved_key_def)
  show ?thesis
    using heap_hipify_correct [OF wf info cmp int_diff_comparator mem heap] agree
    by (simp only: items) simp
qed

text \<open>
  C32: Heap sort: building a heap from the first \<open>n\<close> elements of an array and shifting \<open>n\<close> times
  delivers them in ascending order and leaves the heap empty.
\<close>

theorem heap_build_shifts_sorted:
  assumes "comparator cmp" and "n \<le> length array"
  shows "\<exists>h xs h'. heap_build cmp array n = Some h \<and> shifts heap_shift n h = Some (xs, h') \<and>
     heap_shift h' = Some (None, h') \<and> mset xs = mset (take n array) \<and>
     sorted_wrt (\<lambda>x y. cmp x y \<le> 0) xs"
proof -
  obtain h where h: "heap_build cmp array n = Some h" "heap_queue cmp h"
    "mset (heap_items h) = mset (take n array)"
    using heap_build_ok [OF assms] by (auto simp: heap_queue_def)
  have "heap_len h = length (heap_items h)" using h(2) by (simp add: heap_queue_def heap_inv_def)
  also have "\<dots> = n" using h(3) assms(2) by (metis length_take min_absorb2 size_mset)
  finally show ?thesis
    using comparator.heap_queue_shifts [OF assms(1) h(2)] h(1,3) by auto
qed

theorem heap_build_shifts_sorted_witness:
  "\<exists>h xs h'. heap_build (\<lambda>x y. x - y) [3, 1, 2 :: int] 3 = Some h \<and>
     shifts heap_shift 3 h = Some (xs, h') \<and> mset xs = {#3, 1, 2#} \<and> sorted_wrt (\<lambda>x y. x - y \<le> 0) xs"
  using heap_build_shifts_sorted [OF int_diff_comparator, of 3 "[3, 1, 2]"] by auto

text \<open>
  On a heap whose array is well formed and whose items all have records,
  \<open>heap_check_properties\<close> returns 1 exactly when the heap is in order and every record holds the
  position of its item, and 0 otherwise, although it does not compare the children of the root
  with their parent from their side.
\<close>

theorem heap_check_properties_exact:
  assumes "heap_wf h" and "comparator (heap_cmp h)"
    and "\<And>f x. heap_get_info h = Some f \<Longrightarrow> x \<in> set (heap_items h) \<Longrightarrow> heap_infos h (f x) \<noteq> None"
  shows "heap_check_properties h =
     Some (if heap_info_ok h \<and> is_heap (heap_cmp h) (heap_items h) then 1 else 0)"
  using heap_check_properties_eq [OF assms(1,2)] assms(3) by blast

theorem heap_check_properties_exact_witness: "heap_check_properties sample_heap = Some 1"
proof -
  have "heap_infos sample_heap (f x) \<noteq> None"
    if "heap_get_info sample_heap = Some f" "x \<in> set (heap_items sample_heap)" for f x
    using that by (auto simp: sample_heap_fields sample_heap_items)
  then show ?thesis
    using heap_check_properties_exact [of sample_heap] sample_heap_inv int_diff_comparator
    by (simp add: heap_inv_def sample_heap_fields(3))
qed

end
