(* ===== verification/RbTree.thy ===== *)
theory RbTree
  imports BfPrelude
begin

section \<open>The red-black tree (tree.c)\<close>

text \<open>
  The model of the code: a store of nodes with parent, left and right pointers, and one definition
  per C function. The field \<open>tree\<close> of a node is left out: every node of the store belongs to the
  one tree, whose \<open>root\<close> is the component \<open>tr_root\<close>. Keys and values are opaque (the code's
  \<open>void *\<close>). The address that \<open>malloc\<close> returns is an argument of \<open>tree_insert\<close>.
\<close>

subsection \<open>State\<close>

datatype color = RED | BLACK

record ('k, 'v) tnode =
  tn_parent :: ptr
  tn_left :: ptr
  tn_right :: ptr
  tn_color :: color
  tn_key :: 'k
  tn_value :: 'v

record ('k, 'v) tree =
  tr_root :: ptr
  tr_cmp :: "'k \<Rightarrow> 'k \<Rightarrow> int"
  tr_size :: int
  tr_nodes :: "addr \<rightharpoonup> ('k, 'v) tnode"

text \<open>\<open>*p\<close>, and an assignment to a field of \<open>*p\<close>.\<close>

definition node_at :: "('k, 'v) tree \<Rightarrow> ptr \<Rightarrow> ('k, 'v) tnode option" where
  [c_sem]: "node_at t p = (case p of None \<Rightarrow> None | Some a \<Rightarrow> tr_nodes t a)"

definition node_upd ::
  "('k, 'v) tree \<Rightarrow> ptr \<Rightarrow> (('k, 'v) tnode \<Rightarrow> ('k, 'v) tnode) \<Rightarrow> ('k, 'v) tree option" where
  [c_sem]: "node_upd t p f =
     (case p of None \<Rightarrow> None
      | Some a \<Rightarrow> (case tr_nodes t a of None \<Rightarrow> None
          | Some x \<Rightarrow> Some (t\<lparr>tr_nodes := (tr_nodes t)(a \<mapsto> f x)\<rparr>)))"

definition IS_RED :: "('k, 'v) tree \<Rightarrow> ptr \<Rightarrow> bool option" where
  [c_sem]: "IS_RED t p =
     (if p \<noteq> None then do { x \<leftarrow> node_at t p; Some (tn_color x = RED) } else Some False)"

definition IS_BLACK :: "('k, 'v) tree \<Rightarrow> ptr \<Rightarrow> bool option" where
  [c_sem]: "IS_BLACK t p =
     (if p = None then Some True else do { x \<leftarrow> node_at t p; Some (tn_color x = BLACK) })"

definition set_color :: "('k, 'v) tree \<Rightarrow> ptr \<Rightarrow> color \<Rightarrow> ('k, 'v) tree option" where
  [c_sem]: "set_color t p c = node_upd t p (\<lambda>x. x\<lparr>tn_color := c\<rparr>)"

definition set_parent :: "('k, 'v) tree \<Rightarrow> ptr \<Rightarrow> ptr \<Rightarrow> ('k, 'v) tree option" where
  [c_sem]: "set_parent t p q = node_upd t p (\<lambda>x. x\<lparr>tn_parent := q\<rparr>)"

definition set_left :: "('k, 'v) tree \<Rightarrow> ptr \<Rightarrow> ptr \<Rightarrow> ('k, 'v) tree option" where
  [c_sem]: "set_left t p q = node_upd t p (\<lambda>x. x\<lparr>tn_left := q\<rparr>)"

definition set_right :: "('k, 'v) tree \<Rightarrow> ptr \<Rightarrow> ptr \<Rightarrow> ('k, 'v) tree option" where
  [c_sem]: "set_right t p q = node_upd t p (\<lambda>x. x\<lparr>tn_right := q\<rparr>)"

definition parent_of :: "('k, 'v) tree \<Rightarrow> ptr \<Rightarrow> ptr option" where
  [c_sem]: "parent_of t p = do { x \<leftarrow> node_at t p; Some (tn_parent x) }"

definition left_of :: "('k, 'v) tree \<Rightarrow> ptr \<Rightarrow> ptr option" where
  [c_sem]: "left_of t p = do { x \<leftarrow> node_at t p; Some (tn_left x) }"

definition right_of :: "('k, 'v) tree \<Rightarrow> ptr \<Rightarrow> ptr option" where
  [c_sem]: "right_of t p = do { x \<leftarrow> node_at t p; Some (tn_right x) }"

text \<open>The tests \<open>node == node->parent->left\<close> and \<open>node->parent == g->left\<close>, and their mirrors.\<close>

definition is_left :: "('k, 'v) tree \<Rightarrow> ptr \<Rightarrow> bool option" where
  [c_sem]: "is_left t p = do { q \<leftarrow> parent_of t p; l \<leftarrow> left_of t q; Some (p = l) }"

definition is_right :: "('k, 'v) tree \<Rightarrow> ptr \<Rightarrow> bool option" where
  [c_sem]: "is_right t p = do { q \<leftarrow> parent_of t p; r \<leftarrow> right_of t q; Some (p = r) }"

definition parent_left_of :: "('k, 'v) tree \<Rightarrow> ptr \<Rightarrow> ptr \<Rightarrow> bool option" where
  [c_sem]: "parent_left_of t p g = do { q \<leftarrow> parent_of t p; l \<leftarrow> left_of t g; Some (q = l) }"

definition parent_right_of :: "('k, 'v) tree \<Rightarrow> ptr \<Rightarrow> ptr \<Rightarrow> bool option" where
  [c_sem]: "parent_right_of t p g = do { q \<leftarrow> parent_of t p; r \<leftarrow> right_of t g; Some (q = r) }"

subsection \<open>Relatives\<close>

definition tree_node_grandparent :: "('k, 'v) tree \<Rightarrow> ptr \<Rightarrow> ptr option" where
  [c_sem]: "tree_node_grandparent t node =
     (if node \<noteq> None then do {
        p \<leftarrow> parent_of t node;
        if p \<noteq> None then parent_of t p else Some None }
      else Some None)"

definition tree_node_uncle :: "('k, 'v) tree \<Rightarrow> ptr \<Rightarrow> ptr option" where
  [c_sem]: "tree_node_uncle t node = do {
     g \<leftarrow> tree_node_grandparent t node;
     if g \<noteq> None then do {
       b \<leftarrow> parent_left_of t node g;
       if b then right_of t g else left_of t g }
     else Some None }"

definition tree_node_sibling :: "('k, 'v) tree \<Rightarrow> ptr \<Rightarrow> ptr option" where
  [c_sem]: "tree_node_sibling t node =
     (if node \<noteq> None then do {
        p \<leftarrow> parent_of t node;
        if p \<noteq> None then do {
          b \<leftarrow> is_left t node;
          if b then right_of t p else left_of t p }
        else Some None }
      else Some None)"

partial_function (option) tree_node_max_loop :: "('k, 'v) tree \<Rightarrow> ptr \<Rightarrow> ptr option" where
  "tree_node_max_loop t node = do {
     r \<leftarrow> right_of t node;
     if r \<noteq> None then tree_node_max_loop t r else Some node }"

definition tree_node_max :: "('k, 'v) tree \<Rightarrow> ptr \<Rightarrow> ptr option" where
  [c_sem]: "tree_node_max t node = (if node = None then Some None else tree_node_max_loop t node)"

partial_function (option) tree_node_min_loop :: "('k, 'v) tree \<Rightarrow> ptr \<Rightarrow> ptr option" where
  "tree_node_min_loop t node = do {
     l \<leftarrow> left_of t node;
     if l \<noteq> None then tree_node_min_loop t l else Some node }"

definition tree_node_min :: "('k, 'v) tree \<Rightarrow> ptr \<Rightarrow> ptr option" where
  [c_sem]: "tree_node_min t node = (if node = None then Some None else tree_node_min_loop t node)"

subsection \<open>Rotations\<close>

definition tree_rotate_left :: "('k, 'v) tree \<Rightarrow> ptr \<Rightarrow> ('k, 'v) tree option" where
  [c_sem]: "tree_rotate_left t node = do {
     p \<leftarrow> parent_of t node;
     t \<leftarrow> (if p \<noteq> None then do {
            b \<leftarrow> is_left t node;
            r \<leftarrow> right_of t node;
            if b then set_left t p r else set_right t p r }
          else do {
            r \<leftarrow> right_of t node;
            Some (t\<lparr>tr_root := r\<rparr>) });
     r \<leftarrow> right_of t node;
     p \<leftarrow> parent_of t node;
     t \<leftarrow> set_parent t r p;
     r \<leftarrow> right_of t node;
     t \<leftarrow> set_parent t node r;
     r \<leftarrow> right_of t node;
     rl \<leftarrow> left_of t r;
     t \<leftarrow> set_right t node rl;
     p \<leftarrow> parent_of t node;
     t \<leftarrow> set_left t p node;
     r \<leftarrow> right_of t node;
     if r \<noteq> None then set_parent t r node else Some t }"

definition tree_rotate_right :: "('k, 'v) tree \<Rightarrow> ptr \<Rightarrow> ('k, 'v) tree option" where
  [c_sem]: "tree_rotate_right t node = do {
     p \<leftarrow> parent_of t node;
     t \<leftarrow> (if p \<noteq> None then do {
            b \<leftarrow> is_right t node;
            l \<leftarrow> left_of t node;
            if b then set_right t p l else set_left t p l }
          else do {
            l \<leftarrow> left_of t node;
            Some (t\<lparr>tr_root := l\<rparr>) });
     l \<leftarrow> left_of t node;
     p \<leftarrow> parent_of t node;
     t \<leftarrow> set_parent t l p;
     l \<leftarrow> left_of t node;
     t \<leftarrow> set_parent t node l;
     l \<leftarrow> left_of t node;
     lr \<leftarrow> right_of t l;
     t \<leftarrow> set_left t node lr;
     p \<leftarrow> parent_of t node;
     t \<leftarrow> set_right t p node;
     l \<leftarrow> left_of t node;
     if l \<noteq> None then set_parent t l node else Some t }"

subsection \<open>Insertion\<close>

definition tree_insert5 :: "('k, 'v) tree \<Rightarrow> ptr \<Rightarrow> ('k, 'v) tree option" where
  [c_sem]: "tree_insert5 t node = do {
     g \<leftarrow> tree_node_grandparent t node;
     p \<leftarrow> parent_of t node;
     t \<leftarrow> set_color t p BLACK;
     t \<leftarrow> set_color t g RED;
     b \<leftarrow> c_and (is_left t node) (parent_left_of t node g);
     if b then tree_rotate_right t g
     else do {
       b \<leftarrow> c_and (is_right t node) (parent_right_of t node g);
       if b then tree_rotate_left t g else Some t } }"

definition tree_insert4 :: "('k, 'v) tree \<Rightarrow> ptr \<Rightarrow> ('k, 'v) tree option" where
  [c_sem]: "tree_insert4 t node = do {
     g \<leftarrow> tree_node_grandparent t node;
     b \<leftarrow> c_and (is_right t node) (parent_left_of t node g);
     if b then do {
       p \<leftarrow> parent_of t node;
       t \<leftarrow> tree_rotate_left t p;
       node \<leftarrow> left_of t node;
       tree_insert5 t node }
     else do {
       b \<leftarrow> c_and (is_left t node) (parent_right_of t node g);
       if b then do {
         p \<leftarrow> parent_of t node;
         t \<leftarrow> tree_rotate_right t p;
         node \<leftarrow> right_of t node;
         tree_insert5 t node }
       else tree_insert5 t node } }"

text \<open>
  \<open>tree_insert1\<close>, \<open>tree_insert2\<close> and \<open>tree_insert3\<close> call each other in a cycle; the first argument
  of the latter two is the \<open>tree_insert1\<close> that they call.
\<close>

definition tree_insert3 ::
  "(('k, 'v) tree \<Rightarrow> ptr \<Rightarrow> ('k, 'v) tree option) \<Rightarrow> ('k, 'v) tree \<Rightarrow> ptr \<Rightarrow> ('k, 'v) tree option" where
  [c_sem]: "tree_insert3 insert1 t node = do {
     u \<leftarrow> tree_node_uncle t node;
     b \<leftarrow> IS_RED t u;
     if b then do {
       t \<leftarrow> set_color t u BLACK;
       p \<leftarrow> parent_of t node;
       t \<leftarrow> set_color t p BLACK;
       g \<leftarrow> tree_node_grandparent t node;
       t \<leftarrow> set_color t g RED;
       insert1 t g }
     else tree_insert4 t node }"

definition tree_insert2 ::
  "(('k, 'v) tree \<Rightarrow> ptr \<Rightarrow> ('k, 'v) tree option) \<Rightarrow> ('k, 'v) tree \<Rightarrow> ptr \<Rightarrow> ('k, 'v) tree option" where
  [c_sem]: "tree_insert2 insert1 t node = do {
     p \<leftarrow> parent_of t node;
     b \<leftarrow> IS_BLACK t p;
     if b then Some t else tree_insert3 insert1 t node }"

lemma tree_insert2_mono [partial_function_mono]:
  "mono_option (\<lambda>f. tree_insert2 (\<lambda>t n. f (t, n)) t node)"
  unfolding tree_insert2_def tree_insert3_def
  by (intro bind_mono option.const_mono call_mono if_mono)

partial_function (option) tree_insert1 :: "('k, 'v) tree \<Rightarrow> ptr \<Rightarrow> ('k, 'v) tree option" where
  "tree_insert1 t node = do {
     p \<leftarrow> parent_of t node;
     if p = None then set_color t node BLACK
     else tree_insert2 (\<lambda>t n. tree_insert1 t n) t node }"

text \<open>The variable \<open>node\<close> of \<open>tree_insert\<close> points to a pointer: the root or a child pointer.\<close>

datatype slot = RootSlot | LeftSlot addr | RightSlot addr

fun slot_get :: "('k, 'v) tree \<Rightarrow> slot \<Rightarrow> ptr option" where
  "slot_get t RootSlot = Some (tr_root t)"
| "slot_get t (LeftSlot a) = left_of t (Some a)"
| "slot_get t (RightSlot a) = right_of t (Some a)"

fun slot_set :: "('k, 'v) tree \<Rightarrow> slot \<Rightarrow> ptr \<Rightarrow> ('k, 'v) tree option" where
  "slot_set t RootSlot p = Some (t\<lparr>tr_root := p\<rparr>)"
| "slot_set t (LeftSlot a) p = set_left t (Some a) p"
| "slot_set t (RightSlot a) p = set_right t (Some a) p"

text \<open>The descent ends with the value of an equal key, or with the empty slot and its owner.\<close>

datatype 'v descent = Found 'v | Vacant slot ptr

partial_function (option) tree_insert_loop ::
  "('k, 'v) tree \<Rightarrow> 'k \<Rightarrow> slot \<Rightarrow> ptr \<Rightarrow> 'v descent option" where
  "tree_insert_loop t key node parent = do {
     p \<leftarrow> slot_get t node;
     case p of
       None \<Rightarrow> Some (Vacant node parent)
     | Some a \<Rightarrow> do {
         x \<leftarrow> node_at t p;
         let cmp = tr_cmp t key (tn_key x);
         if cmp < 0 then tree_insert_loop t key (LeftSlot a) p
         else if cmp > 0 then tree_insert_loop t key (RightSlot a) p
         else Some (Found (tn_value x)) } }"

definition tree_node_create :: "'k \<Rightarrow> 'v \<Rightarrow> ('k, 'v) tnode" where
  [c_sem]: "tree_node_create key v =
     \<lparr>tn_parent = None, tn_left = None, tn_right = None, tn_color = RED,
      tn_key = key, tn_value = v\<rparr>"

definition tree_insert ::
  "addr \<Rightarrow> ('k, 'v) tree \<Rightarrow> 'k \<Rightarrow> 'v \<Rightarrow> ('v \<times> ('k, 'v) tree) option" where
  [c_sem]: "tree_insert new t key v = do {
     d \<leftarrow> tree_insert_loop t key RootSlot None;
     case d of
       Found old \<Rightarrow> Some (old, t)
     | Vacant node parent \<Rightarrow> do {
         c_require (tr_nodes t new = None);
         let t = t\<lparr>tr_nodes := (tr_nodes t)(new \<mapsto> tree_node_create key v)\<rparr>;
         t \<leftarrow> slot_set t node (Some new);
         p \<leftarrow> slot_get t node;
         t \<leftarrow> set_parent t p parent;
         p \<leftarrow> slot_get t node;
         t \<leftarrow> set_color t p RED;
         p \<leftarrow> slot_get t node;
         t \<leftarrow> tree_insert1 t p;
         let t = t\<lparr>tr_size := tr_size t + 1\<rparr>;
         Some (v, t) } }"

subsection \<open>Search\<close>

partial_function (option) tree_find_loop :: "('k, 'v) tree \<Rightarrow> 'k \<Rightarrow> ptr \<Rightarrow> ptr option" where
  "tree_find_loop t key node =
     (if node \<noteq> None then do {
        x \<leftarrow> node_at t node;
        let cmp = tr_cmp t key (tn_key x);
        if cmp = 0 then Some node
        else if cmp < 0 then tree_find_loop t key (tn_left x)
        else tree_find_loop t key (tn_right x) }
      else Some node)"

definition tree_find_node :: "('k, 'v) tree \<Rightarrow> 'k \<Rightarrow> ptr option" where
  [c_sem]: "tree_find_node t key = tree_find_loop t key (tr_root t)"

definition tree_find :: "('k, 'v) tree \<Rightarrow> 'k \<Rightarrow> 'v option option" where
  [c_sem]: "tree_find t key = do {
     node \<leftarrow> tree_find_node t key;
     if node \<noteq> None then do { x \<leftarrow> node_at t node; Some (Some (tn_value x)) }
     else Some None }"

definition tree_create :: "('k \<Rightarrow> 'k \<Rightarrow> int) \<Rightarrow> ('k, 'v) tree" where
  [c_sem]: "tree_create cmp =
     \<lparr>tr_root = None, tr_cmp = cmp, tr_size = 0, tr_nodes = Map.empty\<rparr>"

definition tree_size :: "('k, 'v) tree \<Rightarrow> int" where
  [c_sem]: "tree_size t = tr_size t"

subsection \<open>Deletion\<close>

definition tree_delete6 :: "('k, 'v) tree \<Rightarrow> ptr \<Rightarrow> ('k, 'v) tree option" where
  [c_sem]: "tree_delete6 t node = do {
     s \<leftarrow> tree_node_sibling t node;
     p \<leftarrow> parent_of t node;
     x \<leftarrow> node_at t p;
     t \<leftarrow> set_color t s (tn_color x);
     p \<leftarrow> parent_of t node;
     t \<leftarrow> set_color t p BLACK;
     b \<leftarrow> is_left t node;
     if b then do {
       sr \<leftarrow> right_of t s;
       t \<leftarrow> set_color t sr BLACK;
       p \<leftarrow> parent_of t node;
       tree_rotate_left t p }
     else do {
       sl \<leftarrow> left_of t s;
       t \<leftarrow> set_color t sl BLACK;
       p \<leftarrow> parent_of t node;
       tree_rotate_right t p } }"

definition left_is_black :: "('k, 'v) tree \<Rightarrow> ptr \<Rightarrow> bool option" where
  [c_sem]: "left_is_black t s = do { l \<leftarrow> left_of t s; IS_BLACK t l }"

definition right_is_black :: "('k, 'v) tree \<Rightarrow> ptr \<Rightarrow> bool option" where
  [c_sem]: "right_is_black t s = do { r \<leftarrow> right_of t s; IS_BLACK t r }"

definition tree_delete5 :: "('k, 'v) tree \<Rightarrow> ptr \<Rightarrow> ('k, 'v) tree option" where
  [c_sem]: "tree_delete5 t node = do {
     s \<leftarrow> tree_node_sibling t node;
     b \<leftarrow> IS_BLACK t s;
     t \<leftarrow> (if b then do {
            b \<leftarrow> c_and (is_left t node)
                  (c_and (Some (s \<noteq> None))
                    (c_and (right_is_black t s) (do { l \<leftarrow> left_of t s; IS_RED t l })));
            if b then do {
              t \<leftarrow> set_color t s RED;
              l \<leftarrow> left_of t s;
              t \<leftarrow> set_color t l BLACK;
              tree_rotate_right t s }
            else do {
              b \<leftarrow> c_and (is_right t node)
                    (c_and (left_is_black t s) (do { r \<leftarrow> right_of t s; IS_RED t r }));
              if b then do {
                t \<leftarrow> set_color t s RED;
                r \<leftarrow> right_of t s;
                t \<leftarrow> set_color t r BLACK;
                tree_rotate_left t s }
              else Some t } }
          else Some t);
     tree_delete6 t node }"

text \<open>\<open>s && IS_BLACK(s) && IS_BLACK(s->left) && IS_BLACK(s->right)\<close>\<close>

definition all_black :: "('k, 'v) tree \<Rightarrow> ptr \<Rightarrow> bool option" where
  [c_sem]: "all_black t s =
     c_and (Some (s \<noteq> None)) (c_and (IS_BLACK t s) (c_and (left_is_black t s) (right_is_black t s)))"

definition tree_delete4 :: "('k, 'v) tree \<Rightarrow> ptr \<Rightarrow> ('k, 'v) tree option" where
  [c_sem]: "tree_delete4 t node = do {
     s \<leftarrow> tree_node_sibling t node;
     p \<leftarrow> parent_of t node;
     b \<leftarrow> c_and (IS_RED t p) (all_black t s);
     if b then do {
       t \<leftarrow> set_color t s RED;
       p \<leftarrow> parent_of t node;
       set_color t p BLACK }
     else tree_delete5 t node }"

text \<open>\<open>tree_delete1\<close>, \<open>tree_delete2\<close> and \<open>tree_delete3\<close> form a cycle, as the insertion's do.\<close>

definition tree_delete3 ::
  "(('k, 'v) tree \<Rightarrow> ptr \<Rightarrow> ('k, 'v) tree option) \<Rightarrow> ('k, 'v) tree \<Rightarrow> ptr \<Rightarrow> ('k, 'v) tree option" where
  [c_sem]: "tree_delete3 delete1 t node = do {
     s \<leftarrow> tree_node_sibling t node;
     p \<leftarrow> parent_of t node;
     b \<leftarrow> c_and (IS_BLACK t p) (all_black t s);
     if b then do {
       t \<leftarrow> set_color t s RED;
       p \<leftarrow> parent_of t node;
       delete1 t p }
     else tree_delete4 t node }"

definition tree_delete2 ::
  "(('k, 'v) tree \<Rightarrow> ptr \<Rightarrow> ('k, 'v) tree option) \<Rightarrow> ('k, 'v) tree \<Rightarrow> ptr \<Rightarrow> ('k, 'v) tree option" where
  [c_sem]: "tree_delete2 delete1 t node = do {
     s \<leftarrow> tree_node_sibling t node;
     b \<leftarrow> IS_RED t s;
     t \<leftarrow> (if b then do {
            p \<leftarrow> parent_of t node;
            t \<leftarrow> set_color t p RED;
            t \<leftarrow> set_color t s BLACK;
            b \<leftarrow> is_left t node;
            p \<leftarrow> parent_of t node;
            if b then tree_rotate_left t p else tree_rotate_right t p }
          else Some t);
     tree_delete3 delete1 t node }"

lemma tree_delete2_mono [partial_function_mono]:
  "mono_option (\<lambda>f. tree_delete2 (\<lambda>t n. f (t, n)) t node)"
  unfolding tree_delete2_def tree_delete3_def
  by (intro bind_mono option.const_mono call_mono if_mono)

partial_function (option) tree_delete1 :: "('k, 'v) tree \<Rightarrow> ptr \<Rightarrow> ('k, 'v) tree option" where
  "tree_delete1 t node = do {
     p \<leftarrow> parent_of t node;
     if p \<noteq> None then tree_delete2 (\<lambda>t n. tree_delete1 t n) t node else Some t }"

text \<open>\<open>free\<close>: the node is gone; freeing what is not allocated is undefined.\<close>

definition tree_node_destroy :: "('k, 'v) tree \<Rightarrow> ptr \<Rightarrow> ('k, 'v) tree option" where
  [c_sem]: "tree_node_destroy t p =
     (case p of None \<Rightarrow> Some t
      | Some a \<Rightarrow> (case tr_nodes t a of None \<Rightarrow> None
          | Some _ \<Rightarrow> Some (t\<lparr>tr_nodes := (tr_nodes t)(a := None)\<rparr>)))"

text \<open>The copy of key and value from the heir, and the end of \<open>tree_delete\<close>: unlink and free.\<close>

definition tree_copy_entry :: "('k, 'v) tree \<Rightarrow> ptr \<Rightarrow> ptr \<Rightarrow> ('k, 'v) tree option" where
  [c_sem]: "tree_copy_entry t node heir = do {
     h \<leftarrow> node_at t heir;
     node_upd t node (\<lambda>x. x\<lparr>tn_key := tn_key h, tn_value := tn_value h\<rparr>) }"

definition tree_unlink :: "('k, 'v) tree \<Rightarrow> ptr \<Rightarrow> ('k, 'v) tree option" where
  [c_sem]: "tree_unlink t node = do {
     p \<leftarrow> parent_of t node;
     if p = None then Some (t\<lparr>tr_root := None\<rparr>)
     else do {
       b \<leftarrow> is_left t node;
       if b then set_left t p None else set_right t p None } }"

definition tree_delete_heir :: "('k, 'v) tree \<Rightarrow> ptr \<Rightarrow> ptr option" where
  [c_sem]: "tree_delete_heir t node = do {
     x \<leftarrow> node_at t node;
     if tn_left x \<noteq> None then tree_node_max t (tn_left x)
     else if tn_right x \<noteq> None then tree_node_min t (tn_right x)
     else Some None }"

text \<open>The second half of \<open>tree_delete\<close>, for a node with at most one child.\<close>

definition tree_delete_node :: "('k, 'v) tree \<Rightarrow> ptr \<Rightarrow> ('k, 'v) tree option" where
  [c_sem]: "tree_delete_node t node = do {
     x \<leftarrow> node_at t node;
     let heir = (if tn_left x \<noteq> None then tn_left x else tn_right x);
     (t, node) \<leftarrow>
       (if heir \<noteq> None then do {
          t \<leftarrow> tree_copy_entry t node heir;
          b \<leftarrow> IS_BLACK t heir;
          t \<leftarrow> (if b then do {
                 r \<leftarrow> IS_RED t node;
                 if r then set_color t node BLACK else tree_delete1 t node }
               else Some t);
          Some (t, heir) }
        else do {
          b \<leftarrow> IS_BLACK t node;
          t \<leftarrow> (if b then tree_delete1 t node else Some t);
          Some (t, node) });
     t \<leftarrow> tree_unlink t node;
     tree_node_destroy t node }"

definition tree_delete :: "('k, 'v) tree \<Rightarrow> 'k \<Rightarrow> ('v option \<times> ('k, 'v) tree) option" where
  [c_sem]: "tree_delete t key = do {
     node \<leftarrow> tree_find_node t key;
     if node = None then Some (None, t)
     else do {
       x \<leftarrow> node_at t node;
       let v = tn_value x;
       heir \<leftarrow> tree_delete_heir t node;
       (t, node) \<leftarrow>
         (if heir \<noteq> None then do {
            t \<leftarrow> tree_copy_entry t node heir;
            Some (t, heir) }
          else Some (t, node));
       t \<leftarrow> tree_delete_node t node;
       let t = t\<lparr>tr_size := tr_size t - 1\<rparr>;
       Some (Some v, t) } }"

subsection \<open>Folds\<close>

partial_function (option) tree_node_foldl ::
  "('k, 'v) tree \<Rightarrow> ('k \<Rightarrow> 'v \<Rightarrow> 'a \<Rightarrow> 'a) \<Rightarrow> ptr \<Rightarrow> 'a \<Rightarrow> 'a option" where
  "tree_node_foldl t f node acc =
     (if node \<noteq> None then do {
        x \<leftarrow> node_at t node;
        acc \<leftarrow> tree_node_foldl t f (tn_left x) acc;
        let acc = f (tn_key x) (tn_value x) acc;
        tree_node_foldl t f (tn_right x) acc }
      else Some acc)"

partial_function (option) tree_node_foldr ::
  "('k, 'v) tree \<Rightarrow> ('k \<Rightarrow> 'v \<Rightarrow> 'a \<Rightarrow> 'a) \<Rightarrow> ptr \<Rightarrow> 'a \<Rightarrow> 'a option" where
  "tree_node_foldr t f node acc =
     (if node \<noteq> None then do {
        x \<leftarrow> node_at t node;
        acc \<leftarrow> tree_node_foldr t f (tn_right x) acc;
        let acc = f (tn_key x) (tn_value x) acc;
        tree_node_foldr t f (tn_left x) acc }
      else Some acc)"

definition tree_foldl :: "('k, 'v) tree \<Rightarrow> ('k \<Rightarrow> 'v \<Rightarrow> 'a \<Rightarrow> 'a) \<Rightarrow> 'a \<Rightarrow> 'a option" where
  [c_sem]: "tree_foldl t f acc = tree_node_foldl t f (tr_root t) acc"

definition tree_foldr :: "('k, 'v) tree \<Rightarrow> ('k \<Rightarrow> 'v \<Rightarrow> 'a \<Rightarrow> 'a) \<Rightarrow> 'a \<Rightarrow> 'a option" where
  [c_sem]: "tree_foldr t f acc = tree_node_foldr t f (tr_root t) acc"

definition tree_fold :: "('k, 'v) tree \<Rightarrow> ('k \<Rightarrow> 'v \<Rightarrow> 'a \<Rightarrow> 'a) \<Rightarrow> 'a \<Rightarrow> 'a option" where
  [c_sem]: "tree_fold t f acc = tree_foldl t f acc"

subsection \<open>Statistics and the checker\<close>

record tree_info_t =
  ti_size :: int
  ti_height :: int
  ti_min_height :: int
  ti_black_height :: int
  ti_red_number :: int
  ti_black_number :: int

definition tree_info_zero :: tree_info_t where
  [c_sem]: "tree_info_zero = \<lparr>ti_size = 0, ti_height = 0, ti_min_height = 0, ti_black_height = 0,
     ti_red_number = 0, ti_black_number = 0\<rparr>"

partial_function (option) tree_node_info :: "('k, 'v) tree \<Rightarrow> ptr \<Rightarrow> tree_info_t option" where
  "tree_node_info t node =
     (if node \<noteq> None then do {
        x \<leftarrow> node_at t node;
        l \<leftarrow> tree_node_info t (tn_left x);
        r \<leftarrow> tree_node_info t (tn_right x);
        black \<leftarrow> IS_BLACK t node;
        red \<leftarrow> IS_RED t node;
        Some \<lparr>
          ti_size = ti_size l + ti_size r + 1,
          ti_height = (if ti_height l > ti_height r then ti_height l + 1 else ti_height r + 1),
          ti_min_height =
            (if ti_min_height l \<le> ti_min_height r then ti_min_height l + 1 else ti_min_height r + 1),
          ti_black_height =
            (if ti_black_height l > ti_black_height r then ti_black_height l else ti_black_height r)
            + (if black then 1 else 0),
          ti_red_number = (if red then 1 else 0) + ti_red_number l + ti_red_number r,
          ti_black_number = (if black then 1 else 0) + ti_black_number l + ti_black_number r\<rparr> }
      else Some tree_info_zero)"

definition tree_info :: "('k, 'v) tree \<Rightarrow> tree_info_t option" where
  [c_sem]: "tree_info t = tree_node_info t (tr_root t)"

text \<open>\<open>child && child->parent != node\<close>\<close>

definition wrong_parent :: "('k, 'v) tree \<Rightarrow> ptr \<Rightarrow> ptr \<Rightarrow> bool option" where
  [c_sem]: "wrong_parent t child node =
     c_and (Some (child \<noteq> None)) (do { p \<leftarrow> parent_of t child; Some (p \<noteq> node) })"

text \<open>
  \<open>IS_RED(node) && !(IS_BLACK(node->parent) && IS_BLACK(node->left) && IS_BLACK(node->right))\<close>
\<close>

definition red_violation :: "('k, 'v) tree \<Rightarrow> ptr \<Rightarrow> bool option" where
  [c_sem]: "red_violation t node =
     c_and (IS_RED t node)
       (map_option Not
         (c_and (do { p \<leftarrow> parent_of t node; IS_BLACK t p })
           (c_and (left_is_black t node) (right_is_black t node))))"

partial_function (option) tree_node_check_integrity :: "('k, 'v) tree \<Rightarrow> ptr \<Rightarrow> int option" where
  "tree_node_check_integrity t node =
     (if node = None then Some 1
      else do {
        x \<leftarrow> node_at t node;
        b \<leftarrow> wrong_parent t (tn_left x) node;
        if b then Some 0
        else do {
          b \<leftarrow> wrong_parent t (tn_right x) node;
          if b then Some 0
          else do {
            b \<leftarrow> red_violation t node;
            if b then Some 0
            else do {
              l \<leftarrow> tree_node_info t (tn_left x);
              r \<leftarrow> tree_node_info t (tn_right x);
              if ti_black_height l \<noteq> ti_black_height r then Some 0
              else do {
                let height = (if ti_height l > ti_height r then ti_height l + 1 else ti_height r + 1);
                let min_height =
                  (if ti_min_height l \<le> ti_min_height r then ti_min_height l + 1
                   else ti_min_height r + 1);
                if \<not> height \<le> min_height * 2 then Some 0
                else do {
                  i \<leftarrow> tree_node_check_integrity t (tn_left x);
                  if i \<noteq> 0 then do {
                    j \<leftarrow> tree_node_check_integrity t (tn_right x);
                    Some (if j \<noteq> 0 then 1 else 0) }
                  else Some 0 } } } } } })"

definition tree_check_integrity :: "('k, 'v) tree \<Rightarrow> int option" where
  [c_sem]: "tree_check_integrity t = do {
     b \<leftarrow> IS_BLACK t (tr_root t);
     if \<not> b then Some 0 else tree_node_check_integrity t (tr_root t) }"

subsection \<open>Destruction\<close>

text \<open>
  The result is the tree without the freed nodes, and the values in the order in which the
  destructor was called on them.
\<close>

partial_function (option) tree_destroy_subtree ::
  "('k, 'v) tree \<Rightarrow> ptr \<Rightarrow> (('k, 'v) tree \<times> 'v list) option" where
  "tree_destroy_subtree t node = do {
     x \<leftarrow> node_at t node;
     (t, vs) \<leftarrow> (if tn_left x \<noteq> None then tree_destroy_subtree t (tn_left x) else Some (t, []));
     x \<leftarrow> node_at t node;
     (t, ws) \<leftarrow> (if tn_right x \<noteq> None then tree_destroy_subtree t (tn_right x) else Some (t, []));
     x \<leftarrow> node_at t node;
     t \<leftarrow> tree_node_destroy t node;
     Some (t, vs @ ws @ [tn_value x]) }"

definition tree_destroy :: "('k, 'v) tree \<Rightarrow> (('k, 'v) tree \<times> 'v list) option" where
  [c_sem]: "tree_destroy t =
     (if tr_root t \<noteq> None then tree_destroy_subtree t (tr_root t) else Some (t, []))"

end
