(* ===== verification/RbShape.thy ===== *)
theory RbShape
  imports RbTree
begin

section \<open>Shapes of the red-black tree\<close>

text \<open>
  A shape is the tree as a value, with the address of every node; a context is the path from a
  node up to the root, innermost frame first. \<open>conc\<close> gives the state of the code's tree that has a
  given shape. The lemmas state what the pointer operations do as equations between such states:
  each reads or rewrites the shape around one node, whatever the context.
\<close>

subsection \<open>Shapes and contexts\<close>

datatype ('k, 'v) shape = Lf | Nd addr color "('k, 'v) shape" 'k 'v "('k, 'v) shape"

datatype ('k, 'v) frame =
    LeftOf addr color 'k 'v "('k, 'v) shape"
  | RightOf addr color "('k, 'v) shape" 'k 'v

type_synonym ('k, 'v) zipper = "('k, 'v) frame list"

fun fill :: "('k, 'v) frame \<Rightarrow> ('k, 'v) shape \<Rightarrow> ('k, 'v) shape" where
  "fill (LeftOf a c k v r) s = Nd a c s k v r"
| "fill (RightOf a c l k v) s = Nd a c l k v s"

fun plug :: "('k, 'v) zipper \<Rightarrow> ('k, 'v) shape \<Rightarrow> ('k, 'v) shape" where
  "plug [] s = s"
| "plug (f # fs) s = plug fs (fill f s)"

fun ref :: "('k, 'v) shape \<Rightarrow> ptr" where
  "ref Lf = None"
| "ref (Nd a c l k v r) = Some a"

fun faddr :: "('k, 'v) frame \<Rightarrow> addr" where
  "faddr (LeftOf a c k v r) = a"
| "faddr (RightOf a c l k v) = a"

fun cref :: "('k, 'v) zipper \<Rightarrow> ptr" where
  "cref [] = None"
| "cref (f # fs) = Some (faddr f)"

text \<open>Addresses and entries in order; in a context, those before and after the hole.\<close>

fun addrs :: "('k, 'v) shape \<Rightarrow> addr list" where
  "addrs Lf = []"
| "addrs (Nd a c l k v r) = addrs l @ a # addrs r"

fun entries :: "('k, 'v) shape \<Rightarrow> ('k \<times> 'v) list" where
  "entries Lf = []"
| "entries (Nd a c l k v r) = entries l @ (k, v) # entries r"

fun addrs_before :: "('k, 'v) zipper \<Rightarrow> addr list" where
  "addrs_before [] = []"
| "addrs_before (LeftOf a c k v r # fs) = addrs_before fs"
| "addrs_before (RightOf a c l k v # fs) = addrs_before fs @ addrs l @ [a]"

fun addrs_after :: "('k, 'v) zipper \<Rightarrow> addr list" where
  "addrs_after [] = []"
| "addrs_after (LeftOf a c k v r # fs) = a # addrs r @ addrs_after fs"
| "addrs_after (RightOf a c l k v # fs) = addrs_after fs"

fun entries_before :: "('k, 'v) zipper \<Rightarrow> ('k \<times> 'v) list" where
  "entries_before [] = []"
| "entries_before (LeftOf a c k v r # fs) = entries_before fs"
| "entries_before (RightOf a c l k v # fs) = entries_before fs @ entries l @ [(k, v)]"

fun entries_after :: "('k, 'v) zipper \<Rightarrow> ('k \<times> 'v) list" where
  "entries_after [] = []"
| "entries_after (LeftOf a c k v r # fs) = (k, v) # entries r @ entries_after fs"
| "entries_after (RightOf a c l k v # fs) = entries_after fs"

lemma fill_addrs: "addrs_before fs @ addrs (fill f s) @ addrs_after fs =
    addrs_before (f # fs) @ addrs s @ addrs_after (f # fs)"
  by (cases f) simp_all

lemma plug_addrs [simp]: "addrs (plug fs s) = addrs_before fs @ addrs s @ addrs_after fs"
  by (induction fs s rule: plug.induct) (simp, simp only: plug.simps fill_addrs)

lemma fill_entries: "entries_before fs @ entries (fill f s) @ entries_after fs =
    entries_before (f # fs) @ entries s @ entries_after (f # fs)"
  by (cases f) simp_all

lemma plug_entries [simp]:
  "entries (plug fs s) = entries_before fs @ entries s @ entries_after fs"
  by (induction fs s rule: plug.induct) (simp, simp only: plug.simps fill_entries)

lemma plug_append: "plug (fs @ gs) s = plug gs (plug fs s)"
  by (induction fs arbitrary: s) simp_all

lemma ref_fill [simp]: "ref (fill f s) = Some (faddr f)"
  by (cases f) simp_all

lemma ref_None [simp]: "ref s = None \<longleftrightarrow> s = Lf" "None = ref s \<longleftrightarrow> s = Lf"
  by (cases s; simp)+

lemma ref_Some: "ref s = Some a \<Longrightarrow> a \<in> set (addrs s)"
  by (cases s) auto

lemma ref_notin [simp]:
  "a \<notin> set (addrs s) \<Longrightarrow> ref s \<noteq> Some a"
  "a \<notin> set (addrs s) \<Longrightarrow> Some a \<noteq> ref s"
  by (cases s; auto)+

text \<open>Distinctness of addresses, kept as a predicate that is not taken apart.\<close>

definition dist :: "addr list \<Rightarrow> bool" where
  "dist as = distinct as"

subsection \<open>The store of a shape\<close>

definition mk_node :: "ptr \<Rightarrow> ptr \<Rightarrow> ptr \<Rightarrow> color \<Rightarrow> 'k \<Rightarrow> 'v \<Rightarrow> ('k, 'v) tnode" where
  "mk_node p l r c k v = \<lparr>tn_parent = p, tn_left = l, tn_right = r, tn_color = c,
     tn_key = k, tn_value = v\<rparr>"

lemma mk_node_simps [simp]:
  "tn_parent (mk_node p l r c k v) = p"
  "tn_left (mk_node p l r c k v) = l"
  "tn_right (mk_node p l r c k v) = r"
  "tn_color (mk_node p l r c k v) = c"
  "tn_key (mk_node p l r c k v) = k"
  "tn_value (mk_node p l r c k v) = v"
  "(mk_node p l r c k v)\<lparr>tn_parent := q\<rparr> = mk_node q l r c k v"
  "(mk_node p l r c k v)\<lparr>tn_left := q\<rparr> = mk_node p q r c k v"
  "(mk_node p l r c k v)\<lparr>tn_right := q\<rparr> = mk_node p l q c k v"
  "(mk_node p l r c k v)\<lparr>tn_color := c'\<rparr> = mk_node p l r c' k v"
  "(mk_node p l r c k v)\<lparr>tn_key := k', tn_value := v'\<rparr> = mk_node p l r c k' v'"
  by (simp_all add: mk_node_def)

fun store :: "ptr \<Rightarrow> ('k, 'v) shape \<Rightarrow> addr \<rightharpoonup> ('k, 'v) tnode" where
  "store p Lf = Map.empty"
| "store p (Nd a c l k v r) =
     (store (Some a) l ++ store (Some a) r)(a \<mapsto> mk_node p (ref l) (ref r) c k v)"

definition conc :: "('k \<Rightarrow> 'k \<Rightarrow> int) \<Rightarrow> int \<Rightarrow> ('k, 'v) shape \<Rightarrow> ('k, 'v) tree" where
  "conc cmp n s = \<lparr>tr_root = ref s, tr_cmp = cmp, tr_size = n, tr_nodes = store None s\<rparr>"

lemma conc_simps [simp]:
  "tr_root (conc cmp n s) = ref s"
  "tr_cmp (conc cmp n s) = cmp"
  "tr_size (conc cmp n s) = n"
  "(conc cmp n s)\<lparr>tr_size := m\<rparr> = conc cmp m s"
  by (simp_all add: conc_def)

lemma dom_store [simp]: "dom (store p s) = set (addrs s)"
  by (induction s arbitrary: p) auto

text \<open>The same as a predicate on stores, which frames: updates elsewhere do not matter.\<close>

fun tree_at :: "(addr \<rightharpoonup> ('k, 'v) tnode) \<Rightarrow> ptr \<Rightarrow> ('k, 'v) shape \<Rightarrow> bool" where
  "tree_at m p Lf = True"
| "tree_at m p (Nd a c l k v r) \<longleftrightarrow>
     m a = Some (mk_node p (ref l) (ref r) c k v) \<and> tree_at m (Some a) l \<and> tree_at m (Some a) r"

fun ctx_at :: "(addr \<rightharpoonup> ('k, 'v) tnode) \<Rightarrow> ptr \<Rightarrow> ('k, 'v) zipper \<Rightarrow> bool" where
  "ctx_at m h [] = True"
| "ctx_at m h (LeftOf a c k v r # fs) \<longleftrightarrow>
     m a = Some (mk_node (cref fs) h (ref r) c k v) \<and> tree_at m (Some a) r \<and> ctx_at m (Some a) fs"
| "ctx_at m h (RightOf a c l k v # fs) \<longleftrightarrow>
     m a = Some (mk_node (cref fs) (ref l) h c k v) \<and> tree_at m (Some a) l \<and> ctx_at m (Some a) fs"

lemma tree_at_plug:
  "tree_at m None (plug fs s) \<longleftrightarrow> ctx_at m (ref s) fs \<and> tree_at m (cref fs) s"
proof (induction fs arbitrary: s)
  case (Cons f fs)
  then show ?case by (cases f) auto
qed simp

lemma tree_at_cong: "(\<And>a. a \<in> set (addrs s) \<Longrightarrow> m a = m' a) \<Longrightarrow> tree_at m p s = tree_at m' p s"
  by (induction s arbitrary: p) auto

lemma tree_at_upd [simp]: "a \<notin> set (addrs s) \<Longrightarrow> tree_at (m(a := x)) p s = tree_at m p s"
  by (rule tree_at_cong) auto

lemma tree_at_if [simp]:
  "a \<notin> set (addrs s) \<Longrightarrow> tree_at (\<lambda>b. if b = a then x else m b) p s = tree_at m p s"
  by (rule tree_at_cong) auto

lemma ctx_at_cong:
  "(\<And>a. a \<in> set (addrs_before fs) \<union> set (addrs_after fs) \<Longrightarrow> m a = m' a) \<Longrightarrow>
   ctx_at m h fs = ctx_at m' h fs"
proof (induction fs arbitrary: h)
  case (Cons f fs)
  show ?case
  proof (cases f)
    case (LeftOf a c k v r)
    have "tree_at m (Some a) r = tree_at m' (Some a) r"
      by (rule tree_at_cong) (use Cons.prems LeftOf in auto)
    then show ?thesis using Cons LeftOf by auto
  next
    case (RightOf a c l k v)
    have "tree_at m (Some a) l = tree_at m' (Some a) l"
      by (rule tree_at_cong) (use Cons.prems RightOf in auto)
    then show ?thesis using Cons RightOf by auto
  qed
qed simp

lemma ctx_at_upd [simp]:
  "a \<notin> set (addrs_before fs) \<Longrightarrow> a \<notin> set (addrs_after fs) \<Longrightarrow>
   ctx_at (m(a := x)) h fs = ctx_at m h fs"
  by (rule ctx_at_cong) auto

lemma store_add [simp]:
  "a \<notin> set (addrs s) \<Longrightarrow> (m ++ store p s) a = m a"
  "a \<in> set (addrs s) \<Longrightarrow> (m ++ store p s) a = store p s a"
  by (simp_all add: map_add_dom_app_simps)

lemma store_at: "distinct (addrs s) \<Longrightarrow> tree_at (store p s) p s"
proof (induction s arbitrary: p)
  case (Nd a c l k v r)
  have "tree_at (store p (Nd a c l k v r)) (Some a) l = tree_at (store (Some a) l) (Some a) l"
  proof (rule tree_at_cong)
    fix x
    assume "x \<in> set (addrs l)"
    then have "x \<noteq> a" "x \<notin> set (addrs r)" using Nd.prems by auto
    then show "store p (Nd a c l k v r) x = store (Some a) l x" by simp
  qed
  moreover have "tree_at (store p (Nd a c l k v r)) (Some a) r = tree_at (store (Some a) r) (Some a) r"
    by (rule tree_at_cong) (use Nd.prems in auto)
  ultimately show ?case using Nd by simp
qed simp

lemma store_unique:
  assumes "tree_at m p s" and "distinct (addrs s)" and "a \<in> set (addrs s)"
  shows "store p s a = m a"
  using assms
proof (induction s arbitrary: p)
  case (Nd b c l k v r)
  consider "a = b" | "a \<in> set (addrs l)" "a \<noteq> b" "a \<notin> set (addrs r)"
    | "a \<in> set (addrs r)" "a \<noteq> b" "a \<notin> set (addrs l)"
    using Nd.prems by auto
  then show ?case
  proof cases
    case 2
    then show ?thesis using Nd by simp
  next
    case 3
    then show ?thesis using Nd by simp
  qed (use Nd.prems in simp)
qed simp

text \<open>A state represents a shape; then it is the state \<open>conc\<close> gives.\<close>

definition rep :: "('k, 'v) tree \<Rightarrow> ('k, 'v) shape \<Rightarrow> bool" where
  "rep t s \<longleftrightarrow> tr_root t = ref s \<and> tree_at (tr_nodes t) None s \<and> dom (tr_nodes t) = set (addrs s)"

lemma rep_conc: "dist (addrs s) \<Longrightarrow> rep (conc cmp n s) s"
  by (simp add: rep_def conc_def store_at dist_def)

lemma rep_eq_conc:
  assumes "rep t s" and "dist (addrs s)"
  shows "t = conc (tr_cmp t) (tr_size t) s"
proof -
  have "tr_nodes t a = store None s a" for a
  proof (cases "a \<in> set (addrs s)")
    case True
    then show ?thesis using assms store_unique [of "tr_nodes t" None s a] by (simp add: rep_def dist_def)
  next
    case False
    then have "a \<notin> dom (tr_nodes t)" "a \<notin> dom (store None s)" using assms by (simp_all add: rep_def)
    then show ?thesis by (metis domIff)
  qed
  then have "tr_nodes t = store None s" by (rule ext)
  then show ?thesis using assms(1) by (simp add: conc_def rep_def)
qed

subsection \<open>Reading and writing a node\<close>

lemma rep_plug:
  "rep t (plug fs s) \<longleftrightarrow> tr_root t = ref (plug fs s) \<and> ctx_at (tr_nodes t) (ref s) fs \<and>
     tree_at (tr_nodes t) (cref fs) s \<and> dom (tr_nodes t) = set (addrs (plug fs s))"
  unfolding rep_def tree_at_plug by blast

lemma node_at_conc:
  assumes "dist (addrs (plug fs (Nd a c l k v r)))"
  shows "node_at (conc cmp n (plug fs (Nd a c l k v r))) (Some a) =
     Some (mk_node (cref fs) (ref l) (ref r) c k v)"
  using rep_conc [OF assms, of cmp n] by (simp add: rep_plug node_at_def)

lemma node_upd_conc:
  assumes dist: "dist (addrs (plug fs (Nd a c l k v r)))"
    and f: "\<And>p q p'. f (mk_node p q p' c k v) = mk_node p q p' c' k' v'"
  shows "node_upd (conc cmp n (plug fs (Nd a c l k v r))) (Some a) f =
     Some (conc cmp n (plug fs (Nd a c' l k' v' r)))"
proof -
  let ?t = "conc cmp n (plug fs (Nd a c l k v r))"
  let ?t' = "?t\<lparr>tr_nodes := (tr_nodes ?t)(a \<mapsto> mk_node (cref fs) (ref l) (ref r) c' k' v')\<rparr>"
  have rep: "rep ?t (plug fs (Nd a c l k v r))" by (rule rep_conc [OF dist])
  have "ref (plug fs (Nd a c' l k' v' r)) = ref (plug fs (Nd a c l k v r))"
    by (cases fs rule: rev_cases) (simp_all add: plug_append)
  then have "rep ?t' (plug fs (Nd a c' l k' v' r))"
    using rep dist by (auto simp: rep_plug dist_def)
  then have "?t' = conc (tr_cmp ?t') (tr_size ?t') (plug fs (Nd a c' l k' v' r))"
    by (rule rep_eq_conc) (use dist in simp)
  moreover have "node_upd ?t (Some a) f = Some ?t'"
    using rep f by (simp add: rep_plug node_upd_def)
  ultimately show ?thesis by simp
qed

lemma set_color_conc:
  "dist (addrs (plug fs (Nd a c l k v r))) \<Longrightarrow>
   set_color (conc cmp n (plug fs (Nd a c l k v r))) (Some a) c' =
   Some (conc cmp n (plug fs (Nd a c' l k v r)))"
  unfolding set_color_def by (rule node_upd_conc) simp_all

subsection \<open>Rotations\<close>

lemmas walk_defs = node_at_def node_upd_def parent_of_def left_of_def right_of_def is_left_def
  is_right_def parent_left_of_def parent_right_of_def set_parent_def set_left_def set_right_def

lemma rotate_left_rep:
  assumes "rep t (plug fs (Nd a c x k v (Nd b d m k' v' y)))"
    and "dist (addrs (plug fs (Nd a c x k v (Nd b d m k' v' y))))"
  shows "\<exists>t'. tree_rotate_left t (Some a) = Some t' \<and>
     rep t' (plug fs (Nd b d (Nd a c x k v m) k' v' y)) \<and>
     tr_cmp t' = tr_cmp t \<and> tr_size t' = tr_size t"
proof (cases fs)
  case Nil
  then show ?thesis
    using assms unfolding rep_plug by (cases m) (auto simp: tree_rotate_left_def walk_defs dist_def)
next
  case (Cons f fs')
  have root: "ref (plug fs' (fill f s)) = ref (plug fs' (fill f s'))" for s s'
    by (cases fs' rule: rev_cases) (simp_all add: plug_append)
  show ?thesis
  proof (cases f)
    case (LeftOf p cp kp vp r)
    show ?thesis
      using assms Cons LeftOf root unfolding rep_plug
      by (cases m) (auto simp: tree_rotate_left_def walk_defs dist_def)
  next
    case (RightOf p cp l kp vp)
    show ?thesis
      using assms Cons RightOf root unfolding rep_plug
      by (cases m) (auto simp: tree_rotate_left_def walk_defs dist_def)
  qed
qed

lemma rotate_right_rep:
  assumes "rep t (plug fs (Nd a c (Nd b d y k' v' m) k v x))"
    and "dist (addrs (plug fs (Nd a c (Nd b d y k' v' m) k v x)))"
  shows "\<exists>t'. tree_rotate_right t (Some a) = Some t' \<and>
     rep t' (plug fs (Nd b d y k' v' (Nd a c m k v x))) \<and>
     tr_cmp t' = tr_cmp t \<and> tr_size t' = tr_size t"
proof (cases fs)
  case Nil
  then show ?thesis
    using assms unfolding rep_plug by (cases m) (auto simp: tree_rotate_right_def walk_defs dist_def)
next
  case (Cons f fs')
  have root: "ref (plug fs' (fill f s)) = ref (plug fs' (fill f s'))" for s s'
    by (cases fs' rule: rev_cases) (simp_all add: plug_append)
  show ?thesis
  proof (cases f)
    case (LeftOf p cp kp vp r)
    show ?thesis
      using assms Cons LeftOf root unfolding rep_plug
      by (cases m) (auto simp: tree_rotate_right_def walk_defs dist_def)
  next
    case (RightOf p cp l kp vp)
    show ?thesis
      using assms Cons RightOf root unfolding rep_plug
      by (cases m) (auto simp: tree_rotate_right_def walk_defs dist_def)
  qed
qed

lemma rotate_left_conc:
  assumes "dist (addrs (plug fs (Nd a c x k v (Nd b d m k' v' y))))"
  shows "tree_rotate_left (conc cmp n (plug fs (Nd a c x k v (Nd b d m k' v' y)))) (Some a) =
     Some (conc cmp n (plug fs (Nd b d (Nd a c x k v m) k' v' y)))"
proof -
  obtain t' where t': "tree_rotate_left (conc cmp n (plug fs (Nd a c x k v (Nd b d m k' v' y))))
      (Some a) = Some t'" "rep t' (plug fs (Nd b d (Nd a c x k v m) k' v' y))"
    "tr_cmp t' = cmp" "tr_size t' = n"
    using rotate_left_rep [OF rep_conc [OF assms] assms, of cmp n] by auto
  then show ?thesis
    using rep_eq_conc [OF t'(2)] assms by simp
qed

lemma rotate_right_conc:
  assumes "dist (addrs (plug fs (Nd a c (Nd b d y k' v' m) k v x)))"
  shows "tree_rotate_right (conc cmp n (plug fs (Nd a c (Nd b d y k' v' m) k v x))) (Some a) =
     Some (conc cmp n (plug fs (Nd b d y k' v' (Nd a c m k v x))))"
proof -
  obtain t' where t': "tree_rotate_right (conc cmp n (plug fs (Nd a c (Nd b d y k' v' m) k v x)))
      (Some a) = Some t'" "rep t' (plug fs (Nd b d y k' v' (Nd a c m k v x)))"
    "tr_cmp t' = cmp" "tr_size t' = n"
    using rotate_right_rep [OF rep_conc [OF assms] assms, of cmp n] by auto
  then show ?thesis
    using rep_eq_conc [OF t'(2)] assms by simp
qed

text \<open>The colour of a subtree; \<open>NULL\<close> counts as black.\<close>

fun shade :: "('k, 'v) shape \<Rightarrow> color" where
  "shade Lf = BLACK"
| "shade (Nd a c l k v r) = c"

lemma is_red_conc:
  assumes "dist (addrs (plug fs s))"
  shows "IS_RED (conc cmp n (plug fs s)) (ref s) = Some (shade s = RED)"
proof (cases s)
  case (Nd a c l k v r)
  then show ?thesis using node_at_conc [of fs a c l k v r cmp n] assms by (simp add: IS_RED_def)
qed (simp add: IS_RED_def)

lemma is_black_conc:
  assumes "dist (addrs (plug fs s))"
  shows "IS_BLACK (conc cmp n (plug fs s)) (ref s) = Some (shade s = BLACK)"
proof (cases s)
  case (Nd a c l k v r)
  then show ?thesis using node_at_conc [of fs a c l k v r cmp n] assms by (simp add: IS_BLACK_def)
qed (simp add: IS_BLACK_def)

lemma color_test_Some:
  "IS_RED t (Some a) = do { x \<leftarrow> node_at t (Some a); Some (tn_color x = RED) }"
  "IS_BLACK t (Some a) = do { x \<leftarrow> node_at t (Some a); Some (tn_color x = BLACK) }"
  by (simp_all add: IS_RED_def IS_BLACK_def)

subsection \<open>The same for nodes further down\<close>

text \<open>
  The operations on a child and on a grandchild of the node in the hole, as rules for rewriting.
\<close>

lemmas at_l =
  node_at_conc [of "LeftOf g cg kg vg rg # fs" for g cg kg vg rg fs, simplified]
  set_color_conc [of "LeftOf g cg kg vg rg # fs" for g cg kg vg rg fs, simplified]
  rotate_left_conc [of "LeftOf g cg kg vg rg # fs" for g cg kg vg rg fs, simplified]
  rotate_right_conc [of "LeftOf g cg kg vg rg # fs" for g cg kg vg rg fs, simplified]
  is_red_conc [of "LeftOf g cg kg vg rg # fs" for g cg kg vg rg fs, simplified]
  is_black_conc [of "LeftOf g cg kg vg rg # fs" for g cg kg vg rg fs, simplified]

lemmas at_r =
  node_at_conc [of "RightOf g cg lg kg vg # fs" for g cg lg kg vg fs, simplified]
  set_color_conc [of "RightOf g cg lg kg vg # fs" for g cg lg kg vg fs, simplified]
  rotate_left_conc [of "RightOf g cg lg kg vg # fs" for g cg lg kg vg fs, simplified]
  rotate_right_conc [of "RightOf g cg lg kg vg # fs" for g cg lg kg vg fs, simplified]
  is_red_conc [of "RightOf g cg lg kg vg # fs" for g cg lg kg vg fs, simplified]
  is_black_conc [of "RightOf g cg lg kg vg # fs" for g cg lg kg vg fs, simplified]

lemmas at_ll =
  node_at_conc [of "LeftOf g cg kg vg rg # LeftOf h ch kh vh rh # fs" for g cg kg vg rg h ch kh vh rh fs, simplified]
  set_color_conc [of "LeftOf g cg kg vg rg # LeftOf h ch kh vh rh # fs" for g cg kg vg rg h ch kh vh rh fs, simplified]
  rotate_left_conc [of "LeftOf g cg kg vg rg # LeftOf h ch kh vh rh # fs" for g cg kg vg rg h ch kh vh rh fs, simplified]
  rotate_right_conc [of "LeftOf g cg kg vg rg # LeftOf h ch kh vh rh # fs" for g cg kg vg rg h ch kh vh rh fs, simplified]
  is_red_conc [of "LeftOf g cg kg vg rg # LeftOf h ch kh vh rh # fs" for g cg kg vg rg h ch kh vh rh fs, simplified]
  is_black_conc [of "LeftOf g cg kg vg rg # LeftOf h ch kh vh rh # fs" for g cg kg vg rg h ch kh vh rh fs, simplified]

lemmas at_lr =
  node_at_conc [of "RightOf g cg lg kg vg # LeftOf h ch kh vh rh # fs" for g cg lg kg vg h ch kh vh rh fs, simplified]
  set_color_conc [of "RightOf g cg lg kg vg # LeftOf h ch kh vh rh # fs" for g cg lg kg vg h ch kh vh rh fs, simplified]
  rotate_left_conc [of "RightOf g cg lg kg vg # LeftOf h ch kh vh rh # fs" for g cg lg kg vg h ch kh vh rh fs, simplified]
  rotate_right_conc [of "RightOf g cg lg kg vg # LeftOf h ch kh vh rh # fs" for g cg lg kg vg h ch kh vh rh fs, simplified]
  is_red_conc [of "RightOf g cg lg kg vg # LeftOf h ch kh vh rh # fs" for g cg lg kg vg h ch kh vh rh fs, simplified]
  is_black_conc [of "RightOf g cg lg kg vg # LeftOf h ch kh vh rh # fs" for g cg lg kg vg h ch kh vh rh fs, simplified]

lemmas at_rl =
  node_at_conc [of "LeftOf g cg kg vg rg # RightOf h ch lh kh vh # fs" for g cg kg vg rg h ch lh kh vh fs, simplified]
  set_color_conc [of "LeftOf g cg kg vg rg # RightOf h ch lh kh vh # fs" for g cg kg vg rg h ch lh kh vh fs, simplified]
  rotate_left_conc [of "LeftOf g cg kg vg rg # RightOf h ch lh kh vh # fs" for g cg kg vg rg h ch lh kh vh fs, simplified]
  rotate_right_conc [of "LeftOf g cg kg vg rg # RightOf h ch lh kh vh # fs" for g cg kg vg rg h ch lh kh vh fs, simplified]
  is_red_conc [of "LeftOf g cg kg vg rg # RightOf h ch lh kh vh # fs" for g cg kg vg rg h ch lh kh vh fs, simplified]
  is_black_conc [of "LeftOf g cg kg vg rg # RightOf h ch lh kh vh # fs" for g cg kg vg rg h ch lh kh vh fs, simplified]

lemmas at_rr =
  node_at_conc [of "RightOf g cg lg kg vg # RightOf h ch lh kh vh # fs" for g cg lg kg vg h ch lh kh vh fs, simplified]
  set_color_conc [of "RightOf g cg lg kg vg # RightOf h ch lh kh vh # fs" for g cg lg kg vg h ch lh kh vh fs, simplified]
  rotate_left_conc [of "RightOf g cg lg kg vg # RightOf h ch lh kh vh # fs" for g cg lg kg vg h ch lh kh vh fs, simplified]
  rotate_right_conc [of "RightOf g cg lg kg vg # RightOf h ch lh kh vh # fs" for g cg lg kg vg h ch lh kh vh fs, simplified]
  is_red_conc [of "RightOf g cg lg kg vg # RightOf h ch lh kh vh # fs" for g cg lg kg vg h ch lh kh vh fs, simplified]
  is_black_conc [of "RightOf g cg lg kg vg # RightOf h ch lh kh vh # fs" for g cg lg kg vg h ch lh kh vh fs, simplified]

lemmas at_top = node_at_conc set_color_conc rotate_left_conc rotate_right_conc is_red_conc
  is_black_conc

lemmas at_simps = color_test_Some at_top at_l at_r at_ll at_lr at_rl at_rr

end
