(* ===== verification/RbInsert.thy ===== *)
theory RbInsert
  imports RbShape
begin

section \<open>Red-black invariants and insertion\<close>

text \<open>
  The red-black invariants on shapes and on contexts, and the correctness of \<open>tree_insert\<close>: the
  chain \<open>tree_insert1\<close> to \<open>tree_insert5\<close> ends, follows no bad pointer and restores the invariants,
  and the descent finds the place of the key.
\<close>

subsection \<open>The invariants\<close>

text \<open>Every path has \<open>n\<close> black nodes; no red node has a red child.\<close>

fun bal :: "nat \<Rightarrow> ('k, 'v) shape \<Rightarrow> bool" where
  "bal n Lf \<longleftrightarrow> n = 0"
| "bal n (Nd a c l k v r) \<longleftrightarrow>
     (if c = BLACK then 0 < n \<and> bal (n - 1) l \<and> bal (n - 1) r else bal n l \<and> bal n r)"

fun nored :: "('k, 'v) shape \<Rightarrow> bool" where
  "nored Lf \<longleftrightarrow> True"
| "nored (Nd a c l k v r) \<longleftrightarrow>
     (c = RED \<longrightarrow> shade l = BLACK \<and> shade r = BLACK) \<and> nored l \<and> nored r"

definition rb :: "('k, 'v) shape \<Rightarrow> bool" where
  "rb s \<longleftrightarrow> shade s = BLACK \<and> nored s \<and> (\<exists>n. bal n s)"

text \<open>
  The same for a context: \<open>cbal n\<close> asks for a subtree of black height \<open>n\<close> in the hole, and \<open>cok\<close>
  leaves out the edge between the hole and the innermost frame, whose colour is \<open>above\<close>. What is
  above the root counts as red, so that a root has to be black.
\<close>

fun cbal :: "nat \<Rightarrow> ('k, 'v) zipper \<Rightarrow> bool" where
  "cbal n [] \<longleftrightarrow> True"
| "cbal n (LeftOf a c k v r # fs) \<longleftrightarrow> bal n r \<and> cbal (if c = BLACK then Suc n else n) fs"
| "cbal n (RightOf a c l k v # fs) \<longleftrightarrow> bal n l \<and> cbal (if c = BLACK then Suc n else n) fs"

fun above :: "('k, 'v) zipper \<Rightarrow> color" where
  "above [] = RED"
| "above (LeftOf a c k v r # fs) = c"
| "above (RightOf a c l k v # fs) = c"

fun cok :: "('k, 'v) zipper \<Rightarrow> bool" where
  "cok [] \<longleftrightarrow> True"
| "cok (LeftOf a c k v r # fs) \<longleftrightarrow>
     nored r \<and> (c = RED \<longrightarrow> shade r = BLACK \<and> above fs = BLACK) \<and> cok fs"
| "cok (RightOf a c l k v # fs) \<longleftrightarrow>
     nored l \<and> (c = RED \<longrightarrow> shade l = BLACK \<and> above fs = BLACK) \<and> cok fs"

lemma color_cases [simp]: "c \<noteq> RED \<longleftrightarrow> c = BLACK" "c \<noteq> BLACK \<longleftrightarrow> c = RED"
  by (cases c; simp)+

lemma bal_unique: "bal n s \<Longrightarrow> bal m s \<Longrightarrow> m = n"
proof (induction s arbitrary: n m)
  case (Nd a c l k v r)
  show ?case
  proof (cases c)
    case RED
    then show ?thesis using Nd.IH(1) [of n m] Nd.prems by simp
  next
    case BLACK
    then have "m - 1 = n - 1" "0 < m" "0 < n"
      using Nd.IH(1) [of "n - 1" "m - 1"] Nd.prems by simp_all
    then show ?thesis by linarith
  qed
qed simp

lemma bal_plug: "(\<exists>N. bal N (plug fs s)) \<longleftrightarrow> (\<exists>n. bal n s \<and> cbal n fs)"
proof (induction fs arbitrary: s)
  case (Cons f fs)
  show ?case
  proof (cases f)
    case (LeftOf a c k v r)
    have "(\<exists>N. bal N (plug (f # fs) s)) \<longleftrightarrow> (\<exists>n. bal n (Nd a c s k v r) \<and> cbal n fs)"
      using Cons LeftOf by simp
    also have "\<dots> \<longleftrightarrow> (\<exists>n. bal n s \<and> cbal n (f # fs))"
      using LeftOf by (cases c) (auto intro: exI [of _ "Suc _"] simp: gr0_conv_Suc)
    finally show ?thesis .
  next
    case (RightOf a c l k v)
    have "(\<exists>N. bal N (plug (f # fs) s)) \<longleftrightarrow> (\<exists>n. bal n (Nd a c l k v s) \<and> cbal n fs)"
      using Cons RightOf by simp
    also have "\<dots> \<longleftrightarrow> (\<exists>n. bal n s \<and> cbal n (f # fs))"
      using RightOf by (cases c) (auto intro: exI [of _ "Suc _"] simp: gr0_conv_Suc)
    finally show ?thesis .
  qed
qed simp

lemma nored_plug:
  "nored (plug fs s) \<and> shade (plug fs s) = BLACK \<longleftrightarrow>
   nored s \<and> cok fs \<and> (above fs = RED \<longrightarrow> shade s = BLACK)"
proof (induction fs arbitrary: s)
  case (Cons f fs)
  then show ?case by (cases f) auto
qed auto

lemma rb_plug:
  "rb (plug fs s) \<longleftrightarrow>
   nored s \<and> cok fs \<and> (above fs = RED \<longrightarrow> shade s = BLACK) \<and> (\<exists>n. bal n s \<and> cbal n fs)"
  unfolding rb_def using bal_plug [of fs s] nored_plug [of fs s] by blast

subsection \<open>Insertion below a black uncle\<close>

lemmas read_defs = parent_of_def left_of_def right_of_def is_left_def is_right_def
  parent_left_of_def parent_right_of_def

lemmas family_defs = tree_node_grandparent_def tree_node_uncle_def tree_node_sibling_def

text \<open>The four positions of a node under its grandparent; the node and its parent are red.\<close>

lemma insert4_left_left:
  assumes "dist (addrs (plug fs (Nd g cg (Nd p cp (Nd a ca x k v y) kp vp z) kg vg u)))"
  shows "tree_insert4 (conc cmp n (plug fs (Nd g cg (Nd p cp (Nd a ca x k v y) kp vp z) kg vg u)))
      (Some a) =
    Some (conc cmp n (plug fs (Nd p BLACK (Nd a ca x k v y) kp vp (Nd g RED z kg vg u))))"
  using assms assms [unfolded dist_def]
  by (simp add: tree_insert4_def tree_insert5_def family_defs read_defs at_simps)

lemma insert4_left_right:
  assumes "dist (addrs (plug fs (Nd g cg (Nd p cp z kp vp (Nd a ca x k v y)) kg vg u)))"
  shows "tree_insert4 (conc cmp n (plug fs (Nd g cg (Nd p cp z kp vp (Nd a ca x k v y)) kg vg u)))
      (Some a) =
    Some (conc cmp n (plug fs (Nd a BLACK (Nd p cp z kp vp x) k v (Nd g RED y kg vg u))))"
  using assms assms [unfolded dist_def]
  by (simp add: tree_insert4_def tree_insert5_def family_defs read_defs at_simps)

lemma insert4_right_left:
  assumes "dist (addrs (plug fs (Nd g cg u kg vg (Nd p cp (Nd a ca x k v y) kp vp z))))"
  shows "tree_insert4 (conc cmp n (plug fs (Nd g cg u kg vg (Nd p cp (Nd a ca x k v y) kp vp z))))
      (Some a) =
    Some (conc cmp n (plug fs (Nd a BLACK (Nd g RED u kg vg x) k v (Nd p cp y kp vp z))))"
  using assms assms [unfolded dist_def]
  by (simp add: tree_insert4_def tree_insert5_def family_defs read_defs at_simps)

lemma insert4_right_right:
  assumes "dist (addrs (plug fs (Nd g cg u kg vg (Nd p cp z kp vp (Nd a ca x k v y)))))"
  shows "tree_insert4 (conc cmp n (plug fs (Nd g cg u kg vg (Nd p cp z kp vp (Nd a ca x k v y)))))
      (Some a) =
    Some (conc cmp n (plug fs (Nd p BLACK (Nd g RED u kg vg z) kp vp (Nd a ca x k v y))))"
  using assms assms [unfolded dist_def]
  by (simp add: tree_insert4_def tree_insert5_def family_defs read_defs at_simps)

subsection \<open>One round of the fixup\<close>

text \<open>With a black uncle the round ends in \<open>tree_insert4\<close>, with a red one it recolours and moves up.\<close>

lemma insert1_left_left_black:
  assumes "dist (addrs (plug fs (Nd g cg (Nd p RED (Nd a ca x k v y) kp vp z) kg vg u)))"
    and "shade u = BLACK"
  shows "tree_insert1 (conc cmp n (plug fs (Nd g cg (Nd p RED (Nd a ca x k v y) kp vp z) kg vg u)))
      (Some a) =
    tree_insert4 (conc cmp n (plug fs (Nd g cg (Nd p RED (Nd a ca x k v y) kp vp z) kg vg u))) (Some a)"
  using assms assms(1) [unfolded dist_def]
  by (subst tree_insert1.simps)
    (simp add: tree_insert2_def tree_insert3_def family_defs read_defs at_simps)

lemma insert1_left_left_red:
  assumes "dist (addrs (plug fs (Nd g cg (Nd p RED (Nd a ca x k v y) kp vp z) kg vg (Nd ua RED ul ku vu ur))))"
  shows "tree_insert1 (conc cmp n (plug fs (Nd g cg (Nd p RED (Nd a ca x k v y) kp vp z) kg vg (Nd ua RED ul ku vu ur))))
      (Some a) =
    tree_insert1 (conc cmp n (plug fs (Nd g RED (Nd p BLACK (Nd a ca x k v y) kp vp z) kg vg (Nd ua BLACK ul ku vu ur))))
      (Some g)"
  using assms assms(1) [unfolded dist_def]
  by (subst tree_insert1.simps)
    (simp add: tree_insert2_def tree_insert3_def family_defs read_defs at_simps)

lemma insert1_left_right_black:
  assumes "dist (addrs (plug fs (Nd g cg (Nd p RED z kp vp (Nd a ca x k v y)) kg vg u)))"
    and "shade u = BLACK"
  shows "tree_insert1 (conc cmp n (plug fs (Nd g cg (Nd p RED z kp vp (Nd a ca x k v y)) kg vg u)))
      (Some a) =
    tree_insert4 (conc cmp n (plug fs (Nd g cg (Nd p RED z kp vp (Nd a ca x k v y)) kg vg u))) (Some a)"
  using assms assms(1) [unfolded dist_def]
  by (subst tree_insert1.simps)
    (simp add: tree_insert2_def tree_insert3_def family_defs read_defs at_simps)

lemma insert1_left_right_red:
  assumes "dist (addrs (plug fs (Nd g cg (Nd p RED z kp vp (Nd a ca x k v y)) kg vg (Nd ua RED ul ku vu ur))))"
  shows "tree_insert1 (conc cmp n (plug fs (Nd g cg (Nd p RED z kp vp (Nd a ca x k v y)) kg vg (Nd ua RED ul ku vu ur))))
      (Some a) =
    tree_insert1 (conc cmp n (plug fs (Nd g RED (Nd p BLACK z kp vp (Nd a ca x k v y)) kg vg (Nd ua BLACK ul ku vu ur))))
      (Some g)"
  using assms assms(1) [unfolded dist_def]
  by (subst tree_insert1.simps)
    (simp add: tree_insert2_def tree_insert3_def family_defs read_defs at_simps)

lemma insert1_right_left_black:
  assumes "dist (addrs (plug fs (Nd g cg u kg vg (Nd p RED (Nd a ca x k v y) kp vp z))))"
    and "shade u = BLACK"
  shows "tree_insert1 (conc cmp n (plug fs (Nd g cg u kg vg (Nd p RED (Nd a ca x k v y) kp vp z))))
      (Some a) =
    tree_insert4 (conc cmp n (plug fs (Nd g cg u kg vg (Nd p RED (Nd a ca x k v y) kp vp z)))) (Some a)"
  using assms assms(1) [unfolded dist_def]
  by (subst tree_insert1.simps)
    (simp add: tree_insert2_def tree_insert3_def family_defs read_defs at_simps)

lemma insert1_right_left_red:
  assumes "dist (addrs (plug fs (Nd g cg (Nd ua RED ul ku vu ur) kg vg (Nd p RED (Nd a ca x k v y) kp vp z))))"
  shows "tree_insert1 (conc cmp n (plug fs (Nd g cg (Nd ua RED ul ku vu ur) kg vg (Nd p RED (Nd a ca x k v y) kp vp z))))
      (Some a) =
    tree_insert1 (conc cmp n (plug fs (Nd g RED (Nd ua BLACK ul ku vu ur) kg vg (Nd p BLACK (Nd a ca x k v y) kp vp z))))
      (Some g)"
  using assms assms(1) [unfolded dist_def]
  by (subst tree_insert1.simps)
    (simp add: tree_insert2_def tree_insert3_def family_defs read_defs at_simps)

lemma insert1_right_right_black:
  assumes "dist (addrs (plug fs (Nd g cg u kg vg (Nd p RED z kp vp (Nd a ca x k v y)))))"
    and "shade u = BLACK"
  shows "tree_insert1 (conc cmp n (plug fs (Nd g cg u kg vg (Nd p RED z kp vp (Nd a ca x k v y)))))
      (Some a) =
    tree_insert4 (conc cmp n (plug fs (Nd g cg u kg vg (Nd p RED z kp vp (Nd a ca x k v y))))) (Some a)"
  using assms assms(1) [unfolded dist_def]
  by (subst tree_insert1.simps)
    (simp add: tree_insert2_def tree_insert3_def family_defs read_defs at_simps)

lemma insert1_right_right_red:
  assumes "dist (addrs (plug fs (Nd g cg (Nd ua RED ul ku vu ur) kg vg (Nd p RED z kp vp (Nd a ca x k v y)))))"
  shows "tree_insert1 (conc cmp n (plug fs (Nd g cg (Nd ua RED ul ku vu ur) kg vg (Nd p RED z kp vp (Nd a ca x k v y)))))
      (Some a) =
    tree_insert1 (conc cmp n (plug fs (Nd g RED (Nd ua BLACK ul ku vu ur) kg vg (Nd p BLACK z kp vp (Nd a ca x k v y)))))
      (Some g)"
  using assms assms(1) [unfolded dist_def]
  by (subst tree_insert1.simps)
    (simp add: tree_insert2_def tree_insert3_def family_defs read_defs at_simps)

subsection \<open>The whole fixup\<close>

text \<open>What a round does to the subtree at the grandparent, given by the two frames above the node.\<close>

fun blacken :: "('k, 'v) shape \<Rightarrow> ('k, 'v) shape" where
  "blacken Lf = Lf"
| "blacken (Nd a c l k v r) = Nd a BLACK l k v r"

fun sib :: "('k, 'v) frame \<Rightarrow> ('k, 'v) shape" where
  "sib (LeftOf a c k v r) = r"
| "sib (RightOf a c l k v) = l"

fun recolor :: "('k, 'v) frame \<Rightarrow> ('k, 'v) shape \<Rightarrow> ('k, 'v) shape" where
  "recolor (LeftOf g c k v u) t = Nd g RED (blacken t) k v (blacken u)"
| "recolor (RightOf g c u k v) t = Nd g RED (blacken u) k v (blacken t)"

fun rotated :: "('k, 'v) frame \<Rightarrow> ('k, 'v) frame \<Rightarrow> ('k, 'v) shape \<Rightarrow> ('k, 'v) shape" where
  "rotated f g Lf = Lf"
| "rotated (LeftOf p cp kp vp z) (LeftOf g cg kg vg u) s = Nd p BLACK s kp vp (Nd g RED z kg vg u)"
| "rotated (RightOf p cp z kp vp) (LeftOf g cg kg vg u) (Nd a c x k v y) =
     Nd a BLACK (Nd p cp z kp vp x) k v (Nd g RED y kg vg u)"
| "rotated (LeftOf p cp kp vp z) (RightOf g cg u kg vg) (Nd a c x k v y) =
     Nd a BLACK (Nd g RED u kg vg x) k v (Nd p cp y kp vp z)"
| "rotated (RightOf p cp z kp vp) (RightOf g cg u kg vg) s = Nd p BLACK (Nd g RED u kg vg z) kp vp s"

lemmas insert1_red = insert1_left_left_red insert1_left_right_red insert1_right_left_red
  insert1_right_right_red
lemmas insert1_black = insert1_left_left_black insert1_left_right_black insert1_right_left_black
  insert1_right_right_black
lemmas insert4_all = insert4_left_left insert4_left_right insert4_right_left insert4_right_right

lemma insert1_round_red:
  assumes "dist (addrs (plug (f # g # fs) s))" and "s = Nd a c l k v r" and "above [f] = RED"
    and "shade (sib g) = RED"
  shows "tree_insert1 (conc cmp n (plug (f # g # fs) s)) (Some a) =
    tree_insert1 (conc cmp n (plug fs (recolor g (fill f s)))) (Some (faddr g))"
proof -
  obtain ua ul ku vu ur where "sib g = Nd ua RED ul ku vu ur" using assms(4) by (cases "sib g") auto
  then show ?thesis using assms(1-3) by (cases f; cases g) (simp_all add: insert1_red)
qed

lemma insert1_round_black:
  assumes "dist (addrs (plug (f # g # fs) s))" and "s = Nd a c l k v r" and "above [f] = RED"
    and "shade (sib g) = BLACK"
  shows "tree_insert1 (conc cmp n (plug (f # g # fs) s)) (Some a) =
    Some (conc cmp n (plug fs (rotated f g s)))"
  using assms by (cases f; cases g) (simp_all add: insert1_black insert4_all)

lemma blacken_simps [simp]:
  "addrs (blacken s) = addrs s" "entries (blacken s) = entries s" "shade (blacken s) = BLACK"
  "nored s \<Longrightarrow> nored (blacken s)"
  by (cases s; simp)+

lemma bal_blacken: "shade s = RED \<Longrightarrow> bal m s \<Longrightarrow> bal (Suc m) (blacken s)"
  by (cases s) auto

lemma recolor_simps:
  "addrs_before fs @ addrs (recolor g (fill f s)) @ addrs_after fs = addrs (plug (f # g # fs) s)"
  "entries_before fs @ entries (recolor g (fill f s)) @ entries_after fs =
     entries (plug (f # g # fs) s)"
  by (cases f; cases g; simp)+

lemma rotated_simps:
  assumes "s = Nd a c l k v r"
  shows "addrs_before fs @ addrs (rotated f g s) @ addrs_after fs = addrs (plug (f # g # fs) s)"
    and "entries_before fs @ entries (rotated f g s) @ entries_after fs = entries (plug (f # g # fs) s)"
  using assms by (cases f; cases g; simp)+

lemma recolor_inv:
  assumes "nored s" "bal m s" "above [f] = RED" "shade (sib g) = RED" "cok (f # g # fs)"
    "cbal m (f # g # fs)"
  shows "nored (recolor g (fill f s)) \<and> cok fs \<and> bal (Suc m) (recolor g (fill f s)) \<and>
    cbal (Suc m) fs"
  using assms by (cases f; cases g) (auto simp: bal_blacken)

lemma rotated_inv:
  assumes "s = Nd a RED l k v r" "nored s" "bal m s" "above [f] = RED" "shade (sib g) = BLACK"
    "cok (f # g # fs)" "cbal m (f # g # fs)"
  shows "rb (plug fs (rotated f g s))"
  using assms unfolding rb_plug by (cases f; cases g) (auto intro!: exI [of _ "Suc m"])

definition fixed :: "('k, 'v) shape \<Rightarrow> ('k, 'v) shape \<Rightarrow> bool" where
  "fixed s s' \<longleftrightarrow> rb s' \<and> addrs s' = addrs s \<and> entries s' = entries s"

lemma insert1_root:
  "dist (addrs (Nd a c l k v r)) \<Longrightarrow>
   tree_insert1 (conc cmp n (Nd a c l k v r)) (Some a) = Some (conc cmp n (Nd a BLACK l k v r))"
  using node_at_conc [of "[]" a c l k v r cmp n] set_color_conc [of "[]" a c l k v r cmp n BLACK]
  by (subst tree_insert1.simps) (simp add: parent_of_def)

lemma insert1_black_parent:
  assumes "dist (addrs (plug (f # fs) (Nd a c l k v r)))" and "above (f # fs) = BLACK"
  shows "tree_insert1 (conc cmp n (plug (f # fs) (Nd a c l k v r))) (Some a) =
    Some (conc cmp n (plug (f # fs) (Nd a c l k v r)))"
  using assms
  by (cases f; subst tree_insert1.simps) (simp_all add: tree_insert2_def parent_of_def at_simps)

lemma tree_insert1_ok:
  assumes "dist (addrs (plug fs s))" and "s = Nd a RED l k v r" and "nored s" and "cok fs"
    and "bal m s" and "cbal m fs"
  shows "\<exists>s'. tree_insert1 (conc cmp n (plug fs s)) (Some a) = Some (conc cmp n s') \<and>
    fixed (plug fs s) s'"
  using assms
proof (induction "length fs" arbitrary: fs s a l k v r m rule: less_induct)
  case less
  note d = less.prems(1) and s = less.prems(2)
  show ?case
  proof (cases fs)
    case Nil
    have "fixed s (Nd a BLACK l k v r)"
      using less.prems Nil by (auto simp: fixed_def rb_def intro: exI [of _ "Suc m"])
    then show ?thesis using insert1_root [of a RED l k v r cmp n] d s Nil by auto
  next
    case (Cons f fs1)
    show ?thesis
    proof (cases "above fs")
      case BLACK
      have "rb (plug fs s)" using less.prems BLACK unfolding rb_plug by auto
      then show ?thesis
        using insert1_black_parent [of f fs1 a RED l k v r cmp n] d s Cons BLACK
        by (auto simp: fixed_def)
    next
      case RED
      have "above fs1 = BLACK" using RED less.prems(4) Cons by (cases f) auto
      then obtain g fs2 where fs1: "fs1 = g # fs2" by (cases fs1) auto
      have red: "above [f] = RED" using RED Cons by (cases f) simp_all
      have prems: "dist (addrs (plug (f # g # fs2) s))" "nored s" "cok (f # g # fs2)" "bal m s"
        "cbal m (f # g # fs2)"
        using less.prems Cons fs1 by simp_all
      show ?thesis
      proof (cases "shade (sib g)")
        case BLACK
        have "fixed (plug fs s) (plug fs2 (rotated f g s))"
          using rotated_inv [OF s prems(2,4) red BLACK prems(3,5)]
            rotated_simps [OF s, of fs2 f g] Cons fs1
          by (simp add: fixed_def)
        then show ?thesis
          using insert1_round_black [OF prems(1) s red BLACK] Cons fs1 by auto
      next
        case RED
        let ?s = "recolor g (fill f s)"
        obtain l' k' v' r' where s': "?s = Nd (faddr g) RED l' k' v' r'" by (cases g) auto
        have inv: "nored ?s" "cok fs2" "bal (Suc m) ?s" "cbal (Suc m) fs2"
          using recolor_inv [OF prems(2,4) red RED prems(3,5)] by auto
        have same: "addrs (plug fs2 ?s) = addrs (plug fs s)" "entries (plug fs2 ?s) = entries (plug fs s)"
          using recolor_simps [of fs2 g f s] Cons fs1 by simp_all
        have "\<exists>s'. tree_insert1 (conc cmp n (plug fs2 ?s)) (Some (faddr g)) = Some (conc cmp n s') \<and>
            fixed (plug fs2 ?s) s'"
          by (rule less.hyps [OF _ _ s' inv]) (use same d Cons fs1 in simp_all)
        then show ?thesis
          using insert1_round_red [OF prems(1) s red RED] Cons fs1 same by (auto simp: fixed_def)
      qed
    qed
  qed
qed

subsection \<open>The descent\<close>

fun slot_of :: "('k, 'v) zipper \<Rightarrow> slot" where
  "slot_of [] = RootSlot"
| "slot_of (LeftOf a c k v r # fs) = LeftSlot a"
| "slot_of (RightOf a c l k v # fs) = RightSlot a"

lemma slot_get_conc:
  assumes "dist (addrs (plug fs s))"
  shows "slot_get (conc cmp n (plug fs s)) (slot_of fs) = Some (ref s)"
proof (cases fs)
  case (Cons f fs')
  then show ?thesis
    using assms by (cases f) (simp_all add: left_of_def right_of_def at_simps)
qed simp

text \<open>
  The entries in the order of the keys. The comparison function of the code is a total preorder
  (locale \<open>comparator\<close>, as for the heap).
\<close>

definition sorted_entries :: "('k \<Rightarrow> 'k \<Rightarrow> int) \<Rightarrow> ('k \<times> 'v) list \<Rightarrow> bool" where
  "sorted_entries cmp = sorted_wrt (\<lambda>x y. cmp (fst x) (fst y) < 0)"

text \<open>Where the search for a key ends: at a node with an equal key or at an empty place.\<close>

fun descend :: "('k \<Rightarrow> 'k \<Rightarrow> int) \<Rightarrow> 'k \<Rightarrow> ('k, 'v) zipper \<Rightarrow> ('k, 'v) shape \<Rightarrow>
    ('k, 'v) zipper \<times> ('k, 'v) shape" where
  "descend cmp key fs Lf = (fs, Lf)"
| "descend cmp key fs (Nd a c l k v r) =
     (if cmp key k < 0 then descend cmp key (LeftOf a c k v r # fs) l
      else if cmp key k > 0 then descend cmp key (RightOf a c l k v # fs) r
      else (fs, Nd a c l k v r))"

lemma descend_plug: "descend cmp key fs s = (gs, s') \<Longrightarrow> plug gs s' = plug fs s"
  by (induction cmp key fs s rule: descend.induct) (auto split: if_splits)

lemma insert_loop_conc:
  assumes "dist (addrs (plug fs s))"
  shows "tree_insert_loop (conc cmp n (plug fs s)) key (slot_of fs) (cref fs) =
    (case descend cmp key fs s of
       (gs, Lf) \<Rightarrow> Some (Vacant (slot_of gs) (cref gs))
     | (gs, Nd a c l k v r) \<Rightarrow> Some (Found v))"
  using assms
proof (induction s arbitrary: fs)
  case Lf
  then show ?case
    using slot_get_conc [OF Lf, of cmp n] by (subst tree_insert_loop.simps) simp
next
  case (Nd a c l k v r)
  have node: "node_at (conc cmp n (plug fs (Nd a c l k v r))) (Some a) =
      Some (mk_node (cref fs) (ref l) (ref r) c k v)"
    by (rule node_at_conc [OF Nd.prems])
  have "slot_get (conc cmp n (plug fs (Nd a c l k v r))) (slot_of fs) = Some (Some a)"
    using slot_get_conc [OF Nd.prems, of cmp n] by simp
  then show ?case
    using Nd.IH(1) [of "LeftOf a c k v r # fs"] Nd.IH(2) [of "RightOf a c l k v # fs"] Nd.prems node
    by (subst tree_insert_loop.simps) (simp add: Let_def)
qed

subsection \<open>Insertion as a whole\<close>

lemma tree_insert_vacant:
  assumes dist: "dist (addrs (plug fs Lf))" and new: "new \<notin> set (addrs (plug fs Lf))"
    and d: "descend cmp key [] (plug fs Lf) = (fs, Lf)"
  shows "tree_insert new (conc cmp n (plug fs Lf)) key v = do {
     t \<leftarrow> tree_insert1 (conc cmp n (plug fs (Nd new RED Lf key v Lf))) (Some new);
     Some (v, t\<lparr>tr_size := tr_size t + 1\<rparr>) }"
proof -
  let ?t = "conc cmp n (plug fs Lf)" and ?s = "plug fs (Nd new RED Lf key v Lf)"
  let ?t1 = "?t\<lparr>tr_nodes := (tr_nodes ?t)(new \<mapsto> tree_node_create key v)\<rparr>"
  have loop: "tree_insert_loop ?t key RootSlot None = Some (Vacant (slot_of fs) (cref fs))"
    using insert_loop_conc [of "[]" "plug fs Lf" cmp n key] dist d by simp
  have rep: "rep ?t (plug fs Lf)" by (rule rep_conc [OF dist])
  have fresh: "tr_nodes ?t new = None"
    using rep new unfolding rep_def by (metis domIff)
  have create: "tree_node_create key v = mk_node None None None RED key v"
    by (simp add: tree_node_create_def mk_node_def)
  have root: "ref (plug gs (fill f s)) = ref (plug gs (fill f s'))" for gs f and s s' :: "('a, 'b) shape"
    by (cases gs rule: rev_cases) (simp_all add: plug_append)
  have "\<exists>t2 t3. slot_set ?t1 (slot_of fs) (Some new) = Some t2 \<and>
      slot_get t2 (slot_of fs) = Some (Some new) \<and>
      set_parent t2 (Some new) (cref fs) = Some t3 \<and> slot_get t3 (slot_of fs) = Some (Some new) \<and>
      set_color t3 (Some new) RED = Some t3 \<and>
      rep t3 ?s \<and> tr_cmp t3 = cmp \<and> tr_size t3 = n"
  proof (cases fs)
    case Nil
    then show ?thesis
      using rep unfolding rep_plug by (simp add: walk_defs create set_color_def rep_def)
  next
    case (Cons f gs)
    show ?thesis
    proof (cases f)
      case (LeftOf a c k v r)
      then show ?thesis
        using rep fresh new dist Cons root [of gs f] unfolding rep_plug
        by (auto simp: walk_defs create set_color_def dist_def)
    next
      case (RightOf a c l k v)
      then show ?thesis
        using rep fresh new dist Cons root [of gs f] unfolding rep_plug
        by (auto simp: walk_defs create set_color_def dist_def)
    qed
  qed
  then obtain t2 t3 where t: "slot_set ?t1 (slot_of fs) (Some new) = Some t2"
      "slot_get t2 (slot_of fs) = Some (Some new)"
      "set_parent t2 (Some new) (cref fs) = Some t3" "slot_get t3 (slot_of fs) = Some (Some new)"
      "set_color t3 (Some new) RED = Some t3"
      and t3: "rep t3 ?s" "tr_cmp t3 = cmp" "tr_size t3 = n"
    by blast
  have "t3 = conc cmp n ?s"
    using rep_eq_conc [OF t3(1)] t3(2,3) dist new by (simp add: dist_def)
  then show ?thesis
    using loop fresh t unfolding tree_insert_def by (simp add: Let_def)
qed

subsection \<open>Where the search ends\<close>

abbreviation below :: "('k \<Rightarrow> 'k \<Rightarrow> int) \<Rightarrow> 'k \<Rightarrow> ('k \<times> 'v) \<Rightarrow> bool" where
  "below cmp key e \<equiv> cmp key (fst e) > 0"

abbreviation beyond :: "('k \<Rightarrow> 'k \<Rightarrow> int) \<Rightarrow> 'k \<Rightarrow> ('k \<times> 'v) \<Rightarrow> bool" where
  "beyond cmp key e \<equiv> cmp key (fst e) < 0"

context comparator
begin

lemma below_trans: "cmp key k > 0 \<Longrightarrow> cmp k' k < 0 \<Longrightarrow> cmp key k' > 0"
  using cmp_less_trans [of k' k key] cmp_swap [of k' key] cmp_swap [of k key] by auto

lemma beyond_trans: "cmp key k < 0 \<Longrightarrow> cmp k k' < 0 \<Longrightarrow> cmp key k' < 0"
  using cmp_less_trans [of key k k'] by simp

lemma descend_position:
  assumes "descend cmp key fs s = (gs, s')" and "sorted_entries cmp (entries (plug fs s))"
    and "\<forall>e \<in> set (entries_before fs). below cmp key e"
    and "\<forall>e \<in> set (entries_after fs). beyond cmp key e"
  shows "(\<forall>e \<in> set (entries_before gs). below cmp key e) \<and>
    (\<forall>e \<in> set (entries_after gs). beyond cmp key e) \<and>
    (case s' of Lf \<Rightarrow> True | Nd a c l k v r \<Rightarrow> cmp key k = 0 \<and>
       (\<forall>e \<in> set (entries l). below cmp key e) \<and> (\<forall>e \<in> set (entries r). beyond cmp key e))"
  using assms
proof (induction s arbitrary: fs)
  case Lf
  then show ?case by auto
next
  case (Nd a c l k v r)
  have sorted: "\<forall>e \<in> set (entries l). cmp (fst e) k < 0"
    using Nd.prems(2) by (auto simp: sorted_entries_def sorted_wrt_append)
  have sorted': "\<forall>e \<in> set (entries r). cmp k (fst e) < 0"
    using Nd.prems(2) by (auto simp: sorted_entries_def sorted_wrt_append)
  consider "cmp key k < 0" | "cmp key k > 0" | "cmp key k = 0" by linarith
  then show ?case
  proof cases
    case 1
    show ?thesis
    proof (rule Nd.IH(1))
      show "descend cmp key (LeftOf a c k v r # fs) l = (gs, s')" using 1 Nd.prems(1) by simp
      show "\<forall>e \<in> set (entries_after (LeftOf a c k v r # fs)). beyond cmp key e"
        using 1 Nd.prems(4) sorted' by (auto intro: beyond_trans)
    qed (use Nd.prems in auto)
  next
    case 2
    show ?thesis
    proof (rule Nd.IH(2))
      show "descend cmp key (RightOf a c l k v # fs) r = (gs, s')" using 2 Nd.prems(1) by simp
      show "\<forall>e \<in> set (entries_before (RightOf a c l k v # fs)). below cmp key e"
        using 2 Nd.prems(3) sorted by (auto intro: below_trans)
    qed (use Nd.prems in auto)
  next
    case 3
    then have "cmp k key = 0" using cmp_swap [of key k] cmp_swap [of k key] by linarith
    then have "\<forall>e \<in> set (entries l). below cmp key e"
      using sorted cmp_less_trans cmp_swap by fastforce
    moreover have "\<forall>e \<in> set (entries r). beyond cmp key e"
      using 3 sorted' cmp_le_less_trans [of key k] by simp
    ultimately show ?thesis using 3 Nd.prems by auto
  qed
qed

end

text \<open>The entry of a key, and the effect of an insertion on the entries.\<close>

definition lookup :: "('k \<Rightarrow> 'k \<Rightarrow> int) \<Rightarrow> 'k \<Rightarrow> ('k \<times> 'v) list \<Rightarrow> 'v option" where
  "lookup cmp key es = map_option snd (find (\<lambda>e. cmp key (fst e) = 0) es)"

definition insert_entry ::
  "('k \<Rightarrow> 'k \<Rightarrow> int) \<Rightarrow> 'k \<Rightarrow> 'v \<Rightarrow> ('k \<times> 'v) list \<Rightarrow> ('k \<times> 'v) list" where
  "insert_entry cmp key v es =
     takeWhile (below cmp key) es @ (key, v) # dropWhile (below cmp key) es"

lemma find_none: "(\<And>e. e \<in> set es \<Longrightarrow> \<not> P e) \<Longrightarrow> find P (es @ fs) = find P fs"
  by (induction es) auto

lemma while_split:
  assumes "\<And>e. e \<in> set es \<Longrightarrow> P e" and "\<And>e. e \<in> set fs \<Longrightarrow> \<not> P e"
  shows "takeWhile P (es @ fs) = es" "dropWhile P (es @ fs) = fs"
  using assms by (induction es; cases fs; auto)+

lemma split_lookup:
  assumes "\<forall>e \<in> set es. below cmp key e" and "\<forall>e \<in> set fs. beyond cmp key e"
  shows "lookup cmp key (es @ fs) = None"
    and "insert_entry cmp key v (es @ fs) = es @ (key, v) # fs"
    and "cmp key k = 0 \<Longrightarrow> lookup cmp key (es @ (k, w) # fs) = Some w"
proof -
  show "lookup cmp key (es @ fs) = None"
    using assms by (fastforce simp: lookup_def find_None_iff)
  show "insert_entry cmp key v (es @ fs) = es @ (key, v) # fs"
    using while_split [of es "below cmp key" fs] assms by (fastforce simp: insert_entry_def)
  show "lookup cmp key (es @ (k, w) # fs) = Some w" if "cmp key k = 0"
    using assms(1) that find_none [of es "\<lambda>e. cmp key (fst e) = 0" "(k, w) # fs"]
    by (fastforce simp: lookup_def)
qed

text \<open>The state of a tree with shape \<open>s\<close> as every operation leaves it.\<close>

definition tree_ok :: "('k \<Rightarrow> 'k \<Rightarrow> int) \<Rightarrow> ('k, 'v) tree \<Rightarrow> ('k, 'v) shape \<Rightarrow> bool" where
  "tree_ok cmp t s \<longleftrightarrow> t = conc cmp (int (length (entries s))) s \<and> distinct (addrs s) \<and> rb s \<and>
     sorted_entries cmp (entries s)"

lemma sorted_insert:
  assumes "comparator cmp" and "sorted_entries cmp (es @ fs)"
    and "\<forall>e \<in> set es. below cmp key e" and "\<forall>e \<in> set fs. beyond cmp key e"
  shows "sorted_entries cmp (es @ (key, v) # fs)"
  using assms(2-4) comparator.cmp_swap [OF assms(1)]
  by (auto simp: sorted_entries_def sorted_wrt_append)

lemma tree_insert_ok:
  assumes ok: "tree_ok cmp t s" and cmp: "comparator cmp" and new: "new \<notin> set (addrs s)"
  shows "\<exists>t' s'. tree_insert new t key v =
      Some (case lookup cmp key (entries s) of None \<Rightarrow> v | Some w \<Rightarrow> w, t') \<and> tree_ok cmp t' s' \<and>
    (case lookup cmp key (entries s) of
       None \<Rightarrow> entries s' = insert_entry cmp key v (entries s) \<and> set (addrs s') = insert new (set (addrs s))
     | Some w \<Rightarrow> t' = t \<and> s' = s)"
proof -
  obtain fs u where d: "descend cmp key [] s = (fs, u)" by fastforce
  have s: "plug fs u = s" using descend_plug [OF d] by simp
  have t: "t = conc cmp (int (length (entries s))) s" and dist: "dist (addrs s)"
    using ok by (simp_all add: tree_ok_def dist_def)
  have pos: "\<forall>e \<in> set (entries_before fs). below cmp key e"
    "\<forall>e \<in> set (entries_after fs). beyond cmp key e"
    "case u of Lf \<Rightarrow> True | Nd a c l k v r \<Rightarrow> cmp key k = 0 \<and>
       (\<forall>e \<in> set (entries l). below cmp key e) \<and> (\<forall>e \<in> set (entries r). beyond cmp key e)"
    using comparator.descend_position [OF cmp d] ok by (simp_all add: tree_ok_def)
  show ?thesis
  proof (cases u)
    case Lf
    let ?n = "int (length (entries s))" and ?s = "plug fs (Nd new RED Lf key v Lf)"
    have look: "lookup cmp key (entries s) = None"
      "insert_entry cmp key v (entries s) = entries ?s"
      using split_lookup(1,2) [of "entries_before fs" cmp key "entries_after fs"] pos s Lf by auto
    have inv: "nored (Nd new RED Lf key v Lf)" "cok fs" "bal 0 (Nd new RED Lf key v Lf)" "cbal 0 fs"
      using ok s Lf rb_plug [of fs Lf] by (auto simp: tree_ok_def)
    have "dist (addrs ?s)"
      using dist new s Lf by (auto simp: dist_def)
    from tree_insert1_ok [OF this refl inv] obtain s' where
      s': "tree_insert1 (conc cmp ?n ?s) (Some new) = Some (conc cmp ?n s')" "fixed ?s s'"
      by blast
    have "tree_insert new t key v = Some (v, conc cmp (?n + 1) s')"
      using tree_insert_vacant [of fs new cmp key ?n v] dist new d s s'(1) unfolding Lf t
      by (simp del: plug_addrs)
    moreover have "sorted_entries cmp (entries ?s)"
      using sorted_insert [OF cmp _ pos(1,2)] ok s Lf by (auto simp: tree_ok_def)
    then have "tree_ok cmp (conc cmp (?n + 1) s') s'"
      using s'(2) \<open>dist (addrs ?s)\<close> s Lf by (auto simp: tree_ok_def fixed_def dist_def add.commute)
    ultimately show ?thesis
      using look s'(2) s Lf by (auto simp: fixed_def)
  next
    case (Nd a c l k w r)
    have look: "lookup cmp key (entries s) = Some w"
      using split_lookup(3) [of "entries_before fs @ entries l" cmp key "entries r @ entries_after fs" k w]
        pos s Nd by (auto simp: ball_Un)
    have "tree_insert new t key v = Some (w, t)"
      using insert_loop_conc [of "[]" s cmp "int (length (entries s))" key] dist d t Nd
      by (simp add: tree_insert_def)
    then show ?thesis using look ok by auto
  qed
qed

end
