(* ===== verification/RbDelete.thy ===== *)
theory RbDelete
  imports RbInsert
begin

section \<open>Deletion from the red-black tree\<close>

text \<open>
  The chain \<open>tree_delete1\<close> to \<open>tree_delete6\<close> repairs the context of a node whose subtree is one
  black node short, without touching the subtree; \<open>tree_delete\<close> calls it on the node that it is
  about to unlink. Below, the chain is a function on contexts, with one lemma per kind of round.
\<close>

subsection \<open>The rounds on contexts\<close>

fun nephews_black :: "('k, 'v) shape \<Rightarrow> bool" where
  "nephews_black Lf = False"
| "nephews_black (Nd a c l k v r) \<longleftrightarrow> shade l = BLACK \<and> shade r = BLACK"

text \<open>The sibling is red: it moves above the parent, which becomes red.\<close>

fun turn :: "('k, 'v) frame \<Rightarrow> ('k, 'v) zipper" where
  "turn (LeftOf p c k v (Nd s cs l ks vs r)) = [LeftOf p RED k v l, LeftOf s BLACK ks vs r]"
| "turn (RightOf p c (Nd s cs l ks vs r) k v) = [RightOf p RED r k v, RightOf s BLACK l ks vs]"
| "turn f = [f]"

text \<open>Sibling, nephews and parent are black: the sibling becomes red and the round repeats above.\<close>

fun redden :: "('k, 'v) shape \<Rightarrow> ('k, 'v) shape" where
  "redden Lf = Lf"
| "redden (Nd a c l k v r) = Nd a RED l k v r"

fun pale :: "('k, 'v) frame \<Rightarrow> ('k, 'v) frame" where
  "pale (LeftOf p c k v s) = LeftOf p BLACK k v (redden s)"
| "pale (RightOf p c s k v) = RightOf p BLACK (redden s) k v"

text \<open>The other cases with a black sibling end the repair.\<close>

fun settle :: "('k, 'v) frame \<Rightarrow> ('k, 'v) zipper" where
  "settle (LeftOf p c k v (Nd s cs l ks vs (Nd b RED bl kb vb br))) =
     [LeftOf p BLACK k v l, LeftOf s c ks vs (Nd b BLACK bl kb vb br)]"
| "settle (LeftOf p c k v (Nd s cs (Nd b RED bl kb vb br) ks vs r)) =
     [LeftOf p BLACK k v bl, LeftOf b c kb vb (Nd s BLACK br ks vs r)]"
| "settle (RightOf p c (Nd s cs (Nd b RED bl kb vb br) ks vs r) k v) =
     [RightOf p BLACK r k v, RightOf s c (Nd b BLACK bl kb vb br) ks vs]"
| "settle (RightOf p c (Nd s cs l ks vs (Nd b RED bl kb vb br)) k v) =
     [RightOf p BLACK br k v, RightOf b c (Nd s BLACK l ks vs bl) kb vb]"
| "settle f = [pale f]"

lemma redden_simps [simp]:
  "addrs (redden s) = addrs s" "entries (redden s) = entries s"
  by (cases s; simp)+

definition same_path :: "('k, 'v) zipper \<Rightarrow> ('k, 'v) zipper \<Rightarrow> bool" where
  "same_path fs gs \<longleftrightarrow> addrs_before gs = addrs_before fs \<and> addrs_after gs = addrs_after fs \<and>
     entries_before gs = entries_before fs \<and> entries_after gs = entries_after fs"

lemma same_path_refl: "same_path fs fs"
  by (simp add: same_path_def)

lemma same_path_trans: "same_path fs gs \<Longrightarrow> same_path gs hs \<Longrightarrow> same_path fs hs"
  by (simp add: same_path_def)

lemma same_path_Cons: "same_path fs gs \<Longrightarrow> same_path (f # fs) (f # gs)"
  by (cases f) (simp_all add: same_path_def)

lemma turn_path: "same_path (f # fs) (turn f @ fs)"
  by (cases f rule: turn.cases) (simp_all add: same_path_def)

lemma pale_path: "same_path (f # fs) (pale f # fs)"
  by (cases f) (simp_all add: same_path_def)

lemma settle_path: "same_path (f # fs) (settle f @ fs)"
  by (cases f rule: settle.cases) (simp_all add: same_path_def)

lemma turn_inv:
  assumes "cok (f # fs)" "cbal (Suc n) (f # fs)" "shade (sib f) = RED"
  shows "cok (turn f @ fs) \<and> cbal (Suc n) (turn f @ fs)"
  using assms by (cases f rule: turn.cases) auto

lemma settle_inv:
  assumes "cok (f # fs)" "cbal (Suc n) (f # fs)" "shade (sib f) = BLACK"
    and "above [f] = RED \<or> \<not> nephews_black (sib f)"
  shows "cok (settle f @ fs) \<and> cbal n (settle f @ fs)"
  using assms by (cases f rule: settle.cases) auto

lemma pale_inv:
  assumes "cok (f # fs)" "cbal (Suc n) (f # fs)" "shade (sib f) = BLACK"
    and "above [f] = BLACK" "nephews_black (sib f)" "cok gs" "cbal (Suc n) gs"
  shows "cok (pale f # gs) \<and> cbal n (pale f # gs)"
  using assms by (cases f; cases "sib f") auto

subsection \<open>The rounds of the code\<close>

text \<open>
  The node is \<open>a\<close>, its parent \<open>p\<close>, its sibling \<open>s\<close>, the red nephew \<open>b\<close>; each lemma is about one
  side.
\<close>

lemmas nephew_defs = all_black_def left_is_black_def right_is_black_def

lemma delete6_left:
  assumes "dist (addrs (plug fs (Nd p cp (Nd a ca x ka va y) kp vp (Nd s cs sl ks vs (Nd b RED bl kb vb br)))))"
  shows "tree_delete6 (conc cmp n (plug fs (Nd p cp (Nd a ca x ka va y) kp vp (Nd s cs sl ks vs (Nd b RED bl kb vb br)))))
      (Some a) =
    Some (conc cmp n (plug fs (Nd s cp (Nd p BLACK (Nd a ca x ka va y) kp vp sl) ks vs (Nd b BLACK bl kb vb br))))"
  using assms assms(1) [unfolded dist_def]
  by (simp add: tree_delete6_def family_defs read_defs at_simps)

lemma delete6_right:
  assumes "dist (addrs (plug fs (Nd p cp (Nd s cs (Nd b RED bl kb vb br) ks vs sr) kp vp (Nd a ca x ka va y))))"
  shows "tree_delete6 (conc cmp n (plug fs (Nd p cp (Nd s cs (Nd b RED bl kb vb br) ks vs sr) kp vp (Nd a ca x ka va y))))
      (Some a) =
    Some (conc cmp n (plug fs (Nd s cp (Nd b BLACK bl kb vb br) ks vs (Nd p BLACK sr kp vp (Nd a ca x ka va y)))))"
  using assms assms(1) [unfolded dist_def]
  by (simp add: tree_delete6_def family_defs read_defs at_simps)

lemma delete5_left_far:
  assumes "dist (addrs (plug fs (Nd p cp (Nd a ca x ka va y) kp vp (Nd s BLACK sl ks vs (Nd b RED bl kb vb br)))))"
  shows "tree_delete5 (conc cmp n (plug fs (Nd p cp (Nd a ca x ka va y) kp vp (Nd s BLACK sl ks vs (Nd b RED bl kb vb br)))))
      (Some a) =
    Some (conc cmp n (plug fs (Nd s cp (Nd p BLACK (Nd a ca x ka va y) kp vp sl) ks vs (Nd b BLACK bl kb vb br))))"
  using assms assms(1) [unfolded dist_def]
  by (simp add: tree_delete5_def nephew_defs delete6_left family_defs read_defs at_simps)

lemma delete5_right_far:
  assumes "dist (addrs (plug fs (Nd p cp (Nd s BLACK (Nd b RED bl kb vb br) ks vs sr) kp vp (Nd a ca x ka va y))))"
  shows "tree_delete5 (conc cmp n (plug fs (Nd p cp (Nd s BLACK (Nd b RED bl kb vb br) ks vs sr) kp vp (Nd a ca x ka va y))))
      (Some a) =
    Some (conc cmp n (plug fs (Nd s cp (Nd b BLACK bl kb vb br) ks vs (Nd p BLACK sr kp vp (Nd a ca x ka va y)))))"
  using assms assms(1) [unfolded dist_def]
  by (simp add: tree_delete5_def nephew_defs delete6_right family_defs read_defs at_simps)

lemma delete5_left_near:
  assumes "dist (addrs (plug fs (Nd p cp (Nd a ca x ka va y) kp vp (Nd s BLACK (Nd b RED bl kb vb br) ks vs sr))))"
    and "shade sr = BLACK"
  shows "tree_delete5 (conc cmp n (plug fs (Nd p cp (Nd a ca x ka va y) kp vp (Nd s BLACK (Nd b RED bl kb vb br) ks vs sr))))
      (Some a) =
    Some (conc cmp n (plug fs (Nd b cp (Nd p BLACK (Nd a ca x ka va y) kp vp bl) kb vb (Nd s BLACK br ks vs sr))))"
  using assms assms(1) [unfolded dist_def]
  by (simp add: tree_delete5_def nephew_defs delete6_left delete6_right family_defs read_defs at_simps)

lemma delete5_right_near:
  assumes "dist (addrs (plug fs (Nd p cp (Nd s BLACK sl ks vs (Nd b RED bl kb vb br)) kp vp (Nd a ca x ka va y))))"
    and "shade sl = BLACK"
  shows "tree_delete5 (conc cmp n (plug fs (Nd p cp (Nd s BLACK sl ks vs (Nd b RED bl kb vb br)) kp vp (Nd a ca x ka va y))))
      (Some a) =
    Some (conc cmp n (plug fs (Nd b cp (Nd s BLACK sl ks vs bl) kb vb (Nd p BLACK br kp vp (Nd a ca x ka va y)))))"
  using assms assms(1) [unfolded dist_def]
  by (simp add: tree_delete5_def nephew_defs delete6_left delete6_right family_defs read_defs at_simps)

lemmas delete5_all = delete5_left_far delete5_right_far delete5_left_near delete5_right_near

lemma delete4_left_black:
  assumes "dist (addrs (plug fs (Nd p RED (Nd a ca x ka va y) kp vp (Nd s BLACK sl ks vs sr))))"
    and "shade sl = BLACK" and "shade sr = BLACK"
  shows "tree_delete4 (conc cmp n
      (plug fs (Nd p RED (Nd a ca x ka va y) kp vp (Nd s BLACK sl ks vs sr)))) (Some a) =
    Some (conc cmp n (plug fs (Nd p BLACK (Nd a ca x ka va y) kp vp (Nd s RED sl ks vs sr))))"
  using assms assms(1) [unfolded dist_def]
  by (simp add: tree_delete4_def nephew_defs family_defs read_defs at_simps)

lemma delete4_right_black:
  assumes "dist (addrs (plug fs (Nd p RED (Nd s BLACK sl ks vs sr) kp vp (Nd a ca x ka va y))))"
    and "shade sl = BLACK" and "shade sr = BLACK"
  shows "tree_delete4 (conc cmp n
      (plug fs (Nd p RED (Nd s BLACK sl ks vs sr) kp vp (Nd a ca x ka va y)))) (Some a) =
    Some (conc cmp n (plug fs (Nd p BLACK (Nd s RED sl ks vs sr) kp vp (Nd a ca x ka va y))))"
  using assms assms(1) [unfolded dist_def]
  by (simp add: tree_delete4_def nephew_defs family_defs read_defs at_simps)

lemma delete4_left_red:
  assumes "dist (addrs (plug fs (Nd p cp (Nd a ca x ka va y) kp vp (Nd s BLACK sl ks vs sr))))"
    and "shade sl = RED \<or> shade sr = RED"
  shows "tree_delete4 (conc cmp n
      (plug fs (Nd p cp (Nd a ca x ka va y) kp vp (Nd s BLACK sl ks vs sr)))) (Some a) =
    tree_delete5 (conc cmp n
      (plug fs (Nd p cp (Nd a ca x ka va y) kp vp (Nd s BLACK sl ks vs sr)))) (Some a)"
  using assms assms(1) [unfolded dist_def]
  by (cases "shade sl"; cases "shade sr"; cases cp)
    (simp_all add: tree_delete4_def nephew_defs family_defs read_defs at_simps)

lemma delete4_right_red:
  assumes "dist (addrs (plug fs (Nd p cp (Nd s BLACK sl ks vs sr) kp vp (Nd a ca x ka va y))))"
    and "shade sl = RED \<or> shade sr = RED"
  shows "tree_delete4 (conc cmp n
      (plug fs (Nd p cp (Nd s BLACK sl ks vs sr) kp vp (Nd a ca x ka va y)))) (Some a) =
    tree_delete5 (conc cmp n
      (plug fs (Nd p cp (Nd s BLACK sl ks vs sr) kp vp (Nd a ca x ka va y)))) (Some a)"
  using assms assms(1) [unfolded dist_def]
  by (cases "shade sl"; cases "shade sr"; cases cp)
    (simp_all add: tree_delete4_def nephew_defs family_defs read_defs at_simps)

lemma delete3_left:
  assumes "dist (addrs (plug fs (Nd p cp (Nd a ca x ka va y) kp vp (Nd s BLACK sl ks vs sr))))"
  shows "tree_delete3 rec (conc cmp n
      (plug fs (Nd p cp (Nd a ca x ka va y) kp vp (Nd s BLACK sl ks vs sr)))) (Some a) =
    (if cp = BLACK \<and> shade sl = BLACK \<and> shade sr = BLACK
     then rec (conc cmp n
       (plug fs (Nd p cp (Nd a ca x ka va y) kp vp (Nd s RED sl ks vs sr)))) (Some p)
     else tree_delete4 (conc cmp n
       (plug fs (Nd p cp (Nd a ca x ka va y) kp vp (Nd s BLACK sl ks vs sr)))) (Some a))"
  using assms assms(1) [unfolded dist_def]
  by (cases "shade sl"; cases "shade sr"; cases cp)
    (simp_all add: tree_delete3_def nephew_defs family_defs read_defs at_simps)

lemma delete3_right:
  assumes "dist (addrs (plug fs (Nd p cp (Nd s BLACK sl ks vs sr) kp vp (Nd a ca x ka va y))))"
  shows "tree_delete3 rec (conc cmp n
      (plug fs (Nd p cp (Nd s BLACK sl ks vs sr) kp vp (Nd a ca x ka va y)))) (Some a) =
    (if cp = BLACK \<and> shade sl = BLACK \<and> shade sr = BLACK
     then rec (conc cmp n
       (plug fs (Nd p cp (Nd s RED sl ks vs sr) kp vp (Nd a ca x ka va y)))) (Some p)
     else tree_delete4 (conc cmp n
       (plug fs (Nd p cp (Nd s BLACK sl ks vs sr) kp vp (Nd a ca x ka va y)))) (Some a))"
  using assms assms(1) [unfolded dist_def]
  by (cases "shade sl"; cases "shade sr"; cases cp)
    (simp_all add: tree_delete3_def nephew_defs family_defs read_defs at_simps)

subsection \<open>The rounds, on either side\<close>

lemmas delete_rounds = delete3_left delete3_right delete4_left_black delete4_right_black
  delete4_left_red delete4_right_red delete5_all

lemma delete3_settle:
  assumes "dist (addrs (plug (f # fs) (Nd a c l k v r)))"
    and "sib f \<noteq> Lf" "shade (sib f) = BLACK" "above [f] = RED \<or> \<not> nephews_black (sib f)"
  shows "tree_delete3 rec (conc cmp n (plug (f # fs) (Nd a c l k v r))) (Some a) =
    Some (conc cmp n (plug (settle f @ fs) (Nd a c l k v r)))"
  using assms by (cases f rule: settle.cases) (auto simp: delete_rounds plug_append)

lemma delete3_pale:
  assumes "dist (addrs (plug (f # fs) (Nd a c l k v r)))"
    and "sib f \<noteq> Lf" "shade (sib f) = BLACK" "above [f] = BLACK" "nephews_black (sib f)"
  shows "tree_delete3 rec (conc cmp n (plug (f # fs) (Nd a c l k v r))) (Some a) =
    rec (conc cmp n (plug (pale f # fs) (Nd a c l k v r))) (Some (faddr f))"
  using assms by (cases f; cases "sib f") (auto simp: delete_rounds)

lemma delete2_black:
  assumes "dist (addrs (plug (f # fs) (Nd a c l k v r)))" and "shade (sib f) = BLACK"
  shows "tree_delete2 rec (conc cmp n (plug (f # fs) (Nd a c l k v r))) (Some a) =
    tree_delete3 rec (conc cmp n (plug (f # fs) (Nd a c l k v r))) (Some a)"
  using assms assms(1) [unfolded dist_def]
  by (cases f) (simp_all add: tree_delete2_def family_defs read_defs at_simps)

lemma delete2_red:
  assumes "dist (addrs (plug (f # fs) (Nd a c l k v r)))" and "shade (sib f) = RED"
  shows "tree_delete2 rec (conc cmp n (plug (f # fs) (Nd a c l k v r))) (Some a) =
    tree_delete3 rec (conc cmp n (plug (turn f @ fs) (Nd a c l k v r))) (Some a)"
  using assms assms(1) [unfolded dist_def]
  by (cases f rule: turn.cases) (simp_all add: tree_delete2_def family_defs read_defs at_simps)

subsection \<open>The whole repair\<close>

definition repaired :: "nat \<Rightarrow> ('k, 'v) zipper \<Rightarrow> ('k, 'v) zipper \<Rightarrow> bool" where
  "repaired n fs gs \<longleftrightarrow> cok gs \<and> cbal n gs \<and> same_path fs gs"

lemma delete1_root:
  "dist (addrs (Nd a c l k v r)) \<Longrightarrow>
   tree_delete1 (conc cmp n (Nd a c l k v r)) (Some a) = Some (conc cmp n (Nd a c l k v r))"
  using node_at_conc [of "[]" a c l k v r cmp n]
  by (subst tree_delete1.simps) (simp add: parent_of_def)

lemma delete1_inner:
  "dist (addrs (plug (f # fs) (Nd a c l k v r))) \<Longrightarrow>
   tree_delete1 (conc cmp n (plug (f # fs) (Nd a c l k v r))) (Some a) =
   tree_delete2 tree_delete1 (conc cmp n (plug (f # fs) (Nd a c l k v r))) (Some a)"
  by (cases f; subst tree_delete1.simps) (simp_all add: parent_of_def at_simps)

lemma sib_nephews:
  assumes "cbal (Suc n) (f # fs)"
  shows "sib f \<noteq> Lf"
  using assms by (cases f) auto

lemma delete3_ok:
  assumes dist: "dist (addrs (plug (f # fs) s))" and s: "s = Nd a c l k v r"
    and inv: "cok (f # fs)" "cbal (Suc m) (f # fs)" "shade (sib f) = BLACK"
    and IH: "\<And>s' a' c' l' k' v' r'. dist (addrs (plug fs s')) \<Longrightarrow> s' = Nd a' c' l' k' v' r' \<Longrightarrow>
        above [f] = BLACK \<Longrightarrow> cok fs \<Longrightarrow> cbal (Suc (Suc m)) fs \<Longrightarrow>
        \<exists>gs. tree_delete1 (conc cmp n (plug fs s')) (Some a') = Some (conc cmp n (plug gs s')) \<and>
          repaired (Suc m) fs gs"
  shows "\<exists>gs. tree_delete3 tree_delete1 (conc cmp n (plug (f # fs) s)) (Some a) =
      Some (conc cmp n (plug gs s)) \<and> repaired m (f # fs) gs"
proof (cases "above [f] = RED \<or> \<not> nephews_black (sib f)")
  case True
  have "repaired m (f # fs) (settle f @ fs)"
    using settle_inv [OF inv True] settle_path by (simp add: repaired_def)
  then show ?thesis
    using delete3_settle [OF dist [unfolded s] sib_nephews [OF inv(2)] inv(3) True] s by auto
next
  case False
  then have black: "above [f] = BLACK" "nephews_black (sib f)" by simp_all
  let ?s = "fill (pale f) s"
  obtain l' k' v' r' where s': "?s = Nd (faddr f) BLACK l' k' v' r'" by (cases f) auto
  have "addrs (plug (pale f # fs) s) = addrs (plug (f # fs) s)"
    using pale_path [of f fs] by (simp only: plug_addrs same_path_def)
  then have d: "dist (addrs (plug fs ?s))" using dist by simp
  have ctx: "cok fs" "cbal (Suc (Suc m)) fs" using inv black(1) by (cases f; simp)+
  obtain gs where gs: "tree_delete1 (conc cmp n (plug fs ?s)) (Some (faddr f)) =
      Some (conc cmp n (plug gs ?s))" "repaired (Suc m) fs gs"
    using IH [OF d s' black(1) ctx] by blast
  have "same_path (f # fs) (pale f # gs)"
    using gs(2) pale_path same_path_Cons same_path_trans unfolding repaired_def by blast
  then have "repaired m (f # fs) (pale f # gs)"
    using pale_inv [OF inv black] gs(2) by (simp add: repaired_def)
  then show ?thesis
    using delete3_pale [OF dist [unfolded s] sib_nephews [OF inv(2)] inv(3) black] gs(1) s
    by (intro exI [of _ "pale f # gs"]) simp
qed

lemma tree_delete1_ok:
  assumes "dist (addrs (plug fs s))" and "s = Nd a c l k v r" and "cok fs" and "cbal (Suc m) fs"
  shows "\<exists>gs. tree_delete1 (conc cmp n (plug fs s)) (Some a) = Some (conc cmp n (plug gs s)) \<and>
    repaired m fs gs"
  using assms
proof (induction fs arbitrary: s a c l k v r m)
  case Nil
  then show ?case using delete1_root [of a c l k v r cmp n]
    by (intro exI [of _ "[]"]) (simp add: repaired_def same_path_refl)
next
  case (Cons f fs)
  note s = Cons.prems(2)
  have start: "tree_delete1 (conc cmp n (plug (f # fs) s)) (Some a) =
      tree_delete2 tree_delete1 (conc cmp n (plug (f # fs) s)) (Some a)"
    unfolding s by (rule delete1_inner [OF Cons.prems(1) [unfolded s]])
  show ?case
  proof (cases "shade (sib f)")
    case BLACK
    have eq: "tree_delete1 (conc cmp n (plug (f # fs) s)) (Some a) =
        tree_delete3 tree_delete1 (conc cmp n (plug (f # fs) s)) (Some a)"
      using start delete2_black [OF Cons.prems(1) [unfolded s] BLACK] s by simp
    show ?thesis
      unfolding eq
      by (rule delete3_ok [OF Cons.prems(1) s Cons.prems(3,4) BLACK]) (rule Cons.IH)
  next
    case RED
    obtain f1 g1 where turn: "turn f = [f1, g1]" "above [f1] = RED" "shade (sib f1) = BLACK"
      using RED Cons.prems(3,4) by (cases f rule: turn.cases) auto
    have inv: "cok (f1 # g1 # fs)" "cbal (Suc m) (f1 # g1 # fs)"
      using turn_inv [OF Cons.prems(3,4) RED] turn(1) by simp_all
    have path: "same_path (f # fs) (f1 # g1 # fs)" using turn_path [of f fs] turn(1) by simp
    then have "addrs (plug (f1 # g1 # fs) s) = addrs (plug (f # fs) s)"
      by (simp only: plug_addrs same_path_def)
    then have d: "dist (addrs (plug (f1 # g1 # fs) s))" using Cons.prems(1) by simp
    have "\<exists>gs. tree_delete3 tree_delete1 (conc cmp n (plug (f1 # g1 # fs) s)) (Some a) =
        Some (conc cmp n (plug gs s)) \<and> repaired m (f1 # g1 # fs) gs"
      by (rule delete3_ok [OF d s inv turn(3)]) (use turn(2) in simp)
    then obtain gs where gs: "tree_delete3 tree_delete1 (conc cmp n (plug (f1 # g1 # fs) s)) (Some a) =
        Some (conc cmp n (plug gs s))" "repaired m (f1 # g1 # fs) gs"
      by blast
    have "repaired m (f # fs) gs"
      using gs(2) path same_path_trans unfolding repaired_def by blast
    moreover have "tree_delete1 (conc cmp n (plug (f # fs) s)) (Some a) = Some (conc cmp n (plug gs s))"
      using start delete2_red [OF Cons.prems(1) [unfolded s] RED] gs(1) turn(1) s by simp
    ultimately show ?thesis by blast
  qed
qed

subsection \<open>Unlinking a leaf\<close>

lemma ref_plug_fill: "ref (plug fs (fill f s)) = ref (plug fs (fill f s'))"
  by (cases fs rule: rev_cases) (simp_all add: plug_append)

lemma dom_single_upd: "dom m = {a} \<Longrightarrow> m(a := None) = (\<lambda>x. None)"
  by (rule ext) (auto simp: dom_def)

lemma unlink_leaf_rep:
  assumes rep: "rep t (plug fs (Nd a c Lf k v Lf))"
    and dist: "dist (addrs (plug fs (Nd a c Lf k v Lf)))"
  shows "\<exists>t1 t2. tree_unlink t (Some a) = Some t1 \<and> tree_node_destroy t1 (Some a) = Some t2 \<and>
    rep t2 (plug fs Lf) \<and> tr_cmp t2 = tr_cmp t \<and> tr_size t2 = tr_size t"
proof (cases fs)
  case Nil
  then show ?thesis
    using rep unfolding rep_plug
    by (auto simp: tree_unlink_def tree_node_destroy_def walk_defs rep_def dom_single_upd)
next
  case (Cons f gs)
  show ?thesis
  proof (cases f)
    case (LeftOf p cp kp vp r)
    then show ?thesis
      using rep dist Cons ref_plug_fill [of gs f] unfolding rep_plug
      by (auto simp: tree_unlink_def tree_node_destroy_def walk_defs dist_def)
  next
    case (RightOf p cp l kp vp)
    then show ?thesis
      using rep dist Cons ref_plug_fill [of gs f] unfolding rep_plug
      by (auto simp: tree_unlink_def tree_node_destroy_def walk_defs dist_def)
  qed
qed

lemma unlink_leaf:
  assumes "dist (addrs (plug fs (Nd a c Lf k v Lf)))"
  shows "do { t \<leftarrow> tree_unlink (conc cmp n (plug fs (Nd a c Lf k v Lf))) (Some a);
      tree_node_destroy t (Some a) } = Some (conc cmp n (plug fs Lf))"
proof -
  obtain t1 t2 where t: "tree_unlink (conc cmp n (plug fs (Nd a c Lf k v Lf))) (Some a) = Some t1"
    "tree_node_destroy t1 (Some a) = Some t2" "rep t2 (plug fs Lf)" "tr_cmp t2 = cmp" "tr_size t2 = n"
    using unlink_leaf_rep [OF rep_conc [OF assms] assms, of cmp n] by auto
  moreover have "dist (addrs (plug fs (Lf :: ('a, 'b) shape)))" using assms by (simp add: dist_def)
  ultimately show ?thesis using rep_eq_conc [OF t(3)] by simp
qed

subsection \<open>Deleting a node with at most one child\<close>

definition deleted :: "('k, 'v) zipper \<Rightarrow> ('k, 'v) shape \<Rightarrow> ('k, 'v) shape \<Rightarrow> ('k, 'v) shape \<Rightarrow> bool" where
  "deleted fs l r s' \<longleftrightarrow> rb s' \<and> distinct (addrs s') \<and>
     entries s' = entries_before fs @ entries l @ entries r @ entries_after fs"

lemma delete_leaf:
  assumes dist: "dist (addrs (plug fs (Nd a c Lf k v Lf)))" and rb: "rb (plug fs (Nd a c Lf k v Lf))"
  shows "\<exists>s'. tree_delete_node (conc cmp n (plug fs (Nd a c Lf k v Lf))) (Some a) =
      Some (conc cmp n s') \<and> deleted fs Lf Lf s' \<and>
      set (addrs s') \<subseteq> set (addrs (plug fs (Nd a c Lf k v Lf)))"
proof -
  let ?s = "Nd a c Lf k v Lf"
  obtain m where inv: "cok fs" "above fs = RED \<longrightarrow> c = BLACK" "bal m ?s" "cbal m fs"
    using rb unfolding rb_plug by auto
  have node: "node_at (conc cmp n (plug fs ?s)) (Some a) = Some (mk_node (cref fs) None None c k v)"
    using node_at_conc [OF dist] by simp
  have result: "deleted fs Lf Lf (plug gs Lf)" if "cok gs" "cbal 0 gs" "same_path fs gs" for gs
    using that dist unfolding deleted_def rb_plug by (auto simp: same_path_def dist_def)
  have addrs: "set (addrs (plug gs Lf)) \<subseteq> set (addrs (plug fs ?s))" if "same_path fs gs"
    for gs :: "('a, 'b) zipper"
    using that by (auto simp: same_path_def)
  show ?thesis
  proof (cases c)
    case RED
    have "tree_delete_node (conc cmp n (plug fs ?s)) (Some a) = Some (conc cmp n (plug fs Lf))"
      using node unlink_leaf [OF dist, of cmp n] RED
      by (simp add: tree_delete_node_def color_test_Some)
    then show ?thesis
      using result [of fs] addrs [of fs] inv RED by (auto simp: same_path_refl)
  next
    case BLACK
    then have m: "m = Suc 0" using inv(3) by simp
    obtain gs where gs: "tree_delete1 (conc cmp n (plug fs ?s)) (Some a) = Some (conc cmp n (plug gs ?s))"
      "cok gs" "cbal 0 gs" "same_path fs gs"
      using tree_delete1_ok [OF dist refl inv(1), of 0 cmp n] inv(4) m by (auto simp: repaired_def)
    have "dist (addrs (plug gs ?s))" using dist gs(4) by (simp add: same_path_def)
    then have "tree_delete_node (conc cmp n (plug fs ?s)) (Some a) = Some (conc cmp n (plug gs Lf))"
      using node gs(1) unlink_leaf [of gs a c k v cmp n] BLACK
      by (simp add: tree_delete_node_def color_test_Some)
    then show ?thesis
      using result [OF gs(2-4)] addrs [OF gs(4)] by (intro exI [of _ "plug gs Lf"]) simp
  qed
qed

text \<open>An only child is a red leaf below a black node; the node takes its entry.\<close>

lemma only_child:
  assumes "bal m (Nd a c l k v r)" "nored (Nd a c l k v r)" "l = Lf \<or> r = Lf" "l \<noteq> Lf \<or> r \<noteq> Lf"
  obtains b kb vb where "c = BLACK" "m = Suc 0" "l = Nd b RED Lf kb vb Lf \<and> r = Lf"
  | b kb vb where "c = BLACK" "m = Suc 0" "l = Lf \<and> r = Nd b RED Lf kb vb Lf"
proof -
  have leaf: "\<exists>b kb vb. s = Nd b RED Lf kb vb Lf" if "bal 0 s" "nored s" "s \<noteq> Lf"
    for s :: "('a, 'b) shape"
  proof (cases s)
    case (Nd b d x kb vb y)
    then have "d = RED" "bal 0 x" "bal 0 y" "shade x = BLACK" "shade y = BLACK"
      using that by (auto split: if_splits)
    then show ?thesis using Nd by (cases x; cases y) auto
  qed (use that in simp)
  have "c = BLACK"
  proof (cases c)
    case RED
    then have "m = 0" "bal m l" "bal m r" using assms(1,3) by auto
    then show ?thesis using RED leaf [of l] leaf [of r] assms(2,4) by auto
  qed
  then show thesis using assms leaf [of l] leaf [of r] that by (auto simp: gr0_conv_Suc)
qed

lemma delete_only_child:
  assumes dist: "dist (addrs (plug fs (Nd a c l k v r)))" and rb: "rb (plug fs (Nd a c l k v r))"
    and one: "l = Lf \<or> r = Lf" "l \<noteq> Lf \<or> r \<noteq> Lf"
  shows "\<exists>s'. tree_delete_node (conc cmp n (plug fs (Nd a c l k v r))) (Some a) =
      Some (conc cmp n s') \<and> deleted fs l r s' \<and>
      set (addrs s') \<subseteq> set (addrs (plug fs (Nd a c l k v r)))"
proof -
  obtain m where inv: "nored (Nd a c l k v r)" "cok fs" "bal m (Nd a c l k v r)" "cbal m fs"
    using rb unfolding rb_plug by auto
  have node: "node_at (conc cmp n (plug fs (Nd a c l k v r))) (Some a) =
      Some (mk_node (cref fs) (ref l) (ref r) c k v)"
    by (rule node_at_conc [OF dist])
  from inv(3,1) one show ?thesis
  proof (cases rule: only_child)
    case (1 b kb vb)
    have d: "dist (addrs (plug fs (Nd a BLACK l kb vb r)))" using dist by simp
    have "tree_delete_node (conc cmp n (plug fs (Nd a c l k v r))) (Some a) =
        Some (conc cmp n (plug fs (Nd a BLACK Lf kb vb Lf)))"
      using node dist d 1
        unlink_leaf [of "LeftOf a BLACK kb vb Lf # fs" b RED kb vb cmp n]
        node_upd_conc [OF dist, of _ c kb vb cmp n]
      by (simp add: tree_delete_node_def tree_copy_entry_def color_test_Some at_simps)
    moreover have "deleted fs l r (plug fs (Nd a BLACK Lf kb vb Lf))"
      using inv dist 1 unfolding deleted_def rb_plug by (auto simp: dist_def)
    ultimately show ?thesis by auto
  next
    case (2 b kb vb)
    have d: "dist (addrs (plug fs (Nd a BLACK l kb vb r)))" using dist by simp
    have "tree_delete_node (conc cmp n (plug fs (Nd a c l k v r))) (Some a) =
        Some (conc cmp n (plug fs (Nd a BLACK Lf kb vb Lf)))"
      using node dist d 2
        unlink_leaf [of "RightOf a BLACK Lf kb vb # fs" b RED kb vb cmp n]
        node_upd_conc [OF dist, of _ c kb vb cmp n]
      by (simp add: tree_delete_node_def tree_copy_entry_def color_test_Some at_simps)
    moreover have "deleted fs l r (plug fs (Nd a BLACK Lf kb vb Lf))"
      using inv dist 2 unfolding deleted_def rb_plug by (auto simp: dist_def)
    ultimately show ?thesis by auto
  qed
qed

lemma delete_node_ok:
  assumes "dist (addrs (plug fs (Nd a c l k v r)))" and "rb (plug fs (Nd a c l k v r))"
    and "l = Lf \<or> r = Lf"
  shows "\<exists>s'. tree_delete_node (conc cmp n (plug fs (Nd a c l k v r))) (Some a) =
      Some (conc cmp n s') \<and> deleted fs l r s' \<and>
      set (addrs s') \<subseteq> set (addrs (plug fs (Nd a c l k v r)))"
proof (cases "l = Lf \<and> r = Lf")
  case True
  then show ?thesis using delete_leaf [of fs a c k v cmp n] assms by simp
next
  case False
  then show ?thesis using delete_only_child [OF assms, of cmp n] by blast
qed

subsection \<open>The heir\<close>

fun rightmost :: "('k, 'v) shape \<Rightarrow> ('k, 'v) zipper \<times> ('k, 'v) shape" where
  "rightmost Lf = ([], Lf)"
| "rightmost (Nd a c l k v r) =
     (if r = Lf then ([], Nd a c l k v r)
      else let (hs, s) = rightmost r in (hs @ [RightOf a c l k v], s))"

fun leftmost :: "('k, 'v) shape \<Rightarrow> ('k, 'v) zipper \<times> ('k, 'v) shape" where
  "leftmost Lf = ([], Lf)"
| "leftmost (Nd a c l k v r) =
     (if l = Lf then ([], Nd a c l k v r)
      else let (hs, s) = leftmost l in (hs @ [LeftOf a c k v r], s))"

lemma before_append [simp]:
  "entries_before (hs @ fs) = entries_before fs @ entries_before hs"
  "entries_after (hs @ fs) = entries_after hs @ entries_after fs"
  by (induction hs rule: entries_before.induct) simp_all

lemma rightmost_ok:
  "rightmost s = (hs, s') \<Longrightarrow> s \<noteq> Lf \<Longrightarrow>
   plug hs s' = s \<and> entries_after hs = [] \<and> (\<exists>b cb x kb vb. s' = Nd b cb x kb vb Lf)"
  by (induction s arbitrary: hs s') (auto simp: plug_append split: if_splits prod.splits)

lemma leftmost_ok:
  "leftmost s = (hs, s') \<Longrightarrow> s \<noteq> Lf \<Longrightarrow>
   plug hs s' = s \<and> entries_before hs = [] \<and> (\<exists>b cb kb vb y. s' = Nd b cb Lf kb vb y)"
  by (induction s arbitrary: hs s') (auto simp: plug_append split: if_splits prod.splits)

lemma max_loop_conc:
  assumes "dist (addrs (plug fs s))" and "s \<noteq> Lf"
  shows "tree_node_max_loop (conc cmp n (plug fs s)) (ref s) = Some (ref (snd (rightmost s)))"
  using assms
proof (induction s arbitrary: fs)
  case (Nd a c l k v r)
  have "right_of (conc cmp n (plug fs (Nd a c l k v r))) (Some a) = Some (ref r)"
    using node_at_conc [OF Nd.prems(1)] by (simp add: right_of_def)
  then show ?case
    using Nd.IH(2) [of "RightOf a c l k v # fs"] Nd.prems
    by (subst tree_node_max_loop.simps) (simp add: case_prod_beta Let_def)
qed simp

lemma min_loop_conc:
  assumes "dist (addrs (plug fs s))" and "s \<noteq> Lf"
  shows "tree_node_min_loop (conc cmp n (plug fs s)) (ref s) = Some (ref (snd (leftmost s)))"
  using assms
proof (induction s arbitrary: fs)
  case (Nd a c l k v r)
  have "left_of (conc cmp n (plug fs (Nd a c l k v r))) (Some a) = Some (ref l)"
    using node_at_conc [OF Nd.prems(1)] by (simp add: left_of_def)
  then show ?case
    using Nd.IH(1) [of "LeftOf a c k v r # fs"] Nd.prems
    by (subst tree_node_min_loop.simps) (simp add: case_prod_beta Let_def)
qed simp

lemma heir_left:
  assumes dist: "dist (addrs (plug fs (Nd a c l k v r)))" and l: "rightmost l = (hs, Nd b cb x kb vb y)"
    "l \<noteq> Lf"
  defines "s1 \<equiv> plug (hs @ LeftOf a c kb vb r # fs) (Nd b cb x kb vb y)"
  shows "tree_delete_heir (conc cmp n (plug fs (Nd a c l k v r))) (Some a) = Some (Some b)"
    and "tree_copy_entry (conc cmp n (plug fs (Nd a c l k v r))) (Some a) (Some b) =
      Some (conc cmp n s1)"
    and "s1 = plug fs (Nd a c l kb vb r)"
proof -
  let ?t = "conc cmp n (plug fs (Nd a c l k v r))"
  have plug: "plug hs (Nd b cb x kb vb y) = l" using rightmost_ok [OF l] by blast
  then show s1: "s1 = plug fs (Nd a c l kb vb r)" by (simp add: s1_def plug_append)
  have node: "node_at ?t (Some a) = Some (mk_node (cref fs) (ref l) (ref r) c k v)"
    by (rule node_at_conc [OF dist])
  show "tree_delete_heir ?t (Some a) = Some (Some b)"
    using node max_loop_conc [of "LeftOf a c k v r # fs" l cmp n] dist l
    by (simp add: tree_delete_heir_def tree_node_max_def)
  have "plug (hs @ LeftOf a c k v r # fs) (Nd b cb x kb vb y) = plug fs (Nd a c l k v r)"
    using plug by (simp add: plug_append)
  then have "node_at ?t (Some b) =
      Some (mk_node (cref (hs @ LeftOf a c k v r # fs)) (ref x) (ref y) cb kb vb)"
    using node_at_conc [of "hs @ LeftOf a c k v r # fs" b cb x kb vb y cmp n] dist by metis
  then show "tree_copy_entry ?t (Some a) (Some b) = Some (conc cmp n s1)"
    using node_upd_conc [OF dist, of _ c kb vb cmp n] s1 by (simp add: tree_copy_entry_def)
qed

lemma heir_right:
  assumes dist: "dist (addrs (plug fs (Nd a c Lf k v r)))" and r: "leftmost r = (hs, Nd b cb x kb vb y)"
    "r \<noteq> Lf"
  defines "s1 \<equiv> plug (hs @ RightOf a c Lf kb vb # fs) (Nd b cb x kb vb y)"
  shows "tree_delete_heir (conc cmp n (plug fs (Nd a c Lf k v r))) (Some a) = Some (Some b)"
    and "tree_copy_entry (conc cmp n (plug fs (Nd a c Lf k v r))) (Some a) (Some b) =
      Some (conc cmp n s1)"
    and "s1 = plug fs (Nd a c Lf kb vb r)"
proof -
  let ?t = "conc cmp n (plug fs (Nd a c Lf k v r))"
  have plug: "plug hs (Nd b cb x kb vb y) = r" using leftmost_ok [OF r] by blast
  then show s1: "s1 = plug fs (Nd a c Lf kb vb r)" by (simp add: s1_def plug_append)
  have node: "node_at ?t (Some a) = Some (mk_node (cref fs) None (ref r) c k v)"
    using node_at_conc [OF dist] by simp
  show "tree_delete_heir ?t (Some a) = Some (Some b)"
    using node min_loop_conc [of "RightOf a c Lf k v # fs" r cmp n] dist r
    by (simp add: tree_delete_heir_def tree_node_min_def)
  have "plug (hs @ RightOf a c Lf k v # fs) (Nd b cb x kb vb y) = plug fs (Nd a c Lf k v r)"
    using plug by (simp add: plug_append)
  then have "node_at ?t (Some b) =
      Some (mk_node (cref (hs @ RightOf a c Lf k v # fs)) (ref x) (ref y) cb kb vb)"
    using node_at_conc [of "hs @ RightOf a c Lf k v # fs" b cb x kb vb y cmp n] dist by metis
  then show "tree_copy_entry ?t (Some a) (Some b) = Some (conc cmp n s1)"
    using node_upd_conc [OF dist, of _ c kb vb cmp n] s1 by (simp add: tree_copy_entry_def)
qed

subsection \<open>Deletion as a whole\<close>

lemma find_loop_conc:
  assumes "dist (addrs (plug fs s))"
  shows "tree_find_loop (conc cmp n (plug fs s)) key (ref s) =
    Some (ref (snd (descend cmp key fs s)))"
  using assms
proof (induction s arbitrary: fs)
  case Lf
  then show ?case by (subst tree_find_loop.simps) simp
next
  case (Nd a c l k v r)
  have "node_at (conc cmp n (plug fs (Nd a c l k v r))) (Some a) =
      Some (mk_node (cref fs) (ref l) (ref r) c k v)"
    by (rule node_at_conc [OF Nd.prems])
  then show ?case
    using Nd.IH(1) [of "LeftOf a c k v r # fs"] Nd.IH(2) [of "RightOf a c l k v # fs"] Nd.prems
    by (subst tree_find_loop.simps) (auto simp: Let_def)
qed

text \<open>The part of \<open>tree_delete\<close> after the search, on the node that was found.\<close>

lemma delete_found:
  assumes dist: "dist (addrs (plug fs (Nd a c l k v r)))" and rb: "rb (plug fs (Nd a c l k v r))"
    and find: "tree_find_node (conc cmp n (plug fs (Nd a c l k v r))) key = Some (Some a)"
  shows "\<exists>s'. tree_delete (conc cmp n (plug fs (Nd a c l k v r))) key =
      Some (Some v, conc cmp (n - 1) s') \<and> deleted fs l r s' \<and>
      set (addrs s') \<subseteq> set (addrs (plug fs (Nd a c l k v r)))"
proof -
  have node: "node_at (conc cmp n (plug fs (Nd a c l k v r))) (Some a) =
      Some (mk_node (cref fs) (ref l) (ref r) c k v)"
    by (rule node_at_conc [OF dist])
  have rb_entry: "rb (plug fs (Nd a c l k' v' r))" for k' v' using rb unfolding rb_plug by simp
  show ?thesis
  proof (cases "l = Lf")
    case False
    obtain hs b cb x kb vb where right: "rightmost l = (hs, Nd b cb x kb vb Lf)"
      "plug hs (Nd b cb x kb vb Lf) = l" "entries_after hs = []"
      using rightmost_ok [OF _ False] by (metis surj_pair)
    let ?fs = "hs @ LeftOf a c kb vb r # fs"
    note heir = heir_left [OF dist right(1) False]
    have s1: "plug ?fs (Nd b cb x kb vb Lf) = plug fs (Nd a c l kb vb r)" by (rule heir(3))
    have addrs: "addrs (plug ?fs (Nd b cb x kb vb Lf)) = addrs (plug fs (Nd a c l k v r))"
      unfolding s1 by simp
    obtain s' where s': "tree_delete_node (conc cmp n (plug ?fs (Nd b cb x kb vb Lf))) (Some b) =
        Some (conc cmp n s')" "deleted ?fs x Lf s'" "set (addrs s') \<subseteq> set (addrs (plug fs (Nd a c l k v r)))"
      using delete_node_ok [of ?fs b cb x kb vb Lf cmp n] dist rb_entry unfolding addrs s1 by auto
    have "entries l = entries_before hs @ entries x @ [(kb, vb)]"
      using right(2,3) by (metis plug_entries entries.simps append_Nil2)
    then have "deleted fs l r s'" using s'(2) right(3) by (simp add: deleted_def)
    moreover have "tree_delete (conc cmp n (plug fs (Nd a c l k v r))) key =
        Some (Some v, conc cmp (n - 1) s')"
      using find node heir(1,2) s'(1) by (simp add: tree_delete_def)
    ultimately show ?thesis using s'(3) by blast
  next
    case l: True
    show ?thesis
    proof (cases "r = Lf")
      case False
      obtain hs b cb kb vb y where left: "leftmost r = (hs, Nd b cb Lf kb vb y)"
        "plug hs (Nd b cb Lf kb vb y) = r" "entries_before hs = []"
        using leftmost_ok [OF _ False] by (metis surj_pair)
      let ?fs = "hs @ RightOf a c Lf kb vb # fs"
      note heir = heir_right [OF dist [unfolded l] left(1) False]
      have s1: "plug ?fs (Nd b cb Lf kb vb y) = plug fs (Nd a c l kb vb r)"
        unfolding l by (rule heir(3))
      have addrs: "addrs (plug ?fs (Nd b cb Lf kb vb y)) = addrs (plug fs (Nd a c l k v r))"
        unfolding s1 by simp
      obtain s' where s': "tree_delete_node (conc cmp n (plug ?fs (Nd b cb Lf kb vb y))) (Some b) =
          Some (conc cmp n s')" "deleted ?fs Lf y s'" "set (addrs s') \<subseteq> set (addrs (plug fs (Nd a c l k v r)))"
        using delete_node_ok [of ?fs b cb Lf kb vb y cmp n] dist rb_entry unfolding addrs s1 by auto
      have "entries r = (kb, vb) # entries y @ entries_after hs"
        using left(2,3) by (metis plug_entries entries.simps append_Nil append_Cons)
      then have "deleted fs l r s'" using s'(2) left(3) l by (simp add: deleted_def)
      moreover have "tree_delete (conc cmp n (plug fs (Nd a c l k v r))) key =
          Some (Some v, conc cmp (n - 1) s')"
        using find node heir(1,2) s'(1) l by (simp add: tree_delete_def)
      ultimately show ?thesis using s'(3) by blast
    next
      case r: True
      obtain s' where s': "tree_delete_node (conc cmp n (plug fs (Nd a c l k v r))) (Some a) =
          Some (conc cmp n s')" "deleted fs l r s'"
          "set (addrs s') \<subseteq> set (addrs (plug fs (Nd a c l k v r)))"
        using delete_node_ok [OF dist rb, of cmp n] l by blast
      have "tree_delete_heir (conc cmp n (plug fs (Nd a c l k v r))) (Some a) = Some None"
        using node l r by (simp add: tree_delete_heir_def)
      then have "tree_delete (conc cmp n (plug fs (Nd a c l k v r))) key =
          Some (Some v, conc cmp (n - 1) s')"
        using find node s'(1) by (simp add: tree_delete_def)
      then show ?thesis using s'(2,3) by blast
    qed
  qed
qed

lemma filter_position:
  assumes "\<forall>e \<in> set es. below cmp key e" and "\<forall>e \<in> set fs. beyond cmp key e"
  shows "filter (\<lambda>e. cmp key (fst e) \<noteq> 0) (es @ fs) = es @ fs"
    and "cmp key k = 0 \<Longrightarrow> filter (\<lambda>e. cmp key (fst e) \<noteq> 0) (es @ (k, v) # fs) = es @ fs"
proof -
  have "filter (\<lambda>e. cmp key (fst e) \<noteq> 0) es = es" "filter (\<lambda>e. cmp key (fst e) \<noteq> 0) fs = fs"
    using assms by (fastforce simp: filter_id_conv)+
  then show "filter (\<lambda>e. cmp key (fst e) \<noteq> 0) (es @ fs) = es @ fs"
    and "cmp key k = 0 \<Longrightarrow> filter (\<lambda>e. cmp key (fst e) \<noteq> 0) (es @ (k, v) # fs) = es @ fs"
    by simp_all
qed

lemma sorted_filter: "sorted_entries cmp es \<Longrightarrow> sorted_entries cmp (filter P es)"
  by (simp add: sorted_entries_def sorted_wrt_filter)

lemma tree_delete_ok:
  assumes ok: "tree_ok cmp t s" and cmp: "comparator cmp"
  shows "\<exists>t' s'. tree_delete t key = Some (lookup cmp key (entries s), t') \<and> tree_ok cmp t' s' \<and>
    entries s' = filter (\<lambda>e. cmp key (fst e) \<noteq> 0) (entries s) \<and> set (addrs s') \<subseteq> set (addrs s)"
proof -
  obtain fs u where d: "descend cmp key [] s = (fs, u)" by fastforce
  have s: "plug fs u = s" using descend_plug [OF d] by simp
  let ?n = "int (length (entries s))"
  have t: "t = conc cmp ?n s" and dist: "dist (addrs s)" and rb: "rb s"
    and sorted: "sorted_entries cmp (entries s)"
    using ok by (simp_all add: tree_ok_def dist_def)
  have find: "tree_find_node (conc cmp ?n s) key = Some (ref u)"
    using find_loop_conc [of "[]" s cmp ?n key] dist d by (simp add: tree_find_node_def)
  have pos: "\<forall>e \<in> set (entries_before fs). below cmp key e"
    "\<forall>e \<in> set (entries_after fs). beyond cmp key e"
    "case u of Lf \<Rightarrow> True | Nd a c l k v r \<Rightarrow> cmp key k = 0 \<and>
       (\<forall>e \<in> set (entries l). below cmp key e) \<and> (\<forall>e \<in> set (entries r). beyond cmp key e)"
    using comparator.descend_position [OF cmp d] sorted by simp_all
  show ?thesis
  proof (cases u)
    case Lf
    have e: "entries s = entries_before fs @ entries_after fs" using s Lf by auto
    have "tree_delete t key = Some (None, t)" using find Lf t by (simp add: tree_delete_def)
    then show ?thesis
      using ok e split_lookup(1) [of "entries_before fs" cmp key "entries_after fs"]
        filter_position(1) [of "entries_before fs" cmp key "entries_after fs"] pos by auto
  next
    case (Nd a c l k v r)
    let ?es = "entries_before fs @ entries l" and ?fs = "entries r @ entries_after fs"
    have e: "entries s = ?es @ (k, v) # ?fs" using s Nd by auto
    have all: "\<forall>e \<in> set ?es. below cmp key e" "\<forall>e \<in> set ?fs. beyond cmp key e" "cmp key k = 0"
      using pos Nd by auto
    have look: "lookup cmp key (entries s) = Some v"
      unfolding e
      by (rule split_lookup(3) [of ?es cmp key ?fs, OF all])
    have filt: "filter (\<lambda>e. cmp key (fst e) \<noteq> 0) (entries s) = ?es @ ?fs"
      unfolding e
      by (rule filter_position(2) [of ?es cmp key ?fs, OF all])
    obtain s' where s': "tree_delete (conc cmp ?n s) key = Some (Some v, conc cmp (?n - 1) s')"
      "deleted fs l r s'" "set (addrs s') \<subseteq> set (addrs s)"
      using delete_found [of fs a c l k v r cmp ?n key] dist rb find s Nd by auto
    have es': "entries s' = filter (\<lambda>e. cmp key (fst e) \<noteq> 0) (entries s)"
      using s'(2) filt by (simp add: deleted_def)
    moreover have "sorted_entries cmp (entries s')"
      unfolding es' by (rule sorted_filter [OF sorted])
    moreover have "?n - 1 = int (length (entries s'))" using es' filt e by simp
    ultimately have "tree_ok cmp (conc cmp (?n - 1) s') s'"
      using s'(2) by (simp add: tree_ok_def deleted_def)
    then show ?thesis using s'(1,3) look t es' by auto
  qed
qed

end
