(* ===== verification/RbQuery.thy ===== *)
theory RbQuery
  imports RbDelete
begin

section \<open>Traversals of the red-black tree\<close>

text \<open>
  Folds, statistics, the integrity check and the destruction follow child pointers only, so they
  are shown for any store that holds a shape by its child pointers, whatever the parent pointers
  and colours are. The check is shown to be exact.
\<close>

subsection \<open>Shapes by child pointers\<close>

fun shape_at :: "(addr \<rightharpoonup> ('k, 'v) tnode) \<Rightarrow> ('k, 'v) shape \<Rightarrow> bool" where
  "shape_at m Lf = True"
| "shape_at m (Nd a c l k v r) \<longleftrightarrow>
     (\<exists>p. m a = Some (mk_node p (ref l) (ref r) c k v)) \<and> shape_at m l \<and> shape_at m r"

text \<open>
  \<open>parent_is\<close>: the parent pointer of the root of a subtree. \<open>parents_ok\<close>: the parent pointers of all
  nodes below the root of the subtree. The parent pointer of the root itself is not part of it, since
  \<open>tree_check_integrity\<close> looks at the parent pointers of children only; \<open>tree_at\<close> is the conjunction.
\<close>

definition parent_is :: "(addr \<rightharpoonup> ('k, 'v) tnode) \<Rightarrow> ('k, 'v) shape \<Rightarrow> ptr \<Rightarrow> bool" where
  "parent_is m s p \<longleftrightarrow> (case ref s of None \<Rightarrow> True | Some b \<Rightarrow> map_option tn_parent (m b) = Some p)"

fun parents_ok :: "(addr \<rightharpoonup> ('k, 'v) tnode) \<Rightarrow> ('k, 'v) shape \<Rightarrow> bool" where
  "parents_ok m Lf = True"
| "parents_ok m (Nd a c l k v r) \<longleftrightarrow>
     parent_is m l (Some a) \<and> parent_is m r (Some a) \<and> parents_ok m l \<and> parents_ok m r"

lemma tree_at_shape: "tree_at m p s \<longleftrightarrow> shape_at m s \<and> parent_is m s p \<and> parents_ok m s"
  by (induction s arbitrary: p) (auto simp: parent_is_def)

lemma shape_at_cong: "(\<And>a. a \<in> set (addrs s) \<Longrightarrow> m a = m' a) \<Longrightarrow> shape_at m s = shape_at m' s"
  by (induction s) auto

lemma shape_conc: "distinct (addrs s) \<Longrightarrow> shape_at (tr_nodes (conc cmp n s)) s"
  using rep_conc [of s cmp n] by (simp add: rep_def tree_at_shape dist_def)

lemma parents_conc: "distinct (addrs s) \<Longrightarrow> parents_ok (tr_nodes (conc cmp n s)) s"
  using rep_conc [of s cmp n] by (simp add: rep_def tree_at_shape dist_def)

subsection \<open>Search and folds\<close>

lemma tree_find_ok:
  assumes ok: "tree_ok cmp t s" and cmp: "comparator cmp"
  shows "tree_find t key = Some (lookup cmp key (entries s))"
proof -
  obtain fs u where d: "descend cmp key [] s = (fs, u)" by fastforce
  have s: "plug fs u = s" using descend_plug [OF d] by simp
  let ?n = "int (length (entries s))"
  have t: "t = conc cmp ?n s" and dist: "dist (addrs s)"
    using ok by (simp_all add: tree_ok_def dist_def)
  have find: "tree_find_node t key = Some (ref u)"
    using find_loop_conc [of "[]" s cmp ?n key] dist d t by (simp add: tree_find_node_def)
  have pos: "\<forall>e \<in> set (entries_before fs). below cmp key e"
    "\<forall>e \<in> set (entries_after fs). beyond cmp key e"
    "case u of Lf \<Rightarrow> True | Nd a c l k v r \<Rightarrow> cmp key k = 0 \<and>
       (\<forall>e \<in> set (entries l). below cmp key e) \<and> (\<forall>e \<in> set (entries r). beyond cmp key e)"
    using comparator.descend_position [OF cmp d] ok by (simp_all add: tree_ok_def)
  show ?thesis
  proof (cases u)
    case Lf
    then have "entries s = entries_before fs @ entries_after fs" using s by auto
    then have "lookup cmp key (entries s) = None"
      using split_lookup(1) [of "entries_before fs" cmp key "entries_after fs"] pos by simp
    then show ?thesis using find Lf by (simp add: tree_find_def)
  next
    case (Nd a c l k v r)
    then have e: "entries s = (entries_before fs @ entries l) @ (k, v) # entries r @ entries_after fs"
      using s by auto
    have "lookup cmp key (entries s) = Some v"
      unfolding e by (rule split_lookup(3)) (use pos Nd in auto)
    moreover have "node_at t (Some a) = Some (mk_node (cref fs) (ref l) (ref r) c k v)"
      using node_at_conc [of fs a c l k v r cmp ?n] dist s Nd t by auto
    ultimately show ?thesis using find Nd by (simp add: tree_find_def)
  qed
qed

lemma foldl_shape:
  "shape_at (tr_nodes t) s \<Longrightarrow>
   tree_node_foldl t f (ref s) acc = Some (fold (\<lambda>(k, v). f k v) (entries s) acc)"
proof (induction s arbitrary: acc)
  case (Nd a c l k v r)
  then show ?case
    by (subst tree_node_foldl.simps) (auto simp: node_at_def Let_def)
qed (subst tree_node_foldl.simps, simp)

lemma foldr_shape:
  "shape_at (tr_nodes t) s \<Longrightarrow>
   tree_node_foldr t f (ref s) acc = Some (foldr (\<lambda>(k, v). f k v) (entries s) acc)"
proof (induction s arbitrary: acc)
  case (Nd a c l k v r)
  then show ?case
    by (subst tree_node_foldr.simps) (auto simp: node_at_def Let_def)
qed (subst tree_node_foldr.simps, simp)

subsection \<open>Statistics\<close>

fun height_of :: "('k, 'v) shape \<Rightarrow> nat" where
  "height_of Lf = 0"
| "height_of (Nd a c l k v r) = max (height_of l) (height_of r) + 1"

fun min_height_of :: "('k, 'v) shape \<Rightarrow> nat" where
  "min_height_of Lf = 0"
| "min_height_of (Nd a c l k v r) = min (min_height_of l) (min_height_of r) + 1"

fun black_height_of :: "('k, 'v) shape \<Rightarrow> nat" where
  "black_height_of Lf = 0"
| "black_height_of (Nd a c l k v r) =
     max (black_height_of l) (black_height_of r) + (if c = BLACK then 1 else 0)"

fun colored :: "color \<Rightarrow> ('k, 'v) shape \<Rightarrow> nat" where
  "colored d Lf = 0"
| "colored d (Nd a c l k v r) = colored d l + colored d r + (if c = d then 1 else 0)"

definition info_of :: "('k, 'v) shape \<Rightarrow> tree_info_t" where
  "info_of s = \<lparr>ti_size = int (length (entries s)), ti_height = int (height_of s),
     ti_min_height = int (min_height_of s), ti_black_height = int (black_height_of s),
     ti_red_number = int (colored RED s), ti_black_number = int (colored BLACK s)\<rparr>"

lemma info_shape:
  "shape_at (tr_nodes t) s \<Longrightarrow> tree_node_info t (ref s) = Some (info_of s)"
proof (induction s)
  case Lf
  show ?case by (subst tree_node_info.simps) (simp add: tree_info_zero_def info_of_def)
next
  case (Nd a c l k v r)
  then show ?case
    by (subst tree_node_info.simps)
      (auto simp: node_at_def color_test_Some info_of_def max_def min_def)
qed

lemma bal_black_height: "bal n s \<Longrightarrow> black_height_of s = n"
  by (induction s arbitrary: n) (auto split: if_splits)

lemma bal_unfold:
  "(\<exists>n. bal n (Nd a c l k v r)) \<longleftrightarrow>
   (\<exists>n. bal n l) \<and> (\<exists>n. bal n r) \<and> black_height_of l = black_height_of r"
proof
  assume "(\<exists>n. bal n l) \<and> (\<exists>n. bal n r) \<and> black_height_of l = black_height_of r"
  then obtain n where "bal n l" "bal n r" using bal_black_height by metis
  then show "\<exists>n. bal n (Nd a c l k v r)"
    by (cases c) (auto intro: exI [of _ "Suc n"])
next
  assume "\<exists>n. bal n (Nd a c l k v r)"
  then obtain m where "bal m l" "bal m r" by (cases c) auto
  then show "(\<exists>n. bal n l) \<and> (\<exists>n. bal n r) \<and> black_height_of l = black_height_of r"
    using bal_black_height by metis
qed

lemma rb_heights:
  assumes "bal n s" "nored s"
  shows "height_of s \<le> 2 * n + (if shade s = RED then 1 else 0) \<and>
    n + (if shade s = RED then 1 else 0) \<le> min_height_of s"
  using assms
proof (induction s arbitrary: n)
  case (Nd a c l k v r)
  show ?case
  proof (cases c)
    case RED
    then show ?thesis using Nd.IH [of n] Nd.prems by auto
  next
    case BLACK
    then obtain m where "n = Suc m" using Nd.prems by (auto simp: gr0_conv_Suc)
    then show ?thesis using Nd.IH [of m] Nd.prems BLACK by (auto split: if_splits)
  qed
qed simp

lemma rb_height_bound: "(\<exists>n. bal n s) \<Longrightarrow> nored s \<Longrightarrow> height_of s \<le> 2 * min_height_of s"
  using rb_heights [of _ s] by (auto split: if_splits) fastforce+

subsection \<open>The integrity check\<close>

lemma wrong_parent_shape:
  assumes "shape_at (tr_nodes t) s"
  shows "wrong_parent t (ref s) p = Some (\<not> parent_is (tr_nodes t) s p)"
  using assms by (cases s) (auto simp: wrong_parent_def parent_of_def node_at_def parent_is_def)

lemma black_shape: "shape_at (tr_nodes t) s \<Longrightarrow> IS_BLACK t (ref s) = Some (shade s = BLACK)"
  by (cases s) (auto simp: IS_BLACK_def node_at_def)

lemma check_shape:
  assumes "shape_at (tr_nodes t) s"
    and "parent_is (tr_nodes t) s p" and "shade s = RED \<longrightarrow> IS_BLACK t p = Some b"
  shows "tree_node_check_integrity t (ref s) =
    Some (if (shade s = RED \<longrightarrow> b) \<and> parents_ok (tr_nodes t) s \<and> nored s \<and> (\<exists>n. bal n s)
          then 1 else 0)"
  using assms
proof (induction s arbitrary: p b)
  case Lf
  show ?case by (subst tree_node_check_integrity.simps) simp
next
  case (Nd a c l k v r)
  let ?m = "tr_nodes t"
  have node: "?m a = Some (mk_node p (ref l) (ref r) c k v)" and sub: "shape_at ?m l" "shape_at ?m r"
    using Nd.prems(1,2) by (auto simp: parent_is_def)
  have red: "red_violation t (Some a) =
      Some (c = RED \<and> \<not> (b \<and> shade l = BLACK \<and> shade r = BLACK))"
    using node Nd.prems(3) black_shape [OF sub(1)] black_shape [OF sub(2)]
    by (cases c; cases b; cases "shade l")
      (simp_all add: red_violation_def color_test_Some parent_of_def left_is_black_def
        right_is_black_def left_of_def right_of_def node_at_def)
  have black: "IS_BLACK t (Some a) = Some (c = BLACK)"
    using node by (simp add: color_test_Some node_at_def)
  have left: "tree_node_check_integrity t (ref l) =
      Some (if (shade l = RED \<longrightarrow> c = BLACK) \<and> parents_ok ?m l \<and> nored l \<and> (\<exists>n. bal n l)
            then 1 else 0)" if "parent_is ?m l (Some a)"
    by (rule Nd.IH(1) [OF sub(1) that]) (simp add: black)
  have right: "tree_node_check_integrity t (ref r) =
      Some (if (shade r = RED \<longrightarrow> c = BLACK) \<and> parents_ok ?m r \<and> nored r \<and> (\<exists>n. bal n r)
            then 1 else 0)" if "parent_is ?m r (Some a)"
    by (rule Nd.IH(2) [OF sub(2) that]) (simp add: black)
  have heights: "int (height_of (Nd a c l k v r)) \<le> int (min_height_of (Nd a c l k v r)) * 2"
    if "nored (Nd a c l k v r)" "\<exists>n. bal n (Nd a c l k v r)"
  proof -
    have "int (height_of (Nd a c l k v r)) \<le> int (2 * min_height_of (Nd a c l k v r))"
      unfolding of_nat_le_iff by (rule rb_height_bound [OF that(2,1)])
    then show ?thesis by simp
  qed
  let ?h = "int (height_of (Nd a c l k v r)) \<le> int (min_height_of (Nd a c l k v r)) * 2"
  have node': "node_at t (Some a) = Some (mk_node p (ref l) (ref r) c k v)"
    using node by (simp add: node_at_def)
  have unfold: "tree_node_check_integrity t (Some a) =
      (if \<not> parent_is ?m l (Some a) then Some 0
       else if \<not> parent_is ?m r (Some a) then Some 0
       else if c = RED \<and> \<not> (b \<and> shade l = BLACK \<and> shade r = BLACK) then Some 0
       else if black_height_of l \<noteq> black_height_of r then Some 0
       else if \<not> ?h then Some 0
       else do {
         i \<leftarrow> tree_node_check_integrity t (ref l);
         if i \<noteq> 0 then do {
           j \<leftarrow> tree_node_check_integrity t (ref r);
           Some (if j \<noteq> 0 then 1 else 0) }
         else Some 0 })"
    by (subst tree_node_check_integrity.simps)
      (simp add: node' red info_shape [OF sub(1)] info_shape [OF sub(2)]
        wrong_parent_shape [OF sub(1)] wrong_parent_shape [OF sub(2)] info_of_def Let_def
        max_def min_def cong: if_cong)
  let ?ok = "(c = RED \<longrightarrow> b) \<and> parents_ok ?m (Nd a c l k v r) \<and> nored (Nd a c l k v r) \<and>
      (\<exists>n. bal n (Nd a c l k v r))"
  let ?here = "parent_is ?m l (Some a) \<and> parent_is ?m r (Some a) \<and>
      (c = RED \<longrightarrow> b \<and> shade l = BLACK \<and> shade r = BLACK) \<and> black_height_of l = black_height_of r"
  have ok: "?ok \<longleftrightarrow> ?here \<and> (parents_ok ?m l \<and> nored l \<and> (\<exists>n. bal n l)) \<and>
      (parents_ok ?m r \<and> nored r \<and> (\<exists>n. bal n r))"
    unfolding bal_unfold by auto
  define A where "A \<longleftrightarrow> parents_ok ?m l \<and> nored l \<and> (\<exists>n. bal n l)"
  define B where "B \<longleftrightarrow> parents_ok ?m r \<and> nored r \<and> (\<exists>n. bal n r)"
  define H where "H \<longleftrightarrow> ?h"
  have ok: "?ok \<longleftrightarrow> ?here \<and> A \<and> B"
    unfolding ok A_def B_def ..
  have H: "?ok \<Longrightarrow> H" using heights unfolding H_def by blast
  have "tree_node_check_integrity t (Some a) = Some (if ?here \<and> A \<and> B then 1 else 0)"
  proof (cases "?here \<and> H")
    case True
    then have "tree_node_check_integrity t (ref l) = Some (if A then 1 else 0)"
      "tree_node_check_integrity t (ref r) = Some (if B then 1 else 0)"
      using left right by (auto simp: A_def B_def)
    then show ?thesis
      using True unfolding unfold H_def [symmetric] by (cases A; cases B; cases c; simp)
  next
    case False
    then have "\<not> (?here \<and> A \<and> B)" using H ok by blast
    moreover have "tree_node_check_integrity t (Some a) = Some 0"
      unfolding unfold H_def [symmetric] using False by auto
    ultimately show ?thesis by simp
  qed
  then show ?case unfolding ok [symmetric] by simp
qed

lemma tree_check_shape:
  assumes "shape_at (tr_nodes t) s" and "tr_root t = ref s"
  shows "tree_check_integrity t =
    Some (if rb s \<and> parents_ok (tr_nodes t) s then 1 else 0)"
proof -
  obtain p where p: "parent_is (tr_nodes t) s p"
    using assms(1) by (cases s) (auto simp: parent_is_def)
  show ?thesis
    using check_shape [OF assms(1) p, of True] black_shape [OF assms(1)] assms(2)
    by (auto simp: tree_check_integrity_def rb_def)
qed

text \<open>
  The parent pointer of the root of the whole tree does not matter: with any pointer in its place the
  store has the same shape and the same parent pointers below the root.
\<close>

lemma shape_at_unique:
  "shape_at m s \<Longrightarrow> shape_at m u \<Longrightarrow> ref s = ref u \<Longrightarrow> s = u"
proof (induction s arbitrary: u)
  case Lf
  then show ?case by (cases u) auto
next
  case (Nd a c l k v r)
  then show ?case by (cases u) (auto simp: mk_node_def)
qed

lemma shape_at_sub:
  "shape_at m s \<Longrightarrow> a \<in> set (addrs s) \<Longrightarrow> \<exists>u. shape_at m u \<and> ref u = Some a \<and> size u \<le> size s"
proof (induction s)
  case Lf
  then show ?case by simp
next
  case (Nd b c l k v r)
  consider "a = b" | "a \<in> set (addrs l)" | "a \<in> set (addrs r)" using Nd.prems(2) by auto
  then show ?case
  proof cases
    case 1
    then show ?thesis using Nd.prems(1) by (intro exI [of _ "Nd b c l k v r"]) simp
  next
    case 2
    then show ?thesis using Nd.IH(1) Nd.prems(1) by fastforce
  next
    case 3
    then show ?thesis using Nd.IH(2) Nd.prems(1) by fastforce
  qed
qed

lemma root_not_below:
  assumes "shape_at m (Nd a c l k v r)"
  shows "a \<notin> set (addrs l)" and "a \<notin> set (addrs r)"
proof -
  have *: False if "a \<in> set (addrs u)" "shape_at m u" "size u < size (Nd a c l k v r)" for u
    using shape_at_sub [OF that(2,1)] shape_at_unique [OF assms] that(3) by force
  show "a \<notin> set (addrs l)" "a \<notin> set (addrs r)" using * [of l] * [of r] assms by auto
qed

lemma parent_is_ex: "shape_at m s \<Longrightarrow> \<exists>p. parent_is m s p"
  by (cases s) (auto simp: parent_is_def)

lemma parent_is_cong:
  "(\<And>b. b \<in> set (addrs s) \<Longrightarrow> m b = m' b) \<Longrightarrow> parent_is m s p = parent_is m' s p"
  by (cases s) (simp_all add: parent_is_def)

lemma parents_ok_cong:
  "(\<And>b. b \<in> set (addrs s) \<Longrightarrow> m b = m' b) \<Longrightarrow> parents_ok m s = parents_ok m' s"
proof (induction s)
  case Lf
  then show ?case by simp
next
  case (Nd a c l k v r)
  have "parent_is m l p = parent_is m' l p" "parent_is m r p = parent_is m' r p" for p
    using Nd.prems by (simp_all add: parent_is_cong [where m = m and m' = m'])
  then show ?case using Nd by simp
qed

lemma root_parent_free:
  assumes "shape_at m s" and "ref s = Some a" and "m a = Some n"
    and m': "m' = m(a \<mapsto> n\<lparr>tn_parent := q\<rparr>)"
  shows "shape_at m' s \<and> parents_ok m' s = parents_ok m s"
proof -
  have shape: "shape_at m' u" if "shape_at m u" for u
    using that assms(3) by (induction u) (auto simp: m' mk_node_def)
  obtain c l k v r where s: "s = Nd a c l k v r" using assms(2) by (cases s) auto
  have "parents_ok m' u = parents_ok m u" "parent_is m' u p = parent_is m u p"
    if "a \<notin> set (addrs u)" for u p
    by (rule parents_ok_cong parent_is_cong; use that in \<open>auto simp: m'\<close>)+
  then show ?thesis
    using shape [OF assms(1)] root_not_below [OF assms(1) [unfolded s]] unfolding s by simp
qed

lemma tree_check_root_parent:
  assumes "shape_at (tr_nodes t) s" and "tr_root t = ref s"
    and "tr_root t = Some a" and "tr_nodes t a = Some n"
  shows "tree_check_integrity (t\<lparr>tr_nodes := (tr_nodes t)(a \<mapsto> n\<lparr>tn_parent := q\<rparr>)\<rparr>) =
    tree_check_integrity t"
proof -
  have "ref s = Some a" using assms(2,3) by simp
  then show ?thesis
    using root_parent_free [OF assms(1) _ assms(4) refl, of q] assms(2)
      tree_check_shape [OF assms(1,2)]
      tree_check_shape [of "t\<lparr>tr_nodes := (tr_nodes t)(a \<mapsto> n\<lparr>tn_parent := q\<rparr>)\<rparr>" s]
    by simp
qed

subsection \<open>Destruction\<close>

fun post_values :: "('k, 'v) shape \<Rightarrow> 'v list" where
  "post_values Lf = []"
| "post_values (Nd a c l k v r) = post_values l @ post_values r @ [v]"

lemma post_values_entries: "mset (post_values s) = mset (map snd (entries s))"
  by (induction s) simp_all

lemma restrict_all: "m |` UNIV = m"
  by (rule ext) (simp add: restrict_map_def)

lemma destroy_shape:
  assumes "shape_at (tr_nodes t) s" and "distinct (addrs s)" and "s \<noteq> Lf"
  shows "tree_destroy_subtree t (ref s) =
    Some (t\<lparr>tr_nodes := tr_nodes t |` (- set (addrs s))\<rparr>, post_values s)"
  using assms
proof (induction s arbitrary: t)
  case (Nd a c l k v r)
  let ?m = "tr_nodes t"
  obtain p where node: "?m a = Some (mk_node p (ref l) (ref r) c k v)" using Nd.prems(1) by auto
  define t1 where "t1 = t\<lparr>tr_nodes := ?m |` (- set (addrs l))\<rparr>"
  define t2 where "t2 = t1\<lparr>tr_nodes := tr_nodes t1 |` (- set (addrs r))\<rparr>"
  have left: "(if ref l \<noteq> None then tree_destroy_subtree t (ref l) else Some (t, [])) =
      Some (t1, post_values l)"
    using Nd.IH(1) [of t] Nd.prems by (cases "l = Lf") (simp_all add: t1_def restrict_all)
  have "shape_at (tr_nodes t1) r"
    using Nd.prems by (subst shape_at_cong [where m' = ?m]) (auto simp: t1_def restrict_map_def)
  then have right: "(if ref r \<noteq> None then tree_destroy_subtree t1 (ref r) else Some (t1, [])) =
      Some (t2, post_values r)"
    using Nd.IH(2) [of t1] Nd.prems by (cases "r = Lf") (simp_all add: t2_def restrict_all)
  have node1: "node_at t1 (Some a) = Some (mk_node p (ref l) (ref r) c k v)"
    and node2: "node_at t2 (Some a) = Some (mk_node p (ref l) (ref r) c k v)"
    using node Nd.prems(2) by (simp_all add: node_at_def t1_def t2_def)
  have node0: "node_at t (Some a) = Some (mk_node p (ref l) (ref r) c k v)"
    using node by (simp add: node_at_def)
  have destroy: "tree_node_destroy t2 (Some a) = Some (t2\<lparr>tr_nodes := (tr_nodes t2)(a := None)\<rparr>)"
    using node2 by (simp add: tree_node_destroy_def node_at_def)
  have "(tr_nodes t2)(a := None) = ?m |` (- set (addrs (Nd a c l k v r)))"
    by (rule ext) (auto simp: t1_def t2_def restrict_map_def)
  then have end_state: "t2\<lparr>tr_nodes := (tr_nodes t2)(a := None)\<rparr> =
      t\<lparr>tr_nodes := ?m |` (- set (addrs (Nd a c l k v r)))\<rparr>"
    by (simp add: t1_def t2_def)
  have "tree_destroy_subtree t (Some a) =
      Some (t2\<lparr>tr_nodes := (tr_nodes t2)(a := None)\<rparr>, post_values l @ post_values r @ [v])"
    by (subst tree_destroy_subtree.simps)
      (simp only: node0 node1 node2 left right destroy bind.bind_lunit mk_node_simps prod.case)
  then show ?case unfolding end_state by simp
qed simp

end
