(* ===== verification/RbMap.thy ===== *)
theory RbMap
  imports RbQuery
begin

section \<open>The tree as a dictionary\<close>

text \<open>
  The contract that a client of the tree relies on, as the locale \<open>dict\<close>: each operation is total
  and acts on a map from keys to values. It is interpreted for the model of the code, for any
  comparison function and any allocator. The properties of the component are at the end.
\<close>

subsection \<open>The contract\<close>

locale dict = comparator cmp
  for cmp :: "'k \<Rightarrow> 'k \<Rightarrow> int" +
  fixes ok :: "'t \<Rightarrow> bool"
    and look :: "'t \<Rightarrow> 'k \<Rightarrow> 'v option"
    and find_op :: "'t \<Rightarrow> 'k \<Rightarrow> 'v option option"
    and insert_op :: "'t \<Rightarrow> 'k \<Rightarrow> 'v \<Rightarrow> ('v \<times> 't) option"
    and delete_op :: "'t \<Rightarrow> 'k \<Rightarrow> ('v option \<times> 't) option"
  assumes find_law: "ok t \<Longrightarrow> find_op t k = Some (look t k)"
    and insert_law: "ok t \<Longrightarrow> \<exists>t'. insert_op t k v =
        Some (case look t k of None \<Rightarrow> v | Some w \<Rightarrow> w, t') \<and> ok t' \<and>
        look t' = (\<lambda>k'. if look t k = None \<and> cmp k k' = 0 then Some v else look t k')"
    and delete_law: "ok t \<Longrightarrow> \<exists>t'. delete_op t k = Some (look t k, t') \<and> ok t' \<and>
        look t' = (\<lambda>k'. if cmp k k' = 0 then None else look t k')"

text \<open>Sequences of operations on a dictionary and on a map, with their results.\<close>

datatype ('k, 'v) dict_op = DFind 'k | DInsert 'k 'v | DDelete 'k

fun run_map :: "('k \<Rightarrow> 'k \<Rightarrow> int) \<Rightarrow> ('k \<Rightarrow> 'v option) \<Rightarrow> ('k, 'v) dict_op list \<Rightarrow>
    'v option list \<times> ('k \<Rightarrow> 'v option)" where
  "run_map cmp m [] = ([], m)"
| "run_map cmp m (DFind k # ops) = (let (rs, m') = run_map cmp m ops in (m k # rs, m'))"
| "run_map cmp m (DInsert k v # ops) =
     (let (rs, m') = run_map cmp
        (\<lambda>k'. if m k = None \<and> cmp k k' = 0 then Some v else m k') ops
      in (Some (case m k of None \<Rightarrow> v | Some w \<Rightarrow> w) # rs, m'))"
| "run_map cmp m (DDelete k # ops) =
     (let (rs, m') = run_map cmp (\<lambda>k'. if cmp k k' = 0 then None else m k') ops
      in (m k # rs, m'))"

fun run_dict :: "('t \<Rightarrow> 'k \<Rightarrow> 'v option option) \<Rightarrow> ('t \<Rightarrow> 'k \<Rightarrow> 'v \<Rightarrow> ('v \<times> 't) option) \<Rightarrow>
    ('t \<Rightarrow> 'k \<Rightarrow> ('v option \<times> 't) option) \<Rightarrow> 't \<Rightarrow> ('k, 'v) dict_op list \<Rightarrow>
    ('v option list \<times> 't) option" where
  "run_dict find_op insert_op delete_op t [] = Some ([], t)"
| "run_dict find_op insert_op delete_op t (DFind k # ops) = do {
     r \<leftarrow> find_op t k;
     (rs, t) \<leftarrow> run_dict find_op insert_op delete_op t ops;
     Some (r # rs, t) }"
| "run_dict find_op insert_op delete_op t (DInsert k v # ops) = do {
     (r, t) \<leftarrow> insert_op t k v;
     (rs, t) \<leftarrow> run_dict find_op insert_op delete_op t ops;
     Some (Some r # rs, t) }"
| "run_dict find_op insert_op delete_op t (DDelete k # ops) = do {
     (r, t) \<leftarrow> delete_op t k;
     (rs, t) \<leftarrow> run_dict find_op insert_op delete_op t ops;
     Some (r # rs, t) }"

context dict
begin

lemma insert_find: "ok t \<Longrightarrow> \<exists>w t'. insert_op t k v = Some (w, t') \<and> find_op t' k = Some (Some w)"
  using insert_law [of t k v] find_law by (fastforce simp: cmp_refl split: option.split)

lemma delete_find: "ok t \<Longrightarrow> \<exists>r t'. delete_op t k = Some (r, t') \<and> find_op t' k = Some None"
  using delete_law [of t k] find_law by (fastforce simp: cmp_refl)

lemma run_dict_map:
  "ok t \<Longrightarrow> \<exists>t'. run_dict find_op insert_op delete_op t ops =
      Some (fst (run_map cmp (look t) ops), t') \<and> ok t' \<and> look t' = snd (run_map cmp (look t) ops)"
proof (induction ops arbitrary: t)
  case Nil
  then show ?case by simp
next
  case (Cons x ops)
  show ?case
  proof (cases x)
    case (DFind k)
    then show ?thesis
      using Cons.IH [OF Cons.prems] find_law [OF Cons.prems, of k]
      by (auto simp: case_prod_beta Let_def)
  next
    case (DInsert k v)
    obtain t1 where "insert_op t k v = Some (case look t k of None \<Rightarrow> v | Some w \<Rightarrow> w, t1)" "ok t1"
      "look t1 = (\<lambda>k'. if look t k = None \<and> cmp k k' = 0 then Some v else look t k')"
      using insert_law [OF Cons.prems] by blast
    then show ?thesis
      using Cons.IH [of t1] DInsert by (auto simp: case_prod_beta Let_def)
  next
    case (DDelete k)
    obtain t1 where "delete_op t k = Some (look t k, t1)" "ok t1"
      "look t1 = (\<lambda>k'. if cmp k k' = 0 then None else look t k')"
      using delete_law [OF Cons.prems] by blast
    then show ?thesis
      using Cons.IH [of t1] DDelete by (auto simp: case_prod_beta Let_def)
  qed
qed

end

subsection \<open>Lookup in the entries\<close>

context comparator
begin

lemma cmp_eq_sym: "cmp x y = 0 \<longleftrightarrow> cmp y x = 0"
  using cmp_swap [of x y] cmp_swap [of y x] by linarith

lemma cmp_eq_trans: "cmp x y = 0 \<Longrightarrow> cmp y z = 0 \<Longrightarrow> cmp x z = 0"
  using cmp_trans [of x y z] cmp_trans [of z y x] cmp_eq_sym [of x y] cmp_eq_sym [of y z]
    cmp_swap [of x z] by linarith

lemma lookup_filter:
  "lookup cmp k' (filter (\<lambda>e. cmp k (fst e) \<noteq> 0) es) =
   (if cmp k k' = 0 then None else lookup cmp k' es)"
proof -
  have "find (\<lambda>e. cmp k' (fst e) = 0) (filter (\<lambda>e. cmp k (fst e) \<noteq> 0) es) =
      (if cmp k k' = 0 then None else find (\<lambda>e. cmp k' (fst e) = 0) es)"
  proof (induction es)
    case (Cons e es)
    have "cmp k (fst e) = 0 \<longleftrightarrow> cmp k k' = 0" if "cmp k' (fst e) = 0"
      using that cmp_eq_trans [of k k' "fst e"] cmp_eq_trans [of k "fst e" k'] cmp_eq_sym [of k' "fst e"]
      by blast
    then show ?case using Cons by auto
  qed simp
  then show ?thesis by (simp add: lookup_def)
qed

lemma lookup_insert:
  assumes "lookup cmp k es = None"
  shows "lookup cmp k' (insert_entry cmp k v es) = (if cmp k k' = 0 then Some v else lookup cmp k' es)"
proof -
  have none: "cmp k' (fst e) \<noteq> 0" if "cmp k k' = 0" "e \<in> set es" for e
  proof -
    have "\<forall>e \<in> set es. cmp k (fst e) \<noteq> 0"
      using assms unfolding lookup_def find_None_iff option.map_disc_iff by blast
    then show ?thesis using that cmp_eq_trans [of k k' "fst e"] by blast
  qed
  have eq: "find P (xs @ e # ys) = (if P e then Some e else find P (xs @ ys))"
    if "P e \<Longrightarrow> \<forall>x \<in> set xs. \<not> P x" for P and e :: "'a \<times> 'c" and xs ys
    using that by (induction xs) auto
  show ?thesis
    unfolding lookup_def insert_entry_def
    by (subst eq)
      (use none cmp_eq_sym in \<open>auto simp: takeWhile_dropWhile_id dest!: set_takeWhileD\<close>)
qed

end

subsection \<open>The instance\<close>

definition tree_inv :: "('k \<Rightarrow> 'k \<Rightarrow> int) \<Rightarrow> ('k, 'v) tree \<Rightarrow> bool" where
  "tree_inv cmp t \<longleftrightarrow> (\<exists>s. tree_ok cmp t s)"

text \<open>What is in the tree, read off by the code's own traversal.\<close>

definition tree_entries :: "('k, 'v) tree \<Rightarrow> ('k \<times> 'v) list" where
  "tree_entries t = the (tree_foldr t (\<lambda>k v es. (k, v) # es) [])"

lemma tree_entries_ok: "tree_ok cmp t s \<Longrightarrow> tree_entries t = entries s"
proof -
  assume "tree_ok cmp t s"
  then have "shape_at (tr_nodes t) s" "tr_root t = ref s"
    using shape_conc by (auto simp: tree_ok_def)
  then have "tree_foldr t (\<lambda>k v es. (k, v) # es) [] = Some (foldr (\<lambda>(k, v) es. (k, v) # es) (entries s) [])"
    using foldr_shape [of t s "\<lambda>k v es. (k, v) # es" "[]"] by (simp add: tree_foldr_def case_prod_unfold)
  moreover have "foldr (\<lambda>(k, v) es. (k, v) # es) xs [] = xs" for xs :: "('a \<times> 'b) list"
    by (induction xs) auto
  ultimately show ?thesis by (simp add: tree_entries_def)
qed

definition tree_look :: "('k, 'v) tree \<Rightarrow> 'k \<Rightarrow> 'v option" where
  "tree_look t key = lookup (tr_cmp t) key (tree_entries t)"

text \<open>What the code relies on in \<open>malloc\<close>: the address it returns is not in use.\<close>

definition malloc_ok :: "(('k, 'v) tree \<Rightarrow> addr) \<Rightarrow> bool" where
  "malloc_ok malloc \<longleftrightarrow> (\<forall>t. finite (dom (tr_nodes t)) \<longrightarrow> tr_nodes t (malloc t) = None)"

lemma malloc_fresh:
  assumes "malloc_ok malloc" "tree_ok cmp t s"
  shows "malloc t \<notin> set (addrs s)"
proof -
  have "dom (tr_nodes t) = set (addrs s)"
    using assms(2) by (auto simp: tree_ok_def conc_def)
  then show ?thesis using assms(1) by (metis List.finite_set domIff malloc_ok_def)
qed

lemma tree_look_ok: "tree_ok cmp t s \<Longrightarrow> tree_look t = (\<lambda>key. lookup cmp key (entries s))"
  using tree_entries_ok [of cmp t s] by (auto simp: tree_look_def tree_ok_def fun_eq_iff)

locale allocated = comparator cmp
  for cmp :: "'k \<Rightarrow> 'k \<Rightarrow> int" +
  fixes malloc :: "('k, 'v) tree \<Rightarrow> addr"
  assumes malloc: "malloc_ok malloc"
begin

lemma tree_find_law: "tree_inv cmp t \<Longrightarrow> tree_find t key = Some (tree_look t key)"
  using tree_find_ok [OF _ comparator_axioms] tree_look_ok by (fastforce simp: tree_inv_def)

lemma tree_insert_law:
  assumes "tree_inv cmp t"
  shows "\<exists>t'. tree_insert (malloc t) t key v =
      Some (case tree_look t key of None \<Rightarrow> v | Some w \<Rightarrow> w, t') \<and> tree_inv cmp t' \<and>
    tree_look t' = (\<lambda>k'. if tree_look t key = None \<and> cmp key k' = 0 then Some v else tree_look t k')"
proof -
  obtain s where ok: "tree_ok cmp t s" using assms by (auto simp: tree_inv_def)
  note look = tree_look_ok [OF ok]
  obtain t' s' where t': "tree_insert (malloc t) t key v =
      Some (case lookup cmp key (entries s) of None \<Rightarrow> v | Some w \<Rightarrow> w, t')" "tree_ok cmp t' s'"
    "case lookup cmp key (entries s) of None \<Rightarrow> entries s' = insert_entry cmp key v (entries s) \<and>
        set (addrs s') = insert (malloc t) (set (addrs s)) | Some w \<Rightarrow> t' = t \<and> s' = s"
    using tree_insert_ok [OF ok comparator_axioms malloc_fresh [OF malloc ok]] by blast
  have "tree_look t' = (\<lambda>k'. if tree_look t key = None \<and> cmp key k' = 0 then Some v else tree_look t k')"
    using t'(3) lookup_insert [of key "entries s"] look tree_look_ok [OF t'(2)]
    by (auto simp: fun_eq_iff split: option.splits)
  then show ?thesis using t'(1,2) look by (auto simp: tree_inv_def)
qed

lemma tree_delete_law:
  assumes "tree_inv cmp t"
  shows "\<exists>t'. tree_delete t key = Some (tree_look t key, t') \<and> tree_inv cmp t' \<and>
    tree_look t' = (\<lambda>k'. if cmp key k' = 0 then None else tree_look t k')"
proof -
  obtain s where ok: "tree_ok cmp t s" using assms by (auto simp: tree_inv_def)
  obtain t' s' where t': "tree_delete t key = Some (lookup cmp key (entries s), t')" "tree_ok cmp t' s'"
    "entries s' = filter (\<lambda>e. cmp key (fst e) \<noteq> 0) (entries s)"
    using tree_delete_ok [OF ok comparator_axioms] by blast
  then show ?thesis
    using tree_look_ok [OF ok] tree_look_ok [OF t'(2)] by (auto simp: lookup_filter tree_inv_def)
qed

end

sublocale allocated \<subseteq> tr: dict cmp "tree_inv cmp" tree_look tree_find
  "\<lambda>t. tree_insert (malloc t) t" tree_delete
  by unfold_locales (rule tree_find_law tree_insert_law tree_delete_law; assumption)+

context allocated
begin

lemma tree_run_map: "tree_inv cmp t \<Longrightarrow>
    \<exists>t'. run_dict tree_find (\<lambda>t. tree_insert (malloc t) t) tree_delete t ops =
      Some (fst (run_map cmp (tree_look t) ops), t') \<and> tree_inv cmp t' \<and>
      tree_look t' = snd (run_map cmp (tree_look t) ops)"
  by (rule tr.run_dict_map)

end

lemma tree_create_ok: "tree_ok cmp (tree_create cmp) Lf"
  by (simp add: tree_ok_def tree_create_def conc_def rb_def sorted_entries_def)

lemma tree_create_look: "tree_look (tree_create cmp) = Map.empty"
  using tree_look_ok [OF tree_create_ok, of cmp] by (simp add: lookup_def)

subsection \<open>The height\<close>

lemma bal_size: "bal n s \<Longrightarrow> 2 ^ n \<le> length (entries s) + 1"
proof (induction s arbitrary: n)
  case (Nd a c l k v r)
  show ?case
  proof (cases c)
    case RED
    then show ?thesis using Nd.IH(1) [of n] Nd.prems by simp
  next
    case BLACK
    then obtain m where m: "n = Suc m" using Nd.prems by (auto simp: gr0_conv_Suc)
    then show ?thesis using Nd.IH(1) [of m] Nd.IH(2) [of m] Nd.prems BLACK by simp
  qed
qed simp

lemma rb_height_size:
  assumes "rb s"
  shows "2 ^ ((height_of s + 1) div 2) \<le> length (entries s) + 1"
proof -
  obtain n where n: "bal n s" using assms by (auto simp: rb_def)
  have "height_of s \<le> 2 * n" using rb_heights [OF n] assms by (simp add: rb_def)
  then have "(height_of s + 1) div 2 \<le> n" by linarith
  then have "(2 :: nat) ^ ((height_of s + 1) div 2) \<le> 2 ^ n" by (intro power_increasing) simp_all
  then show ?thesis using bal_size [OF n] by linarith
qed

subsection \<open>Properties\<close>

text \<open>
  C2: On a tree in order, with the red-black invariants and correct pointers, and a fresh node
  address, \<open>tree_insert\<close> ends without an undefined access and returns the old value of an equal
  key, leaving the tree as it is, or else the new value; then the new entry is at its place in the
  order, the size has grown by one, and all invariants and parent pointers hold again.
\<close>

theorem tree_insert_correct:
  assumes "tree_ok cmp t s" and "comparator cmp" and "new \<notin> set (addrs s)"
  shows "\<exists>t' s'. tree_insert new t key v =
      Some (case lookup cmp key (entries s) of None \<Rightarrow> v | Some w \<Rightarrow> w, t') \<and> tree_ok cmp t' s' \<and>
    (case lookup cmp key (entries s) of
       None \<Rightarrow> entries s' = insert_entry cmp key v (entries s) \<and> set (addrs s') = insert new (set (addrs s))
     | Some w \<Rightarrow> t' = t \<and> s' = s)"
  by (rule tree_insert_ok [OF assms])

text \<open>A tree of three nodes, the children red.\<close>

definition sample_shape :: "(int, string) shape" where
  "sample_shape = Nd 10 BLACK (Nd 11 RED Lf 1 ''one'' Lf) 2 ''two'' (Nd 12 RED Lf 3 ''three'' Lf)"

definition sample_tree :: "(int, string) tree" where
  "sample_tree = conc (\<lambda>x y. x - y) 3 sample_shape"

lemma int_comparator: "comparator (\<lambda>x y. x - y :: int)"
  by unfold_locales auto

lemma sample_entries: "entries sample_shape = [(1, ''one''), (2, ''two''), (3, ''three'')]"
  "addrs sample_shape = [11, 10, 12]"
  by (simp_all add: sample_shape_def)

lemma sample_ok: "tree_ok (\<lambda>x y. x - y) sample_tree sample_shape"
proof -
  have "rb sample_shape"
    by (auto simp: rb_def sample_shape_def intro: exI [of _ 1])
  then show ?thesis
    by (simp add: tree_ok_def sample_tree_def sample_entries sorted_entries_def)
qed

theorem tree_insert_correct_witness:
  "\<exists>t' s'. tree_insert 20 sample_tree 4 ''four'' = Some (''four'', t') \<and>
     tree_ok (\<lambda>x y. x - y) t' s' \<and>
     entries s' = [(1, ''one''), (2, ''two''), (3, ''three''), (4, ''four'')]"
  using tree_insert_correct [OF sample_ok int_comparator, of 20 4 "''four''"]
  by (auto simp: sample_entries lookup_def insert_entry_def)

text \<open>
  C1: \<open>tree_delete\<close> on such a tree ends without an undefined access, returns the value of the key
  or \<open>NULL\<close>, removes exactly the entries with an equal key, frees a node only after unlinking it
  (no pointer of the tree dangles), and restores all invariants and parent pointers.
\<close>

theorem tree_delete_correct:
  assumes "tree_ok cmp t s" and "comparator cmp"
  shows "\<exists>t' s'. tree_delete t key = Some (lookup cmp key (entries s), t') \<and> tree_ok cmp t' s' \<and>
    entries s' = filter (\<lambda>e. cmp key (fst e) \<noteq> 0) (entries s) \<and> set (addrs s') \<subseteq> set (addrs s)"
  by (rule tree_delete_ok [OF assms])

theorem tree_delete_correct_witness:
  "\<exists>t' s'. tree_delete sample_tree 2 = Some (Some ''two'', t') \<and> tree_ok (\<lambda>x y. x - y) t' s' \<and>
     entries s' = [(1, ''one''), (3, ''three'')]"
  using tree_delete_correct [OF sample_ok int_comparator, of 2]
  by (auto simp: sample_entries lookup_def)

text \<open>
  C3: Any sequence of \<open>tree_find\<close>, \<open>tree_insert\<close> and \<open>tree_delete\<close> on a new tree is defined, for any
  total preorder on the keys and any allocator that returns unused addresses, and gives the results
  that the same operations on a map from keys to values give.
\<close>

theorem tree_refines_map:
  assumes "comparator cmp" and "malloc_ok malloc"
  shows "\<exists>t. run_dict tree_find (\<lambda>t. tree_insert (malloc t) t) tree_delete (tree_create cmp) ops =
      Some (fst (run_map cmp Map.empty ops), t) \<and> tree_inv cmp t"
proof -
  have "allocated cmp malloc"
    using assms by (simp add: allocated_def allocated_axioms_def)
  moreover have "tree_inv cmp (tree_create cmp :: ('a, 'b) tree)"
    using tree_create_ok by (auto simp: tree_inv_def)
  ultimately show ?thesis
    using allocated.tree_run_map [of cmp malloc "tree_create cmp" ops] by (auto simp: tree_create_look)
qed

text \<open>An allocator: the lowest address not in use.\<close>

definition lowest_free :: "('k, 'v) tree \<Rightarrow> addr" where
  "lowest_free t = (LEAST a. tr_nodes t a = None)"

lemma lowest_free_ok: "malloc_ok lowest_free"
proof (unfold malloc_ok_def, intro allI impI)
  fix t :: "('a, 'b) tree"
  assume "finite (dom (tr_nodes t))"
  then obtain a where "a \<notin> dom (tr_nodes t)" using ex_new_if_finite infinite_UNIV_nat by blast
  then show "tr_nodes t (lowest_free t) = None"
    unfolding lowest_free_def by (auto intro: LeastI simp: dom_def)
qed

interpretation int_tree: allocated "\<lambda>x y. x - y :: int" lowest_free
  by (intro allocated.intro allocated_axioms.intro int_comparator lowest_free_ok)

theorem tree_refines_map_witness:
  "\<exists>t. run_dict tree_find (\<lambda>t. tree_insert (lowest_free t) t) tree_delete
      (tree_create (\<lambda>x y. x - y :: int))
      [DInsert 5 ''a'', DInsert 3 ''b'', DInsert 5 ''c'', DDelete 5, DFind 5, DFind 3] =
    Some ([Some ''a'', Some ''b'', Some ''a'', Some ''a'', None, Some ''b''], t)"
  using tree_refines_map [OF int_comparator lowest_free_ok,
    of "[DInsert 5 ''a'', DInsert 3 ''b'', DInsert 5 ''c'', DDelete 5, DFind 5, DFind 3]"]
  by auto

text \<open>
  C4: For every tree whose child pointers are sound, whatever its colours and parent pointers,
  \<open>tree_check_integrity\<close> is defined and returns 1 exactly if the root is black, no red node has a
  red child, all paths have the same number of black nodes and the parent pointers of all nodes below
  the root are right (\<open>tree_at\<close> holds for some parent pointer \<open>p\<close> of the root), and 0 otherwise. The parent
  pointer of the root itself is never looked at: storing any pointer there does not change the result.
\<close>

theorem tree_check_integrity_exact:
  assumes "shape_at (tr_nodes t) s" and "tr_root t = ref s"
  shows "tree_check_integrity t = Some (if rb s \<and> (\<exists>p. tree_at (tr_nodes t) p s) then 1 else 0) \<and>
    (\<forall>a n q. tr_root t = Some a \<longrightarrow> tr_nodes t a = Some n \<longrightarrow>
       tree_check_integrity (t\<lparr>tr_nodes := (tr_nodes t)(a \<mapsto> n\<lparr>tn_parent := q\<rparr>)\<rparr>) =
       tree_check_integrity t)"
proof -
  obtain p where "parent_is (tr_nodes t) s p"
    using parent_is_ex [OF assms(1)] by blast
  then have "parents_ok (tr_nodes t) s \<longleftrightarrow> (\<exists>p. tree_at (tr_nodes t) p s)"
    using assms(1) unfolding tree_at_shape by blast
  then show ?thesis using tree_check_shape [OF assms] tree_check_root_parent [OF assms] by simp
qed

text \<open>The sample tree, also with the parent pointer of its root turned to the root itself.\<close>

theorem tree_check_integrity_exact_witness:
  "tree_check_integrity sample_tree = Some 1 \<and>
   (\<exists>n. tr_nodes sample_tree 10 = Some n \<and>
      tree_check_integrity (sample_tree\<lparr>tr_nodes := (tr_nodes sample_tree)(10 \<mapsto> n\<lparr>tn_parent := Some 10\<rparr>)\<rparr>) =
        Some 1)"
proof -
  have rep: "shape_at (tr_nodes sample_tree) sample_shape" "tr_root sample_tree = Some 10"
    "tr_root sample_tree = ref sample_shape"
    unfolding sample_tree_def by (rule shape_conc, simp add: sample_entries)
      (simp_all add: sample_shape_def)
  obtain p where "parent_is (tr_nodes sample_tree) sample_shape p"
    using parent_is_ex [OF rep(1)] by blast
  moreover have "parents_ok (tr_nodes sample_tree) sample_shape"
    unfolding sample_tree_def by (rule parents_conc) (simp add: sample_entries)
  ultimately have "rb sample_shape" "\<exists>p. tree_at (tr_nodes sample_tree) p sample_shape"
    using sample_ok rep(1) unfolding tree_at_shape by (auto simp: tree_ok_def)
  moreover obtain n where "tr_nodes sample_tree 10 = Some n"
    using rep(1) by (auto simp: sample_shape_def)
  ultimately show ?thesis using tree_check_integrity_exact [OF rep(1,3)] rep(2) by auto
qed

text \<open>
  \<open>tree_foldl\<close> visits the entries in ascending order of their keys and \<open>tree_foldr\<close> in descending
  order, each exactly once.
\<close>

theorem tree_folds_in_order:
  assumes "tree_ok cmp t s"
  shows "tree_foldl t f acc = Some (fold (\<lambda>(k, v). f k v) (entries s) acc) \<and>
    tree_foldr t f acc = Some (foldr (\<lambda>(k, v). f k v) (entries s) acc) \<and>
    sorted_wrt (\<lambda>x y. cmp (fst x) (fst y) < 0) (entries s)"
proof -
  have s: "shape_at (tr_nodes t) s" "tr_root t = ref s"
    using assms shape_conc by (auto simp: tree_ok_def)
  have "tree_foldl t f acc = Some (fold (\<lambda>(k, v). f k v) (entries s) acc)"
    unfolding tree_foldl_def s(2) by (rule foldl_shape [OF s(1)])
  moreover have "tree_foldr t f acc = Some (foldr (\<lambda>(k, v). f k v) (entries s) acc)"
    unfolding tree_foldr_def s(2) by (rule foldr_shape [OF s(1)])
  ultimately show ?thesis using assms by (simp add: tree_ok_def sorted_entries_def)
qed

theorem tree_folds_in_order_witness:
  "tree_foldl sample_tree (\<lambda>k v ks. ks @ [k]) [] = Some [1, 2, 3] \<and>
   tree_foldr sample_tree (\<lambda>k v ks. ks @ [k]) [] = Some [3, 2, 1]"
  using tree_folds_in_order [OF sample_ok, of "\<lambda>k v ks. ks @ [k]" "[]"]
  by (simp add: sample_entries)

text \<open>
  \<open>tree_info\<close> reports the exact size, height, minimum height, black height and numbers of red and
  black nodes, the size equals \<open>tree_size\<close>, and the height is at most twice the binary logarithm of
  the size plus one.
\<close>

theorem tree_info_exact:
  assumes "tree_ok cmp t s"
  shows "tree_info t = Some (info_of s) \<and> ti_size (info_of s) = tree_size t \<and>
    2 ^ ((nat (ti_height (info_of s)) + 1) div 2) \<le> ti_size (info_of s) + 1"
proof -
  have "shape_at (tr_nodes t) s" "tr_root t = ref s"
    using assms shape_conc by (auto simp: tree_ok_def)
  then have info: "tree_info t = Some (info_of s)" by (simp add: tree_info_def info_shape)
  have "2 ^ ((height_of s + 1) div 2) \<le> length (entries s) + 1"
    using rb_height_size assms by (auto simp: tree_ok_def)
  then have "int (2 ^ ((height_of s + 1) div 2)) \<le> int (length (entries s) + 1)"
    unfolding of_nat_le_iff .
  then show ?thesis
    using info assms by (auto simp: info_of_def tree_size_def tree_ok_def)
qed

theorem tree_info_exact_witness:
  "tree_info sample_tree = Some \<lparr>ti_size = 3, ti_height = 2, ti_min_height = 2,
     ti_black_height = 1, ti_red_number = 2, ti_black_number = 1\<rparr>"
  using tree_info_exact [OF sample_ok] by (simp add: info_of_def sample_shape_def)

text \<open>
  C5: \<open>tree_destroy\<close> calls the destructor once on every value and frees every node exactly once,
  children before their parent, so no freed node is touched again and none is left.
\<close>

theorem tree_destroy_all:
  assumes "tree_ok cmp t s"
  shows "\<exists>t' vs. tree_destroy t = Some (t', vs) \<and> tr_nodes t' = Map.empty \<and>
    mset vs = mset (map snd (entries s))"
proof (cases "s = Lf")
  case True
  then show ?thesis using assms by (auto simp: tree_ok_def tree_destroy_def conc_def)
next
  case False
  have s: "shape_at (tr_nodes t) s" "tr_root t = ref s" "distinct (addrs s)"
    "tr_nodes t = store None s"
    using assms shape_conc by (auto simp: tree_ok_def conc_def)
  have "store None s |` (- set (addrs s)) = Map.empty"
    by (rule ext) (metis ComplD dom_store domIff restrict_map_def)
  then show ?thesis
    using destroy_shape [OF s(1,3) False] s False post_values_entries [of s]
    by (simp add: tree_destroy_def)
qed

theorem tree_destroy_all_witness:
  "\<exists>t' vs. tree_destroy sample_tree = Some (t', vs) \<and> tr_nodes t' = Map.empty \<and>
    mset vs = {#''one'', ''two'', ''three''#}"
  using tree_destroy_all [OF sample_ok] by (simp add: sample_entries)

end
