(* ===== verification/TailQueue.thy ===== *)
theory TailQueue
  imports BfPrelude
begin

section \<open>The linked list (list.c)\<close>

text \<open>
  A list is a tail queue of the system's \<open>sys/queue.h\<close>: an item points to the next item and to the
  cell that points to itself, either the head's \<open>tqh_first\<close> or the \<open>tqe_next\<close> of the item before.
  The model is a store of heads and items; a \<open>slot\<close> is the address of such a cell. One store holds
  any number of lists. \<open>malloc\<close> is an argument of the operations that allocate.
\<close>

subsection \<open>State\<close>

datatype lslot = HeadSlot addr | ItemSlot addr

record lhead =
  tqh_first :: ptr
  tqh_last :: lslot
  lh_locked :: bool

record 'a litem =
  li_item :: 'a
  li_list :: addr
  tqe_next :: ptr
  tqe_prev :: lslot

record 'a lstore =
  ls_heads :: "addr \<rightharpoonup> lhead"
  ls_items :: "addr \<rightharpoonup> 'a litem"

definition head_at :: "'a lstore \<Rightarrow> addr \<Rightarrow> lhead option" where
  [c_sem]: "head_at s l = ls_heads s l"

definition item_at :: "'a lstore \<Rightarrow> ptr \<Rightarrow> 'a litem option" where
  [c_sem]: "item_at s p = (case p of None \<Rightarrow> None | Some a \<Rightarrow> ls_items s a)"

definition head_upd :: "'a lstore \<Rightarrow> addr \<Rightarrow> (lhead \<Rightarrow> lhead) \<Rightarrow> 'a lstore option" where
  [c_sem]: "head_upd s l f = do {
     h \<leftarrow> head_at s l;
     Some (s\<lparr>ls_heads := (ls_heads s)(l \<mapsto> f h)\<rparr>) }"

definition item_upd :: "'a lstore \<Rightarrow> ptr \<Rightarrow> ('a litem \<Rightarrow> 'a litem) \<Rightarrow> 'a lstore option" where
  [c_sem]: "item_upd s p f =
     (case p of None \<Rightarrow> None
      | Some a \<Rightarrow> (case ls_items s a of None \<Rightarrow> None
          | Some i \<Rightarrow> Some (s\<lparr>ls_items := (ls_items s)(a \<mapsto> f i)\<rparr>)))"

text \<open>\<open>*slot\<close> and \<open>*slot = p\<close>.\<close>

fun slot_rd :: "'a lstore \<Rightarrow> lslot \<Rightarrow> ptr option" where
  "slot_rd s (HeadSlot l) = do { h \<leftarrow> head_at s l; Some (tqh_first h) }"
| "slot_rd s (ItemSlot a) = do { i \<leftarrow> item_at s (Some a); Some (tqe_next i) }"

fun slot_wr :: "'a lstore \<Rightarrow> lslot \<Rightarrow> ptr \<Rightarrow> 'a lstore option" where
  "slot_wr s (HeadSlot l) p = head_upd s l (\<lambda>h. h\<lparr>tqh_first := p\<rparr>)"
| "slot_wr s (ItemSlot a) p = item_upd s (Some a) (\<lambda>i. i\<lparr>tqe_next := p\<rparr>)"

text \<open>
  The cast of a slot to \<open>struct ListHead *\<close> followed by \<open>->tqh_last\<close>: both the head and the entry of
  an item are a pointer followed by the address of a slot.
\<close>

fun slot_second :: "'a lstore \<Rightarrow> lslot \<Rightarrow> lslot option" where
  "slot_second s (HeadSlot l) = do { h \<leftarrow> head_at s l; Some (tqh_last h) }"
| "slot_second s (ItemSlot a) = do { i \<leftarrow> item_at s (Some a); Some (tqe_prev i) }"

subsection \<open>The macros of the tail queue\<close>

definition TAILQ_FIRST :: "'a lstore \<Rightarrow> addr \<Rightarrow> ptr option" where
  [c_sem]: "TAILQ_FIRST s l = do { h \<leftarrow> head_at s l; Some (tqh_first h) }"

definition TAILQ_EMPTY :: "'a lstore \<Rightarrow> addr \<Rightarrow> bool option" where
  [c_sem]: "TAILQ_EMPTY s l = do { h \<leftarrow> head_at s l; Some (tqh_first h = None) }"

definition TAILQ_NEXT :: "'a lstore \<Rightarrow> ptr \<Rightarrow> ptr option" where
  [c_sem]: "TAILQ_NEXT s p = do { i \<leftarrow> item_at s p; Some (tqe_next i) }"

definition TAILQ_LAST :: "'a lstore \<Rightarrow> addr \<Rightarrow> ptr option" where
  [c_sem]: "TAILQ_LAST s l = do {
     h \<leftarrow> head_at s l;
     q \<leftarrow> slot_second s (tqh_last h);
     slot_rd s q }"

definition TAILQ_PREV :: "'a lstore \<Rightarrow> ptr \<Rightarrow> ptr option" where
  [c_sem]: "TAILQ_PREV s p = do {
     i \<leftarrow> item_at s p;
     q \<leftarrow> slot_second s (tqe_prev i);
     slot_rd s q }"

definition TAILQ_INSERT_HEAD :: "'a lstore \<Rightarrow> addr \<Rightarrow> addr \<Rightarrow> 'a lstore option" where
  [c_sem]: "TAILQ_INSERT_HEAD s l e = do {
     h \<leftarrow> head_at s l;
     s \<leftarrow> item_upd s (Some e) (\<lambda>i. i\<lparr>tqe_next := tqh_first h\<rparr>);
     s \<leftarrow> (if tqh_first h \<noteq> None
           then item_upd s (tqh_first h) (\<lambda>i. i\<lparr>tqe_prev := ItemSlot e\<rparr>)
           else head_upd s l (\<lambda>h. h\<lparr>tqh_last := ItemSlot e\<rparr>));
     s \<leftarrow> head_upd s l (\<lambda>h. h\<lparr>tqh_first := Some e\<rparr>);
     item_upd s (Some e) (\<lambda>i. i\<lparr>tqe_prev := HeadSlot l\<rparr>) }"

definition TAILQ_INSERT_TAIL :: "'a lstore \<Rightarrow> addr \<Rightarrow> addr \<Rightarrow> 'a lstore option" where
  [c_sem]: "TAILQ_INSERT_TAIL s l e = do {
     s \<leftarrow> item_upd s (Some e) (\<lambda>i. i\<lparr>tqe_next := None\<rparr>);
     h \<leftarrow> head_at s l;
     s \<leftarrow> item_upd s (Some e) (\<lambda>i. i\<lparr>tqe_prev := tqh_last h\<rparr>);
     s \<leftarrow> slot_wr s (tqh_last h) (Some e);
     head_upd s l (\<lambda>h. h\<lparr>tqh_last := ItemSlot e\<rparr>) }"

definition TAILQ_INSERT_AFTER :: "'a lstore \<Rightarrow> addr \<Rightarrow> ptr \<Rightarrow> addr \<Rightarrow> 'a lstore option" where
  [c_sem]: "TAILQ_INSERT_AFTER s l p e = do {
     i \<leftarrow> item_at s p;
     s \<leftarrow> item_upd s (Some e) (\<lambda>j. j\<lparr>tqe_next := tqe_next i\<rparr>);
     s \<leftarrow> (if tqe_next i \<noteq> None
           then item_upd s (tqe_next i) (\<lambda>j. j\<lparr>tqe_prev := ItemSlot e\<rparr>)
           else head_upd s l (\<lambda>h. h\<lparr>tqh_last := ItemSlot e\<rparr>));
     s \<leftarrow> item_upd s p (\<lambda>j. j\<lparr>tqe_next := Some e\<rparr>);
     item_upd s (Some e) (\<lambda>j. j\<lparr>tqe_prev := (case p of None \<Rightarrow> HeadSlot l | Some a \<Rightarrow> ItemSlot a)\<rparr>) }"

definition TAILQ_REMOVE :: "'a lstore \<Rightarrow> addr \<Rightarrow> ptr \<Rightarrow> 'a lstore option" where
  [c_sem]: "TAILQ_REMOVE s l p = do {
     i \<leftarrow> item_at s p;
     s \<leftarrow> (if tqe_next i \<noteq> None
           then item_upd s (tqe_next i) (\<lambda>j. j\<lparr>tqe_prev := tqe_prev i\<rparr>)
           else head_upd s l (\<lambda>h. h\<lparr>tqh_last := tqe_prev i\<rparr>));
     slot_wr s (tqe_prev i) (tqe_next i) }"

subsection \<open>Allocation\<close>

text \<open>\<open>malloc\<close> of an item with its fields set, and of a list; \<open>free\<close>.\<close>

definition new_item :: "('a lstore \<Rightarrow> addr) \<Rightarrow> 'a lstore \<Rightarrow> addr \<Rightarrow> 'a \<Rightarrow> (addr \<times> 'a lstore) option" where
  [c_sem]: "new_item malloc s l x = do {
     let e = malloc s;
     c_require (ls_items s e = None);
     Some (e, s\<lparr>ls_items := (ls_items s)
       (e \<mapsto> \<lparr>li_item = x, li_list = l, tqe_next = None, tqe_prev = HeadSlot l\<rparr>)\<rparr>) }"

definition free_item :: "'a lstore \<Rightarrow> ptr \<Rightarrow> 'a lstore option" where
  [c_sem]: "free_item s p =
     (case p of None \<Rightarrow> Some s
      | Some a \<Rightarrow> (case ls_items s a of None \<Rightarrow> None
          | Some _ \<Rightarrow> Some (s\<lparr>ls_items := (ls_items s)(a := None)\<rparr>)))"

definition list_create :: "('a lstore \<Rightarrow> addr) \<Rightarrow> 'a lstore \<Rightarrow> (addr \<times> 'a lstore) option" where
  [c_sem]: "list_create malloc s = do {
     let l = malloc s;
     c_require (ls_heads s l = None);
     Some (l, s\<lparr>ls_heads := (ls_heads s)
       (l \<mapsto> \<lparr>tqh_first = None, tqh_last = HeadSlot l, lh_locked = False\<rparr>)\<rparr>) }"

subsection \<open>The operations\<close>

definition list_first :: "'a lstore \<Rightarrow> addr \<Rightarrow> ptr option" where
  [c_sem]: "list_first s l = TAILQ_FIRST s l"

definition list_next :: "'a lstore \<Rightarrow> ptr \<Rightarrow> ptr option" where
  [c_sem]: "list_next s li = TAILQ_NEXT s li"

definition list_last :: "'a lstore \<Rightarrow> addr \<Rightarrow> ptr option" where
  [c_sem]: "list_last s l = TAILQ_LAST s l"

definition list_prev :: "'a lstore \<Rightarrow> ptr \<Rightarrow> ptr option" where
  [c_sem]: "list_prev s li = TAILQ_PREV s li"

definition list_empty :: "'a lstore \<Rightarrow> addr \<Rightarrow> bool option" where
  [c_sem]: "list_empty s l = TAILQ_EMPTY s l"

definition list_iterator_get_value :: "'a lstore \<Rightarrow> ptr \<Rightarrow> 'a option" where
  [c_sem]: "list_iterator_get_value s li = do { i \<leftarrow> item_at s li; Some (li_item i) }"

definition list_iter_value :: "'a lstore \<Rightarrow> ptr \<Rightarrow> 'a option" where
  [c_sem]: "list_iter_value s li = do { i \<leftarrow> item_at s li; Some (li_item i) }"

definition list_is_first :: "'a lstore \<Rightarrow> addr \<Rightarrow> ptr \<Rightarrow> bool option" where
  [c_sem]: "list_is_first s l li = do { f \<leftarrow> list_first s l; Some (li = f) }"

definition list_append ::
  "('a lstore \<Rightarrow> addr) \<Rightarrow> 'a lstore \<Rightarrow> addr \<Rightarrow> 'a \<Rightarrow> (ptr \<times> 'a lstore) option" where
  [c_sem]: "list_append malloc s l x = do {
     (e, s) \<leftarrow> new_item malloc s l x;
     s \<leftarrow> TAILQ_INSERT_TAIL s l e;
     Some (Some e, s) }"

definition list_unshift ::
  "('a lstore \<Rightarrow> addr) \<Rightarrow> 'a lstore \<Rightarrow> addr \<Rightarrow> 'a \<Rightarrow> (ptr \<times> 'a lstore) option" where
  [c_sem]: "list_unshift malloc s l x = do {
     (e, s) \<leftarrow> new_item malloc s l x;
     s \<leftarrow> TAILQ_INSERT_HEAD s l e;
     Some (Some e, s) }"

definition list_insert_after ::
  "('a lstore \<Rightarrow> addr) \<Rightarrow> 'a lstore \<Rightarrow> ptr \<Rightarrow> 'a \<Rightarrow> (ptr \<times> 'a lstore) option" where
  [c_sem]: "list_insert_after malloc s li x = do {
     i \<leftarrow> item_at s li;
     (e, s) \<leftarrow> new_item malloc s (li_list i) x;
     s \<leftarrow> TAILQ_INSERT_AFTER s (li_list i) li e;
     Some (Some e, s) }"

definition list_insert_before ::
  "('a lstore \<Rightarrow> addr) \<Rightarrow> 'a lstore \<Rightarrow> ptr \<Rightarrow> 'a \<Rightarrow> (ptr \<times> 'a lstore) option" where
  [c_sem]: "list_insert_before malloc s li x = do {
     prev \<leftarrow> list_prev s li;
     if prev \<noteq> None then list_insert_after malloc s li x
     else do {
       i \<leftarrow> item_at s li;
       list_unshift malloc s (li_list i) x } }"

definition list_remove :: "'a lstore \<Rightarrow> addr \<Rightarrow> ptr \<Rightarrow> ('a \<times> 'a lstore) option" where
  [c_sem]: "list_remove s l li = do {
     i \<leftarrow> item_at s li;
     s \<leftarrow> TAILQ_REMOVE s l li;
     s \<leftarrow> free_item s li;
     Some (li_item i, s) }"

definition list_shift :: "'a lstore \<Rightarrow> addr \<Rightarrow> ('a option \<times> 'a lstore) option" where
  [c_sem]: "list_shift s l = do {
     li \<leftarrow> list_first s l;
     if li \<noteq> None then do {
       item \<leftarrow> list_iterator_get_value s li;
       (_, s) \<leftarrow> list_remove s l li;
       Some (Some item, s) }
     else Some (None, s) }"

text \<open>The loop of \<open>list_erase\<close>; the second result are the items the destructor is called on.\<close>

partial_function (option) list_erase :: "'a lstore \<Rightarrow> addr \<Rightarrow> ('a lstore \<times> 'a list) option" where
  "list_erase s l = do {
     li \<leftarrow> list_first s l;
     if li \<noteq> None then do {
       i \<leftarrow> item_at s li;
       s \<leftarrow> TAILQ_REMOVE s l li;
       s \<leftarrow> free_item s li;
       (s, xs) \<leftarrow> list_erase s l;
       Some (s, li_item i # xs) }
     else Some (s, []) }"

definition list_destroy :: "'a lstore \<Rightarrow> addr \<Rightarrow> ('a lstore \<times> 'a list) option" where
  [c_sem]: "list_destroy s l = do {
     (s, xs) \<leftarrow> list_erase s l;
     _ \<leftarrow> head_at s l;
     Some (s\<lparr>ls_heads := (ls_heads s)(l := None)\<rparr>, xs) }"

partial_function (option) list_size_loop :: "'a lstore \<Rightarrow> ptr \<Rightarrow> int \<Rightarrow> int option" where
  "list_size_loop s li i =
     (if li \<noteq> None then do { li \<leftarrow> list_next s li; list_size_loop s li (i + 1) } else Some i)"

definition list_size :: "'a lstore \<Rightarrow> addr \<Rightarrow> int option" where
  [c_sem]: "list_size s l = do { li \<leftarrow> list_first s l; list_size_loop s li 0 }"

text \<open>
  The loop shared by \<open>list_copy\<close>, \<open>list_append_list\<close>, \<open>list_filter\<close> and \<open>list_map\<close>: each walks one
  list and appends \<open>f x\<close>, if any, to another.
\<close>

partial_function (option) list_append_loop ::
  "('a lstore \<Rightarrow> addr) \<Rightarrow> 'a lstore \<Rightarrow> ('a \<Rightarrow> 'a option) \<Rightarrow> addr \<Rightarrow> ptr \<Rightarrow> 'a lstore option" where
  "list_append_loop malloc s f dst li =
     (if li \<noteq> None then do {
        x \<leftarrow> list_iterator_get_value s li;
        s \<leftarrow> (case f x of None \<Rightarrow> Some s | Some y \<Rightarrow> do { (_, s) \<leftarrow> list_append malloc s dst y; Some s });
        li \<leftarrow> list_next s li;
        list_append_loop malloc s f dst li }
      else Some s)"

definition list_copy ::
  "('a lstore \<Rightarrow> addr) \<Rightarrow> 'a lstore \<Rightarrow> addr \<Rightarrow> ('a \<Rightarrow> 'a) option \<Rightarrow> (addr \<times> 'a lstore) option" where
  [c_sem]: "list_copy malloc s l constructor = do {
     (copy, s) \<leftarrow> list_create malloc s;
     li \<leftarrow> list_first s l;
     s \<leftarrow> list_append_loop malloc s
       (\<lambda>x. Some (case constructor of None \<Rightarrow> x | Some c \<Rightarrow> c x)) copy li;
     Some (copy, s) }"

definition list_append_list ::
  "('a lstore \<Rightarrow> addr) \<Rightarrow> 'a lstore \<Rightarrow> addr \<Rightarrow> addr \<Rightarrow> ('a \<Rightarrow> 'a) option \<Rightarrow> 'a lstore option" where
  [c_sem]: "list_append_list malloc s l1 l2 constructor = do {
     li \<leftarrow> list_first s l2;
     list_append_loop malloc s (\<lambda>x. Some (case constructor of None \<Rightarrow> x | Some c \<Rightarrow> c x)) l1 li }"

definition list_filter ::
  "('a lstore \<Rightarrow> addr) \<Rightarrow> 'a lstore \<Rightarrow> addr \<Rightarrow> ('a \<Rightarrow> 'p \<Rightarrow> bool) \<Rightarrow> 'p \<Rightarrow> (addr \<times> 'a lstore) option" where
  [c_sem]: "list_filter malloc s l match pattern = do {
     (filtered, s) \<leftarrow> list_create malloc s;
     li \<leftarrow> list_first s l;
     s \<leftarrow> list_append_loop malloc s (\<lambda>x. if match x pattern then Some x else None) filtered li;
     Some (filtered, s) }"

definition list_map ::
  "('a lstore \<Rightarrow> addr) \<Rightarrow> 'a lstore \<Rightarrow> addr \<Rightarrow> ('a \<Rightarrow> 'a) \<Rightarrow> (addr \<times> 'a lstore) option" where
  [c_sem]: "list_map malloc s l f = do {
     (m, s) \<leftarrow> list_create malloc s;
     li \<leftarrow> list_first s l;
     s \<leftarrow> list_append_loop malloc s (\<lambda>x. Some (f x)) m li;
     Some (m, s) }"

partial_function (option) list_find_loop ::
  "'a lstore \<Rightarrow> ('a \<Rightarrow> 'p \<Rightarrow> bool) \<Rightarrow> 'p \<Rightarrow> ptr \<Rightarrow> ptr option" where
  "list_find_loop s match pattern li =
     (if li \<noteq> None then do {
        i \<leftarrow> item_at s li;
        if match (li_item i) pattern then Some li
        else do { li \<leftarrow> list_next s li; list_find_loop s match pattern li } }
      else Some None)"

definition list_find_iterator :: "'a lstore \<Rightarrow> addr \<Rightarrow> ('a \<Rightarrow> 'p \<Rightarrow> bool) \<Rightarrow> 'p \<Rightarrow> ptr option" where
  [c_sem]: "list_find_iterator s l match pattern = do {
     li \<leftarrow> list_first s l;
     list_find_loop s match pattern li }"

definition list_find :: "'a lstore \<Rightarrow> addr \<Rightarrow> ('a \<Rightarrow> 'p \<Rightarrow> bool) \<Rightarrow> 'p \<Rightarrow> 'a option option" where
  [c_sem]: "list_find s l match pattern = do {
     li \<leftarrow> list_find_iterator s l match pattern;
     if li \<noteq> None then do { i \<leftarrow> item_at s li; Some (Some (li_item i)) } else Some None }"

definition list_remove_first_match ::
  "'a lstore \<Rightarrow> addr \<Rightarrow> ('a \<Rightarrow> 'p \<Rightarrow> bool) \<Rightarrow> 'p \<Rightarrow> ('a option \<times> 'a lstore) option" where
  [c_sem]: "list_remove_first_match s l match pattern = do {
     li \<leftarrow> list_find_iterator s l match pattern;
     if li \<noteq> None then do { (x, s) \<leftarrow> list_remove s l li; Some (Some x, s) } else Some (None, s) }"

definition list_item_match_ptr :: "'a \<Rightarrow> 'a \<Rightarrow> bool" where
  [c_sem]: "list_item_match_ptr item p = (item = p)"

definition list_remove_ptr :: "'a lstore \<Rightarrow> addr \<Rightarrow> 'a \<Rightarrow> ('a option \<times> 'a lstore) option" where
  [c_sem]: "list_remove_ptr s l p = list_remove_first_match s l list_item_match_ptr p"

text \<open>The items that \<open>fun\<close> is called on, in order.\<close>

partial_function (option) list_foreach_loop :: "'a lstore \<Rightarrow> ptr \<Rightarrow> 'a list option" where
  "list_foreach_loop s li =
     (if li \<noteq> None then do {
        x \<leftarrow> list_iterator_get_value s li;
        li \<leftarrow> list_next s li;
        xs \<leftarrow> list_foreach_loop s li;
        Some (x # xs) }
      else Some [])"

definition list_foreach :: "'a lstore \<Rightarrow> addr \<Rightarrow> 'a list option" where
  [c_sem]: "list_foreach s l = do { li \<leftarrow> list_first s l; list_foreach_loop s li }"

text \<open>The first loop of \<open>list_sort\<close>, into an array of \<open>n\<close> cells, and the last one.\<close>

partial_function (option) list_sort_collect ::
  "'a lstore \<Rightarrow> ptr \<Rightarrow> 'a option list \<Rightarrow> nat \<Rightarrow> 'a option list option" where
  "list_sort_collect s li arr i =
     (if li \<noteq> None then do {
        x \<leftarrow> list_iterator_get_value s li;
        arr \<leftarrow> c_write arr (int i) (Some x);
        li \<leftarrow> list_next s li;
        list_sort_collect s li arr (i + 1) }
      else Some arr)"

fun list_append_all :: "('a lstore \<Rightarrow> addr) \<Rightarrow> 'a lstore \<Rightarrow> addr \<Rightarrow> 'a list \<Rightarrow> 'a lstore option" where
  "list_append_all malloc s l [] = Some s"
| "list_append_all malloc s l (x # xs) = do {
     (_, s) \<leftarrow> list_append malloc s l x;
     list_append_all malloc s l xs }"

text \<open>
  \<open>qsort\<close> of the C library is an argument: the order it gives to equal elements is not specified. It
  calls the comparison function with pointers to the cells of the array, and the cells hold the
  values. So the \<open>cmp\<close> of \<open>list_sort\<close> has to look through its arguments once more than the
  comparison functions that the heap and the tree call with the values themselves. \<open>CellPtr x\<close> is a
  pointer to a cell that holds \<open>x\<close>.
\<close>

datatype 'a cell_ptr = CellPtr (deref: 'a)

definition list_sort ::
  "('a lstore \<Rightarrow> addr) \<Rightarrow> (('a cell_ptr \<Rightarrow> 'a cell_ptr \<Rightarrow> int) \<Rightarrow> 'a list \<Rightarrow> 'a list) \<Rightarrow>
   'a lstore \<Rightarrow> addr \<Rightarrow> ('a cell_ptr \<Rightarrow> 'a cell_ptr \<Rightarrow> int) \<Rightarrow> 'a lstore option" where
  [c_sem]: "list_sort malloc qsort s l cmp = do {
     n \<leftarrow> list_size s l;
     if n = 0 then Some s
     else do {
       li \<leftarrow> list_first s l;
       arr \<leftarrow> list_sort_collect s li (replicate (nat n) None) 0;
       xs \<leftarrow> those arr;
       (s, _) \<leftarrow> list_erase s l;
       list_append_all malloc s l (qsort cmp xs) } }"

text \<open>
  The mutex: \<open>None\<close> stands for a wait for a holder. Locking twice in one thread never returns.
\<close>

definition list_lock :: "'a lstore \<Rightarrow> addr \<Rightarrow> (int \<times> 'a lstore) option" where
  [c_sem]: "list_lock s l = do {
     h \<leftarrow> head_at s l;
     c_require (\<not> lh_locked h);
     s \<leftarrow> head_upd s l (\<lambda>h. h\<lparr>lh_locked := True\<rparr>);
     Some (0, s) }"

definition list_unlock :: "'a lstore \<Rightarrow> addr \<Rightarrow> (int \<times> 'a lstore) option" where
  [c_sem]: "list_unlock s l = do {
     h \<leftarrow> head_at s l;
     c_require (lh_locked h);
     s \<leftarrow> head_upd s l (\<lambda>h. h\<lparr>lh_locked := False\<rparr>);
     Some (0, s) }"

end
