(* ===== verification/TailQueueOps.thy ===== *)
theory TailQueueOps
  imports TailQueue
begin

section \<open>The linked list as a sequence\<close>

text \<open>
  \<open>list_at s l xs\<close>: the list at \<open>l\<close> consists of the items \<open>xs\<close>, pairs of address and value, with all
  its pointers as they should be. Every operation is shown to act on \<open>xs\<close> as its name says, with
  the one exception of \<open>list_insert_before\<close>, and to leave other lists alone.
\<close>

subsection \<open>Items in a store\<close>

fun next_of :: "(addr \<times> 'a) list \<Rightarrow> ptr \<Rightarrow> ptr" where
  "next_of [] q = q"
| "next_of ((a, x) # xs) q = Some a"

fun last_slot :: "lslot \<Rightarrow> (addr \<times> 'a) list \<Rightarrow> lslot" where
  "last_slot p [] = p"
| "last_slot p ((a, x) # xs) = last_slot (ItemSlot a) xs"

definition mk_item :: "'a \<Rightarrow> addr \<Rightarrow> ptr \<Rightarrow> lslot \<Rightarrow> 'a litem" where
  "mk_item x l q p = \<lparr>li_item = x, li_list = l, tqe_next = q, tqe_prev = p\<rparr>"

lemma mk_item_simps [simp]:
  "li_item (mk_item x l q p) = x"
  "li_list (mk_item x l q p) = l"
  "tqe_next (mk_item x l q p) = q"
  "tqe_prev (mk_item x l q p) = p"
  "(mk_item x l q p)\<lparr>tqe_next := q'\<rparr> = mk_item x l q' p"
  "(mk_item x l q p)\<lparr>tqe_prev := p'\<rparr> = mk_item x l q p'"
  by (simp_all add: mk_item_def)

text \<open>A segment whose first item is pointed to from \<open>p\<close> and whose last item points to \<open>q\<close>.\<close>

fun items_at :: "(addr \<rightharpoonup> 'a litem) \<Rightarrow> addr \<Rightarrow> lslot \<Rightarrow> ptr \<Rightarrow> (addr \<times> 'a) list \<Rightarrow> bool" where
  "items_at m l p q [] = True"
| "items_at m l p q ((a, x) # xs) \<longleftrightarrow>
     m a = Some (mk_item x l (next_of xs q) p) \<and> items_at m l (ItemSlot a) q xs"

lemma next_of_append [simp]: "next_of (xs @ ys) q = next_of xs (next_of ys q)"
  by (cases xs) auto

lemma last_slot_append [simp]: "last_slot p (xs @ ys) = last_slot (last_slot p xs) ys"
  by (induction p xs rule: last_slot.induct) auto

lemma items_at_append [simp]:
  "items_at m l p q (xs @ ys) \<longleftrightarrow>
   items_at m l p (next_of ys q) xs \<and> items_at m l (last_slot p xs) q ys"
  by (induction p xs rule: last_slot.induct) auto

lemma items_at_cong:
  "(\<And>a. a \<in> set (map fst xs) \<Longrightarrow> m a = m' a) \<Longrightarrow> items_at m l p q xs = items_at m' l p q xs"
  by (induction p xs rule: last_slot.induct) auto

lemma items_at_upd [simp]:
  "a \<notin> fst ` set xs \<Longrightarrow> items_at (m(a := y)) l p q xs = items_at m l p q xs"
  by (rule items_at_cong) auto

lemma items_at_if [simp]:
  "a \<notin> fst ` set xs \<Longrightarrow> items_at (\<lambda>b. if b = a then y else m b) l p q xs = items_at m l p q xs"
  by (rule items_at_cong) auto

lemma items_at_dom: "items_at m l p q xs \<Longrightarrow> fst ` set xs \<subseteq> dom m"
  by (induction p xs rule: last_slot.induct) auto

subsection \<open>Lists\<close>

definition mk_head :: "ptr \<Rightarrow> lslot \<Rightarrow> bool \<Rightarrow> lhead" where
  "mk_head q p k = \<lparr>tqh_first = q, tqh_last = p, lh_locked = k\<rparr>"

lemma mk_head_simps [simp]:
  "tqh_first (mk_head q p k) = q"
  "tqh_last (mk_head q p k) = p"
  "lh_locked (mk_head q p k) = k"
  "(mk_head q p k)\<lparr>tqh_first := q'\<rparr> = mk_head q' p k"
  "(mk_head q p k)\<lparr>tqh_last := p'\<rparr> = mk_head q p' k"
  "(mk_head q p k)\<lparr>lh_locked := k'\<rparr> = mk_head q p k'"
  by (simp_all add: mk_head_def)

definition list_at :: "'a lstore \<Rightarrow> addr \<Rightarrow> (addr \<times> 'a) list \<Rightarrow> bool" where
  "list_at s l xs \<longleftrightarrow>
     (\<exists>k. ls_heads s l = Some (mk_head (next_of xs None) (last_slot (HeadSlot l) xs) k)) \<and>
     items_at (ls_items s) l (HeadSlot l) None xs \<and> distinct (map fst xs)"

text \<open>Outside of the head \<open>l\<close> and the items \<open>A\<close> nothing has changed.\<close>

definition lframe :: "addr \<Rightarrow> addr set \<Rightarrow> 'a lstore \<Rightarrow> 'a lstore \<Rightarrow> bool" where
  "lframe l A s s' \<longleftrightarrow> (\<forall>l'. l' \<noteq> l \<longrightarrow> ls_heads s' l' = ls_heads s l') \<and>
     (\<forall>a. a \<notin> A \<longrightarrow> ls_items s' a = ls_items s a)"

lemma lframe_refl: "lframe l A s s"
  by (simp add: lframe_def)

lemma lframe_trans: "lframe l A s1 s2 \<Longrightarrow> lframe l B s2 s3 \<Longrightarrow> lframe l (A \<union> B) s1 s3"
  by (simp add: lframe_def)

lemma lframe_mono: "lframe l A s s' \<Longrightarrow> A \<subseteq> B \<Longrightarrow> lframe l B s s'"
  by (auto simp: lframe_def)

lemma lframe_list:
  assumes "lframe l A s s'" and "list_at s l' ys" and "l' \<noteq> l" and "A \<inter> fst ` set ys = {}"
  shows "list_at s' l' ys"
proof -
  have "items_at (ls_items s') l' (HeadSlot l') None ys =
      items_at (ls_items s) l' (HeadSlot l') None ys"
    by (rule items_at_cong) (use assms in \<open>auto simp: lframe_def\<close>)
  then show ?thesis using assms by (simp add: list_at_def lframe_def)
qed

lemma list_at_fresh: "list_at s l xs \<Longrightarrow> ls_items s a = None \<Longrightarrow> a \<notin> fst ` set xs"
  using items_at_dom unfolding list_at_def by blast

lemmas list_mem_defs = head_at_def item_at_def head_upd_def item_upd_def

lemma last_cases:
  obtains "xs = []" | ys a x where "xs = ys @ [(a, x)]"
  by (cases xs rule: rev_cases) auto

lemma first_cases:
  obtains "xs = []" | a x ys where "xs = (a, x) # ys"
  by (cases xs) auto

subsection \<open>Insertion\<close>

lemma new_item_ok:
  "malloc s = e \<Longrightarrow> ls_items s e = None \<Longrightarrow>
   new_item malloc s l x = Some (e, s\<lparr>ls_items := (ls_items s)
     (e \<mapsto> mk_item x l None (HeadSlot l))\<rparr>)"
  by (simp add: new_item_def mk_item_def Let_def)

lemma list_append_ok:
  assumes at: "list_at s l xs" and fresh: "malloc s = e" "ls_items s e = None"
  shows "\<exists>s'. list_append malloc s l x = Some (Some e, s') \<and>
    list_at s' l (xs @ [(e, x)]) \<and> lframe l (insert e (fst ` set xs)) s s'"
proof -
  have new: "e \<notin> fst ` set xs" by (rule list_at_fresh [OF at fresh(2)])
  show ?thesis
  proof (cases xs rule: last_cases)
    case 1
    then show ?thesis
      using at new by (auto simp: list_append_def new_item_ok [of malloc s e, OF fresh] TAILQ_INSERT_TAIL_def
          list_mem_defs list_at_def lframe_def)
  next
    case (2 ys a y)
    then show ?thesis
      using at new by (auto simp: list_append_def new_item_ok [of malloc s e, OF fresh] TAILQ_INSERT_TAIL_def
          list_mem_defs list_at_def lframe_def)
  qed
qed

lemma list_unshift_ok:
  assumes at: "list_at s l xs" and fresh: "malloc s = e" "ls_items s e = None"
  shows "\<exists>s'. list_unshift malloc s l x = Some (Some e, s') \<and>
    list_at s' l ((e, x) # xs) \<and> lframe l (insert e (fst ` set xs)) s s'"
proof -
  have new: "e \<notin> fst ` set xs" by (rule list_at_fresh [OF at fresh(2)])
  show ?thesis
    using at new by (cases xs rule: first_cases)
      (auto simp: list_unshift_def new_item_ok [of malloc s e, OF fresh] TAILQ_INSERT_HEAD_def
          list_mem_defs list_at_def lframe_def)
qed

lemma list_insert_after_ok:
  assumes at: "list_at s l (xs @ (a, y) # ys)" and fresh: "malloc s = e" "ls_items s e = None"
  shows "\<exists>s'. list_insert_after malloc s (Some a) x = Some (Some e, s') \<and>
    list_at s' l (xs @ (a, y) # (e, x) # ys) \<and>
    lframe l (insert e (fst ` set (xs @ (a, y) # ys))) s s'"
proof -
  have new: "e \<notin> fst ` set (xs @ (a, y) # ys)" by (rule list_at_fresh [OF at fresh(2)])
  show ?thesis
    using at new by (cases ys rule: first_cases)
      (auto simp: list_insert_after_def new_item_ok [of malloc s e, OF fresh] TAILQ_INSERT_AFTER_def
          list_mem_defs list_at_def lframe_def image_Un)
qed

subsection \<open>Positions\<close>

lemma list_prev_ok:
  assumes "list_at s l (xs @ (a, y) # ys)"
  shows "list_prev s (Some a) = Some (if xs = [] then None else Some (fst (last xs)))"
proof (cases xs rule: last_cases)
  case 1
  then show ?thesis
    using assms by (cases ys rule: last_cases)
      (auto simp: list_prev_def TAILQ_PREV_def list_mem_defs list_at_def)
next
  case (2 zs b z)
  then show ?thesis
    using assms by (cases zs rule: last_cases)
      (auto simp: list_prev_def TAILQ_PREV_def list_mem_defs list_at_def)
qed

lemma list_last_ok:
  assumes "list_at s l xs"
  shows "list_last s l = Some (if xs = [] then None else Some (fst (last xs)))"
proof (cases xs rule: last_cases)
  case (2 zs b z)
  then show ?thesis
    using assms by (cases zs rule: last_cases)
      (auto simp: list_last_def TAILQ_LAST_def list_mem_defs list_at_def)
qed (use assms in \<open>auto simp: list_last_def TAILQ_LAST_def list_mem_defs list_at_def\<close>)

lemma list_first_ok: "list_at s l xs \<Longrightarrow> list_first s l = Some (next_of xs None)"
  by (auto simp: list_first_def TAILQ_FIRST_def head_at_def list_at_def)

lemma item_at_ok:
  "list_at s l (xs @ (a, y) # ys) \<Longrightarrow>
   item_at s (Some a) = Some (mk_item y l (next_of ys None) (last_slot (HeadSlot l) xs))"
  by (auto simp: item_at_def list_at_def)

text \<open>The branch for an item that has a predecessor inserts behind the item.\<close>

lemma list_insert_before_first:
  assumes "list_at s l ((a, y) # ys)" and "malloc s = e" "ls_items s e = None"
  shows "\<exists>s'. list_insert_before malloc s (Some a) x = Some (Some e, s') \<and>
    list_at s' l ((e, x) # (a, y) # ys)"
  using list_unshift_ok [where malloc = malloc, OF assms] list_prev_ok [of s l "[]" a y ys] item_at_ok [of s l "[]" a y ys] assms(1)
  by (auto simp: list_insert_before_def)

lemma list_insert_before_inner:
  assumes "list_at s l (xs @ (a, y) # ys)" and "malloc s = e" "ls_items s e = None" and "xs \<noteq> []"
  shows "\<exists>s'. list_insert_before malloc s (Some a) x = Some (Some e, s') \<and>
    list_at s' l (xs @ (a, y) # (e, x) # ys)"
  using list_insert_after_ok [where malloc = malloc, OF assms(1-3)] list_prev_ok [OF assms(1)] assms(4)
  by (auto simp: list_insert_before_def)

subsection \<open>Removal\<close>

lemma TAILQ_REMOVE_ok:
  assumes "list_at s l (xs @ (a, y) # ys)"
  shows "\<exists>s'. TAILQ_REMOVE s l (Some a) = Some s' \<and> ls_items s' a = ls_items s a \<and>
    list_at (s'\<lparr>ls_items := (ls_items s')(a := None)\<rparr>) l (xs @ ys) \<and>
    lframe l (fst ` set (xs @ ys)) s s'"
proof (cases xs rule: last_cases)
  case 1
  then show ?thesis
    using assms by (cases ys rule: first_cases)
      (auto simp: TAILQ_REMOVE_def list_mem_defs list_at_def lframe_def)
next
  case (2 zs b z)
  then show ?thesis
    using assms by (cases ys rule: first_cases)
      (auto simp: TAILQ_REMOVE_def list_mem_defs list_at_def lframe_def)
qed

text \<open>The items of two lists are never shared, because every item names its list.\<close>

lemma items_at_list: "items_at m l p q xs \<Longrightarrow> a \<in> fst ` set xs \<Longrightarrow> \<exists>i. m a = Some i \<and> li_list i = l"
  by (induction p xs rule: last_slot.induct) auto

lemma list_at_disjoint:
  assumes "list_at s l xs" and "list_at s l' ys" and "l \<noteq> l'"
  shows "fst ` set xs \<inter> fst ` set ys = {}"
proof -
  have "a \<notin> fst ` set ys" if "a \<in> fst ` set xs" for a
    using that assms items_at_list [of "ls_items s"] unfolding list_at_def by (metis option.inject)
  then show ?thesis by blast
qed

text \<open>All the other lists of the store are as they were.\<close>

definition others_kept :: "addr \<Rightarrow> 'a lstore \<Rightarrow> 'a lstore \<Rightarrow> bool" where
  "others_kept l s s' \<longleftrightarrow> (\<forall>l' ys. l' \<noteq> l \<longrightarrow> list_at s l' ys \<longrightarrow> list_at s' l' ys)"

lemma others_keptD: "others_kept l s s' \<Longrightarrow> l' \<noteq> l \<Longrightarrow> list_at s l' ys \<Longrightarrow> list_at s' l' ys"
  by (simp add: others_kept_def)

lemma others_kept_refl: "others_kept l s s"
  by (simp add: others_kept_def)

lemma others_kept_trans: "others_kept l s1 s2 \<Longrightarrow> others_kept l s2 s3 \<Longrightarrow> others_kept l s1 s3"
  by (simp add: others_kept_def)

lemma lframe_others:
  assumes "lframe l A s s'" and "list_at s l xs"
    and "\<And>a. a \<in> A \<Longrightarrow> a \<in> fst ` set xs \<or> ls_items s a = None"
  shows "others_kept l s s'"
  unfolding others_kept_def
proof (intro allI impI)
  fix l' ys
  assume l': "l' \<noteq> l" "list_at s l' ys"
  have "A \<inter> fst ` set ys = {}"
    using assms(3) list_at_disjoint [OF assms(2) l'(2)] l'(1) list_at_fresh [OF l'(2)] by blast
  then show "list_at s' l' ys" using lframe_list [OF assms(1) l'(2,1)] by blast
qed

lemma list_remove_ok:
  assumes at: "list_at s l (xs @ (a, y) # ys)"
  shows "\<exists>s'. list_remove s l (Some a) = Some (y, s') \<and> list_at s' l (xs @ ys) \<and>
    lframe l (fst ` set (xs @ (a, y) # ys)) s s' \<and> ls_items s' a = None"
proof -
  note item = item_at_ok [OF at]
  obtain s' where s': "TAILQ_REMOVE s l (Some a) = Some s'" "ls_items s' a = ls_items s a"
    "list_at (s'\<lparr>ls_items := (ls_items s')(a := None)\<rparr>) l (xs @ ys)"
    "lframe l (fst ` set (xs @ ys)) s s'"
    using TAILQ_REMOVE_ok [OF at] by blast
  have "ls_items s' a \<noteq> None" using item s'(2) by (auto simp: item_at_def)
  then show ?thesis
    using item s' by (auto simp: list_remove_def free_item_def lframe_def)
qed

lemma list_shift_ok:
  assumes "list_at s l ((a, y) # ys)"
  shows "\<exists>s'. list_shift s l = Some (Some y, s') \<and> list_at s' l ys \<and>
    lframe l (fst ` set ((a, y) # ys)) s s' \<and> ls_items s' a = None"
  using list_remove_ok [of s l "[]"] list_first_ok [OF assms] item_at_ok [of s l "[]"] assms
  by (fastforce simp: list_shift_def list_iterator_get_value_def)

lemma list_shift_empty: "list_at s l [] \<Longrightarrow> list_shift s l = Some (None, s)"
  using list_first_ok [of s l "[]"] by (simp add: list_shift_def)

subsection \<open>Erasing and destroying\<close>

lemma list_erase_ok:
  "list_at s l xs \<Longrightarrow> \<exists>s'. list_erase s l = Some (s', map snd xs) \<and> list_at s' l [] \<and>
    lframe l (fst ` set xs) s s' \<and> (\<forall>a \<in> fst ` set xs. ls_items s' a = None)"
proof (induction xs arbitrary: s)
  case Nil
  then show ?case
    using list_first_ok [of s l "[]"] by (subst list_erase.simps) (auto simp: lframe_refl)
next
  case (Cons ay ys)
  obtain a y where ay: "ay = (a, y)" by (cases ay)
  obtain s1 where s1: "list_remove s l (Some a) = Some (y, s1)" "list_at s1 l ys"
    "lframe l (insert a (fst ` set ys)) s s1" "ls_items s1 a = None"
    using list_remove_ok [of s l "[]" a y ys] Cons.prems ay by auto
  obtain s2 where s2: "list_erase s1 l = Some (s2, map snd ys)" "list_at s2 l []"
    "lframe l (fst ` set ys) s1 s2" "\<forall>b \<in> fst ` set ys. ls_items s2 b = None"
    using Cons.IH [OF s1(2)] by blast
  have a: "a \<notin> fst ` set ys" using Cons.prems ay by (auto simp: list_at_def)
  then have "ls_items s2 a = None" using s2(3) s1(4) by (simp add: lframe_def)
  moreover have "lframe l (insert a (fst ` set ys)) s s2"
    using lframe_trans [OF s1(3) s2(3)] by (simp add: insert_absorb Un_commute)
  moreover have "list_erase s l = Some (s2, y # map snd ys)"
    using s1(1) s2(1) list_first_ok [OF Cons.prems] ay
    by (subst list_erase.simps) (auto simp: list_remove_def split: bind_splits)
  ultimately show ?case using s2 ay by auto
qed

lemma list_destroy_ok:
  assumes "list_at s l xs"
  shows "\<exists>s'. list_destroy s l = Some (s', map snd xs) \<and> ls_heads s' l = None \<and>
    lframe l (fst ` set xs) s s' \<and> (\<forall>a \<in> fst ` set xs. ls_items s' a = None)"
proof -
  obtain s1 where s1: "list_erase s l = Some (s1, map snd xs)" "list_at s1 l []"
    "lframe l (fst ` set xs) s s1" "\<forall>a \<in> fst ` set xs. ls_items s1 a = None"
    using list_erase_ok [OF assms] by blast
  then obtain h where "head_at s1 l = Some h" by (auto simp: list_at_def head_at_def)
  then show ?thesis using s1 by (auto simp: list_destroy_def lframe_def)
qed

lemma list_create_ok:
  assumes "malloc s = l" and "ls_heads s l = None"
  shows "\<exists>s'. list_create malloc s = Some (l, s') \<and> list_at s' l [] \<and> lframe l {} s s'"
  using assms by (auto simp: list_create_def list_at_def mk_head_def lframe_def Let_def)

subsection \<open>Walks over a list\<close>

lemma list_next_ok:
  "list_at s l (xs @ (a, y) # ys) \<Longrightarrow> list_next s (Some a) = Some (next_of ys None)"
  using item_at_ok [of s l xs a y ys] by (simp add: list_next_def TAILQ_NEXT_def)

lemma list_value_ok:
  "list_at s l (xs @ (a, y) # ys) \<Longrightarrow> list_iterator_get_value s (Some a) = Some y"
  using item_at_ok [of s l xs a y ys] by (simp add: list_iterator_get_value_def)

lemma list_size_loop_ok:
  "list_at s l (zs @ xs) \<Longrightarrow>
   list_size_loop s (next_of xs None) i = Some (i + int (length xs))"
proof (induction xs arbitrary: zs i)
  case Nil
  then show ?case by (subst list_size_loop.simps) simp
next
  case (Cons ay ys)
  obtain a y where ay: "ay = (a, y)" by (cases ay)
  show ?case
    using Cons.IH [of "zs @ [ay]" "i + 1"] Cons.prems list_next_ok [of s l zs a y ys] ay
    by (subst list_size_loop.simps) simp
qed

lemma list_size_ok: "list_at s l xs \<Longrightarrow> list_size s l = Some (int (length xs))"
  using list_size_loop_ok [of s l "[]" xs 0] list_first_ok [of s l xs] by (simp add: list_size_def)

lemma list_foreach_loop_ok:
  "list_at s l (zs @ xs) \<Longrightarrow> list_foreach_loop s (next_of xs None) = Some (map snd xs)"
proof (induction xs arbitrary: zs)
  case Nil
  then show ?case by (subst list_foreach_loop.simps) simp
next
  case (Cons ay ys)
  obtain a y where ay: "ay = (a, y)" by (cases ay)
  show ?case
    using Cons.IH [of "zs @ [ay]"] Cons.prems list_next_ok [of s l zs a y ys]
      list_value_ok [of s l zs a y ys] ay
    by (subst list_foreach_loop.simps) simp
qed

lemma list_foreach_ok: "list_at s l xs \<Longrightarrow> list_foreach s l = Some (map snd xs)"
  using list_foreach_loop_ok [of s l "[]" xs] list_first_ok [of s l xs] by (simp add: list_foreach_def)

definition first_match :: "('a \<Rightarrow> bool) \<Rightarrow> (addr \<times> 'a) list \<Rightarrow> ptr" where
  "first_match P xs = next_of (dropWhile (\<lambda>(a, x). \<not> P x) xs) None"

lemma list_find_loop_ok:
  "list_at s l (zs @ xs) \<Longrightarrow>
   list_find_loop s match pat (next_of xs None) = Some (first_match (\<lambda>x. match x pat) xs)"
proof (induction xs arbitrary: zs)
  case Nil
  then show ?case by (subst list_find_loop.simps) (simp add: first_match_def)
next
  case (Cons ay ys)
  obtain a y where ay: "ay = (a, y)" by (cases ay)
  show ?case
    using Cons.IH [of "zs @ [ay]"] Cons.prems list_next_ok [of s l zs a y ys]
      item_at_ok [of s l zs a y ys] ay
    by (subst list_find_loop.simps) (simp add: first_match_def)
qed

lemma list_find_iterator_ok:
  "list_at s l xs \<Longrightarrow> list_find_iterator s l match pat = Some (first_match (\<lambda>x. match x pat) xs)"
  using list_find_loop_ok [of s l "[]" xs] list_first_ok [of s l xs]
  by (simp add: list_find_iterator_def)

text \<open>Either nothing matches, or the list splits at the first match.\<close>

lemma first_match_cases:
  obtains (none) "first_match P xs = None" "\<And>x. x \<in> snd ` set xs \<Longrightarrow> \<not> P x"
  | (some) ys a x zs where "xs = ys @ (a, x) # zs" "P x" "first_match P xs = Some a"
      "\<And>y. y \<in> snd ` set ys \<Longrightarrow> \<not> P y"
proof (cases "dropWhile (\<lambda>(a, x). \<not> P x) xs")
  case Nil
  show ?thesis
  proof (rule none)
    show "first_match P xs = None" using Nil by (simp add: first_match_def del: dropWhile_eq_Nil_conv)
    show "\<not> P x" if "x \<in> snd ` set xs" for x using that Nil by auto
  qed
next
  case (Cons ax zs)
  obtain a x where ax: "ax = (a, x)" by (cases ax)
  show ?thesis
  proof (rule some)
    show "xs = takeWhile (\<lambda>(a, x). \<not> P x) xs @ (a, x) # zs"
      using Cons ax by (metis takeWhile_dropWhile_id)
    show "P x" using Cons ax hd_dropWhile [of "\<lambda>(a, x). \<not> P x" xs] by simp
    show "first_match P xs = Some a" using Cons ax by (simp add: first_match_def)
    show "\<not> P y" if "y \<in> snd ` set (takeWhile (\<lambda>(a, x). \<not> P x) xs)" for y
      using that set_takeWhileD by force
  qed
qed

lemma list_find_ok:
  assumes "list_at s l xs"
  shows "list_find s l match pat = Some (List.find (\<lambda>x. match x pat) (map snd xs))"
proof (cases xs "\<lambda>x. match x pat" rule: first_match_cases)
  case none
  then have "List.find (\<lambda>x. match x pat) (map snd xs) = None" by (auto simp: find_None_iff)
  then show ?thesis
    using none(1) by (simp add: list_find_def list_find_iterator_ok [OF assms])
next
  case (some ys a x zs)
  have "List.find (\<lambda>x. match x pat) (map snd ys @ x # map snd zs) = Some x"
    using some(2,4) by (induction ys) auto
  then show ?thesis
    using some item_at_ok [of s l ys a x zs] assms
    by (simp add: list_find_def list_find_iterator_ok [OF assms])
qed

text \<open>Deleting the first element that satisfies a predicate.\<close>

fun del_first :: "('a \<Rightarrow> bool) \<Rightarrow> 'a list \<Rightarrow> 'a list" where
  "del_first P [] = []"
| "del_first P (x # xs) = (if P x then xs else x # del_first P xs)"

lemma del_first_split: "(\<And>y. y \<in> set ys \<Longrightarrow> \<not> P y) \<Longrightarrow> P x \<Longrightarrow> del_first P (ys @ x # zs) = ys @ zs"
  by (induction ys) auto

lemma del_first_none: "(\<And>y. y \<in> set ys \<Longrightarrow> \<not> P y) \<Longrightarrow> del_first P ys = ys"
  by (induction ys) auto

lemma find_split: "(\<And>y. y \<in> set ys \<Longrightarrow> \<not> P y) \<Longrightarrow> P x \<Longrightarrow> List.find P (ys @ x # zs) = Some x"
  by (induction ys) auto

lemma list_remove_first_match_ok:
  assumes "list_at s l xs"
  shows "\<exists>s' xs'. list_remove_first_match s l match pat =
      Some (List.find (\<lambda>x. match x pat) (map snd xs), s') \<and>
    list_at s' l xs' \<and> map snd xs' = del_first (\<lambda>x. match x pat) (map snd xs) \<and>
    lframe l (fst ` set xs) s s'"
proof (cases xs "\<lambda>x. match x pat" rule: first_match_cases)
  case none
  have "List.find (\<lambda>x. match x pat) (map snd xs) = None" using none(2) by (auto simp: find_None_iff)
  moreover have "del_first (\<lambda>x. match x pat) (map snd xs) = map snd xs"
    by (rule del_first_none) (use none(2) in auto)
  ultimately show ?thesis
    using none(1) assms
    by (auto simp: list_remove_first_match_def lframe_refl list_find_iterator_ok [OF assms])
next
  case (some ys a x zs)
  have ys: "\<And>y. y \<in> set (map snd ys) \<Longrightarrow> \<not> match y pat" using some(4) by auto
  obtain s' where s': "list_remove s l (Some a) = Some (x, s')" "list_at s' l (ys @ zs)"
    "lframe l (fst ` set xs) s s'"
    using list_remove_ok [of s l ys a x zs] assms some(1) by auto
  have "List.find (\<lambda>x. match x pat) (map snd xs) = Some x"
    unfolding some(1) list.map map_append snd_conv
    by (rule find_split [where P = "\<lambda>x. match x pat", OF ys some(2)])
  moreover have "map snd (ys @ zs) = del_first (\<lambda>x. match x pat) (map snd xs)"
    unfolding some(1) list.map map_append snd_conv
    by (rule del_first_split [where P = "\<lambda>x. match x pat", OF ys some(2), symmetric])
  moreover have "list_remove_first_match s l match pat = Some (Some x, s')"
    using s'(1) some(3) by (simp add: list_remove_first_match_def list_find_iterator_ok [OF assms])
  ultimately show ?thesis using s' by auto
qed

subsection \<open>Building one list from another\<close>

definition lstore_fin :: "'a lstore \<Rightarrow> bool" where
  "lstore_fin s \<longleftrightarrow> finite (dom (ls_items s)) \<and> finite (dom (ls_heads s))"

text \<open>What the code relies on in \<open>malloc\<close>: the address it returns is not in use.\<close>

definition lmalloc_ok :: "('a lstore \<Rightarrow> addr) \<Rightarrow> bool" where
  "lmalloc_ok malloc \<longleftrightarrow>
     (\<forall>s. lstore_fin s \<longrightarrow> ls_items s (malloc s) = None \<and> ls_heads s (malloc s) = None)"

lemma lmalloc_fresh:
  "lmalloc_ok malloc \<Longrightarrow> lstore_fin s \<Longrightarrow> ls_items s (malloc s) = None"
  "lmalloc_ok malloc \<Longrightarrow> lstore_fin s \<Longrightarrow> ls_heads s (malloc s) = None"
  by (simp_all add: lmalloc_ok_def)

lemma lframe_fin:
  assumes "lframe l A s s'" and "finite A" and "lstore_fin s"
  shows "lstore_fin s'"
proof -
  have "dom (ls_items s') \<subseteq> A \<union> dom (ls_items s)" "dom (ls_heads s') \<subseteq> insert l (dom (ls_heads s))"
    using assms(1) by (auto simp: lframe_def domIff)
  then show ?thesis
    using assms(2,3) by (auto simp: lstore_fin_def intro: finite_subset)
qed

lemma list_append_seq:
  assumes "lmalloc_ok malloc" and "lstore_fin s" and "list_at s l xs"
  shows "\<exists>e s'. list_append malloc s l x = Some (Some e, s') \<and> list_at s' l (xs @ [(e, x)]) \<and>
    lstore_fin s' \<and> others_kept l s s'"
proof -
  note new = lmalloc_fresh(1) [OF assms(1,2)]
  obtain s' where s': "list_append malloc s l x = Some (Some (malloc s), s')"
    "list_at s' l (xs @ [(malloc s, x)])" "lframe l (insert (malloc s) (fst ` set xs)) s s'"
    using list_append_ok [where malloc = malloc, OF assms(3) refl new] by blast
  then show ?thesis
    using lframe_fin [OF s'(3) _ assms(2)] lframe_others [OF s'(3) assms(3)] new
    by (metis List.finite_set finite.insertI finite_imageI insert_iff)
qed

lemma list_append_loop_ok:
  assumes "lmalloc_ok malloc" and "l \<noteq> dst"
  shows "lstore_fin s \<Longrightarrow> list_at s l (zs @ xs) \<Longrightarrow> list_at s dst ds \<Longrightarrow>
    \<exists>s' ds'. list_append_loop malloc s f dst (next_of xs None) = Some s' \<and>
      list_at s' dst ds' \<and> map snd ds' = map snd ds @ List.map_filter f (map snd xs) \<and>
      lstore_fin s' \<and> others_kept dst s s'"
proof (induction xs arbitrary: s zs ds)
  case Nil
  then show ?case
    by (subst list_append_loop.simps) (auto simp: others_kept_refl List.map_filter_def)
next
  case (Cons ay ys)
  obtain a y where ay: "ay = (a, y)" by (cases ay)
  show ?case
  proof (cases "f y")
    case None
    then show ?thesis
      using Cons.IH [of s "zs @ [ay]"] Cons.prems ay list_next_ok [of s l zs a y ys]
        list_value_ok [of s l zs a y ys]
      by (subst list_append_loop.simps) (simp add: List.map_filter_simps)
  next
    case (Some z)
    obtain e s1 where s1: "list_append malloc s dst z = Some (Some e, s1)"
      "list_at s1 dst (ds @ [(e, z)])" "lstore_fin s1" "others_kept dst s s1"
      using list_append_seq [OF assms(1) Cons.prems(1,3)] by blast
    have src: "list_at s1 l (zs @ (a, y) # ys)"
      using others_keptD [OF s1(4) assms(2) Cons.prems(2)] ay by simp
    then obtain s' ds' where s': "list_append_loop malloc s1 f dst (next_of ys None) = Some s'"
      "list_at s' dst ds'" "map snd ds' = map snd (ds @ [(e, z)]) @ List.map_filter f (map snd ys)"
      "lstore_fin s'" "others_kept dst s1 s'"
      using Cons.IH [of s1 "zs @ [ay]" "ds @ [(e, z)]"] s1(2,3) ay by auto
    have "list_append_loop malloc s f dst (next_of (ay # ys) None) = Some s'"
      using s'(1) s1(1) Some ay list_next_ok [OF src] list_value_ok [of s l zs a y ys] Cons.prems(2)
      by (subst list_append_loop.simps) simp
    then show ?thesis
      using s' Some ay others_kept_trans [OF s1(4) s'(5)] by (auto simp: List.map_filter_simps)
  qed
qed

end
