(* ===== verification/TailQueueSeq.thy ===== *)
theory TailQueueSeq
  imports TailQueueOps
begin

section \<open>The linked list as a store of sequences\<close>

text \<open>
  The contract that the clients of list.c rely on (the timer and the address watcher), as the locale
  \<open>sequences\<close>: a store holds any number of sequences, each operation acts on one of them as the
  corresponding function on lists and leaves the others alone. It is interpreted for the model of
  the code and any allocator. The operations that build a list from another one, the sort, and the
  two operations that do not do what their names say, come after it. The properties are at the end.
\<close>

subsection \<open>The contract\<close>

locale sequences =
  fixes ok :: "'s \<Rightarrow> bool"
    and seq :: "'s \<Rightarrow> addr \<Rightarrow> 'a list \<Rightarrow> bool"
    and append_op unshift_op :: "'s \<Rightarrow> addr \<Rightarrow> 'a \<Rightarrow> (ptr \<times> 's) option"
    and shift_op :: "'s \<Rightarrow> addr \<Rightarrow> ('a option \<times> 's) option"
    and remove_op :: "'s \<Rightarrow> addr \<Rightarrow> ('a \<Rightarrow> 'p \<Rightarrow> bool) \<Rightarrow> 'p \<Rightarrow> ('a option \<times> 's) option"
    and find_op :: "'s \<Rightarrow> addr \<Rightarrow> ('a \<Rightarrow> 'p \<Rightarrow> bool) \<Rightarrow> 'p \<Rightarrow> 'a option option"
    and erase_op :: "'s \<Rightarrow> addr \<Rightarrow> ('s \<times> 'a list) option"
  assumes append_law: "ok s \<Longrightarrow> seq s l xs \<Longrightarrow> \<exists>p s'. append_op s l x = Some (p, s') \<and> ok s' \<and>
      seq s' l (xs @ [x]) \<and> (\<forall>l' ys. l' \<noteq> l \<longrightarrow> seq s l' ys \<longrightarrow> seq s' l' ys)"
    and unshift_law: "ok s \<Longrightarrow> seq s l xs \<Longrightarrow> \<exists>p s'. unshift_op s l x = Some (p, s') \<and> ok s' \<and>
      seq s' l (x # xs) \<and> (\<forall>l' ys. l' \<noteq> l \<longrightarrow> seq s l' ys \<longrightarrow> seq s' l' ys)"
    and shift_law: "ok s \<Longrightarrow> seq s l xs \<Longrightarrow>
      \<exists>s'. shift_op s l = Some (case xs of [] \<Rightarrow> None | x # _ \<Rightarrow> Some x, s') \<and> ok s' \<and>
      seq s' l (drop 1 xs) \<and> (\<forall>l' ys. l' \<noteq> l \<longrightarrow> seq s l' ys \<longrightarrow> seq s' l' ys)"
    and remove_law: "ok s \<Longrightarrow> seq s l xs \<Longrightarrow>
      \<exists>s'. remove_op s l match p = Some (List.find (\<lambda>x. match x p) xs, s') \<and> ok s' \<and>
      seq s' l (del_first (\<lambda>x. match x p) xs) \<and> (\<forall>l' ys. l' \<noteq> l \<longrightarrow> seq s l' ys \<longrightarrow> seq s' l' ys)"
    and find_law: "ok s \<Longrightarrow> seq s l xs \<Longrightarrow> find_op s l match p = Some (List.find (\<lambda>x. match x p) xs)"
    and erase_law: "ok s \<Longrightarrow> seq s l xs \<Longrightarrow> \<exists>s'. erase_op s l = Some (s', xs) \<and> ok s' \<and>
      seq s' l [] \<and> (\<forall>l' ys. l' \<noteq> l \<longrightarrow> seq s l' ys \<longrightarrow> seq s' l' ys)"

text \<open>Sequences of operations with their results, on a store and on plain lists.\<close>

datatype ('a, 'p) list_op =
  LAppend addr 'a | LUnshift addr 'a | LShift addr | LRemove addr 'p | LFind addr 'p | LErase addr

fun op_list :: "('a, 'p) list_op \<Rightarrow> addr" where
  "op_list (LAppend l x) = l"
| "op_list (LUnshift l x) = l"
| "op_list (LShift l) = l"
| "op_list (LRemove l p) = l"
| "op_list (LFind l p) = l"
| "op_list (LErase l) = l"

fun seq_step :: "('a \<Rightarrow> 'p \<Rightarrow> bool) \<Rightarrow> ('a, 'p) list_op \<Rightarrow> 'a list \<Rightarrow> 'a list \<times> 'a list" where
  "seq_step match (LAppend l x) xs = ([], xs @ [x])"
| "seq_step match (LUnshift l x) xs = ([], x # xs)"
| "seq_step match (LShift l) xs = (take 1 xs, drop 1 xs)"
| "seq_step match (LRemove l p) xs =
     (case List.find (\<lambda>x. match x p) xs of None \<Rightarrow> [] | Some x \<Rightarrow> [x], del_first (\<lambda>x. match x p) xs)"
| "seq_step match (LFind l p) xs =
     (case List.find (\<lambda>x. match x p) xs of None \<Rightarrow> [] | Some x \<Rightarrow> [x], xs)"
| "seq_step match (LErase l) xs = (xs, [])"

fun run_seqs :: "('a \<Rightarrow> 'p \<Rightarrow> bool) \<Rightarrow> (addr \<Rightarrow> 'a list) \<Rightarrow> ('a, 'p) list_op list \<Rightarrow>
    'a list list \<times> (addr \<Rightarrow> 'a list)" where
  "run_seqs match M [] = ([], M)"
| "run_seqs match M (a # as) =
     (let (r, xs) = seq_step match a (M (op_list a));
          (rs, M') = run_seqs match (M(op_list a := xs)) as
      in (r # rs, M'))"

fun store_step ::
  "('s \<Rightarrow> addr \<Rightarrow> 'a \<Rightarrow> (ptr \<times> 's) option) \<Rightarrow> ('s \<Rightarrow> addr \<Rightarrow> 'a \<Rightarrow> (ptr \<times> 's) option) \<Rightarrow>
   ('s \<Rightarrow> addr \<Rightarrow> ('a option \<times> 's) option) \<Rightarrow>
   ('s \<Rightarrow> addr \<Rightarrow> ('a \<Rightarrow> 'p \<Rightarrow> bool) \<Rightarrow> 'p \<Rightarrow> ('a option \<times> 's) option) \<Rightarrow>
   ('s \<Rightarrow> addr \<Rightarrow> ('a \<Rightarrow> 'p \<Rightarrow> bool) \<Rightarrow> 'p \<Rightarrow> 'a option option) \<Rightarrow>
   ('s \<Rightarrow> addr \<Rightarrow> ('s \<times> 'a list) option) \<Rightarrow>
   ('a \<Rightarrow> 'p \<Rightarrow> bool) \<Rightarrow> 's \<Rightarrow> ('a, 'p) list_op \<Rightarrow> ('a list \<times> 's) option" where
  "store_step app uns shf rem fnd ers match s (LAppend l x) = do { (_, s) \<leftarrow> app s l x; Some ([], s) }"
| "store_step app uns shf rem fnd ers match s (LUnshift l x) = do { (_, s) \<leftarrow> uns s l x; Some ([], s) }"
| "store_step app uns shf rem fnd ers match s (LShift l) = do {
     (r, s) \<leftarrow> shf s l; Some (case r of None \<Rightarrow> [] | Some x \<Rightarrow> [x], s) }"
| "store_step app uns shf rem fnd ers match s (LRemove l p) = do {
     (r, s) \<leftarrow> rem s l match p; Some (case r of None \<Rightarrow> [] | Some x \<Rightarrow> [x], s) }"
| "store_step app uns shf rem fnd ers match s (LFind l p) = do {
     r \<leftarrow> fnd s l match p; Some (case r of None \<Rightarrow> [] | Some x \<Rightarrow> [x], s) }"
| "store_step app uns shf rem fnd ers match s (LErase l) = do { (s, xs) \<leftarrow> ers s l; Some (xs, s) }"

fun run_store :: "('s \<Rightarrow> 'op \<Rightarrow> ('r \<times> 's) option) \<Rightarrow> 's \<Rightarrow> 'op list \<Rightarrow> ('r list \<times> 's) option" where
  "run_store step s [] = Some ([], s)"
| "run_store step s (a # as) = do {
     (r, s) \<leftarrow> step s a;
     (rs, s) \<leftarrow> run_store step s as;
     Some (r # rs, s) }"

context sequences
begin

lemma step_law:
  assumes "ok s" and "seq s (op_list a) xs"
  shows "\<exists>s'. store_step append_op unshift_op shift_op remove_op find_op erase_op match s a =
      Some (fst (seq_step match a xs), s') \<and> ok s' \<and> seq s' (op_list a) (snd (seq_step match a xs)) \<and>
    (\<forall>l' ys. l' \<noteq> op_list a \<longrightarrow> seq s l' ys \<longrightarrow> seq s' l' ys)"
proof (cases a)
  case (LAppend l x)
  then show ?thesis using append_law [OF assms, of x] by auto
next
  case (LUnshift l x)
  then show ?thesis using unshift_law [OF assms, of x] by auto
next
  case (LShift l)
  then show ?thesis using shift_law [OF assms] by (cases xs) auto
next
  case (LRemove l p)
  then show ?thesis using remove_law [OF assms, of match p] by auto
next
  case (LFind l p)
  then show ?thesis using find_law [OF assms, of match p] assms by auto
next
  case (LErase l)
  then show ?thesis using erase_law [OF assms] by auto
qed

lemma run_law:
  "ok s \<Longrightarrow> (\<And>l. l \<in> L \<Longrightarrow> seq s l (M l)) \<Longrightarrow> op_list ` set as \<subseteq> L \<Longrightarrow>
   \<exists>s'. run_store (store_step append_op unshift_op shift_op remove_op find_op erase_op match) s as =
      Some (fst (run_seqs match M as), s') \<and> ok s' \<and>
    (\<forall>l \<in> L. seq s' l (snd (run_seqs match M as) l))"
proof (induction as arbitrary: s M)
  case Nil
  then show ?case by simp
next
  case (Cons a as)
  let ?xs = "M (op_list a)"
  have "op_list a \<in> L" using Cons.prems(3) by simp
  then obtain s1 where s1: "store_step append_op unshift_op shift_op remove_op find_op erase_op match s a =
      Some (fst (seq_step match a ?xs), s1)" "ok s1" "seq s1 (op_list a) (snd (seq_step match a ?xs))"
    "\<forall>l' ys. l' \<noteq> op_list a \<longrightarrow> seq s l' ys \<longrightarrow> seq s1 l' ys"
    using step_law [OF Cons.prems(1), of a ?xs match] Cons.prems(2) by blast
  define M' where "M' = M(op_list a := snd (seq_step match a ?xs))"
  have "\<And>l. l \<in> L \<Longrightarrow> seq s1 l (M' l)" using s1(3,4) Cons.prems(2) by (auto simp: M'_def)
  then obtain s' where s': "run_store (store_step append_op unshift_op shift_op remove_op find_op
      erase_op match) s1 as = Some (fst (run_seqs match M' as), s')" "ok s'"
    "\<forall>l \<in> L. seq s' l (snd (run_seqs match M' as) l)"
    using Cons.IH [of s1 M'] s1(2) Cons.prems(3) by auto
  have "run_seqs match M (a # as) = (fst (seq_step match a ?xs) # fst (run_seqs match M' as),
      snd (run_seqs match M' as))"
    by (simp add: M'_def case_prod_beta Let_def)
  then show ?case using s' s1(1) by auto
qed

lemma drain_law: "ok s \<Longrightarrow> seq s l [] \<Longrightarrow>
   \<exists>s'. run_store (store_step append_op unshift_op shift_op remove_op find_op erase_op match) s
       (map (LAppend l) xs @ [LErase l]) = Some (map (\<lambda>_. []) xs @ [xs], s') \<and> ok s'"
proof -
  assume "ok s" "seq s l []"
  moreover have "fst (run_seqs match M (map (LAppend l) xs @ [LErase l])) =
      map (\<lambda>_. []) xs @ [M l @ xs]" for M
    by (induction xs arbitrary: M) (auto simp: case_prod_beta Let_def)
  ultimately show ?thesis
    using run_law [of s "{l}" "\<lambda>_. []" "map (LAppend l) xs @ [LErase l]" match] by fastforce
qed

end

subsection \<open>The instance\<close>

definition list_vals :: "'a lstore \<Rightarrow> addr \<Rightarrow> 'a list \<Rightarrow> bool" where
  "list_vals s l vs \<longleftrightarrow> (\<exists>xs. list_at s l xs \<and> map snd xs = vs)"

lemma list_valsI: "list_at s l xs \<Longrightarrow> list_vals s l (map snd xs)"
  by (auto simp: list_vals_def)

lemma others_vals: "others_kept l s s' \<Longrightarrow> l' \<noteq> l \<Longrightarrow> list_vals s l' ys \<Longrightarrow> list_vals s' l' ys"
  by (auto simp: list_vals_def dest: others_keptD)

text \<open>An operation whose effect is framed by the items of its own list keeps the rest.\<close>

lemma own_items_frame:
  assumes "lframe l (fst ` set xs) s s'" and "list_at s l xs" and "lstore_fin s"
  shows "lstore_fin s'" and "others_kept l s s'"
  using lframe_fin [OF assms(1) _ assms(3)] lframe_others [OF assms(1,2)] by auto

locale list_alloc =
  fixes malloc :: "'a lstore \<Rightarrow> addr"
  assumes malloc: "lmalloc_ok malloc"
begin

lemma append_vals:
  assumes "lstore_fin s" and "list_vals s l vs"
  shows "\<exists>p s'. list_append malloc s l x = Some (p, s') \<and> lstore_fin s' \<and> list_vals s' l (vs @ [x]) \<and>
    (\<forall>l' ys. l' \<noteq> l \<longrightarrow> list_vals s l' ys \<longrightarrow> list_vals s' l' ys)"
proof -
  obtain xs where xs: "list_at s l xs" "map snd xs = vs" using assms(2) by (auto simp: list_vals_def)
  obtain e s' where "list_append malloc s l x = Some (Some e, s')" "list_at s' l (xs @ [(e, x)])"
    "lstore_fin s'" "others_kept l s s'"
    using list_append_seq [OF malloc assms(1) xs(1)] by blast
  then show ?thesis using xs(2) list_valsI [of s' l "xs @ [(e, x)]"] by (auto intro: others_vals)
qed

lemma unshift_vals:
  assumes "lstore_fin s" and "list_vals s l vs"
  shows "\<exists>p s'. list_unshift malloc s l x = Some (p, s') \<and> lstore_fin s' \<and> list_vals s' l (x # vs) \<and>
    (\<forall>l' ys. l' \<noteq> l \<longrightarrow> list_vals s l' ys \<longrightarrow> list_vals s' l' ys)"
proof -
  obtain xs where xs: "list_at s l xs" "map snd xs = vs" using assms(2) by (auto simp: list_vals_def)
  note new = lmalloc_fresh(1) [OF malloc assms(1)]
  obtain s' where s': "list_unshift malloc s l x = Some (Some (malloc s), s')"
    "list_at s' l ((malloc s, x) # xs)" "lframe l (insert (malloc s) (fst ` set xs)) s s'"
    using list_unshift_ok [where malloc = malloc, OF xs(1) refl new] by blast
  have "others_kept l s s'" by (rule lframe_others [OF s'(3) xs(1)]) (use new in auto)
  then show ?thesis
    using s'(1) lframe_fin [OF s'(3) _ assms(1)] list_valsI [OF s'(2)] xs(2)
    by (auto intro: others_vals)
qed

end

lemma shift_vals:
  assumes "lstore_fin s" and "list_vals s l vs"
  shows "\<exists>s'. list_shift s l = Some (case vs of [] \<Rightarrow> None | x # _ \<Rightarrow> Some x, s') \<and> lstore_fin s' \<and>
    list_vals s' l (drop 1 vs) \<and> (\<forall>l' ys. l' \<noteq> l \<longrightarrow> list_vals s l' ys \<longrightarrow> list_vals s' l' ys)"
proof -
  obtain xs where xs: "list_at s l xs" "map snd xs = vs" using assms(2) by (auto simp: list_vals_def)
  show ?thesis
  proof (cases xs rule: first_cases)
    case 1
    then show ?thesis using list_shift_empty [of s l] xs assms by auto
  next
    case (2 a y ys)
    obtain s' where s': "list_shift s l = Some (Some y, s')" "list_at s' l ys"
      "lframe l (fst ` set xs) s s'"
      using list_shift_ok [of s l a y ys] xs(1) 2 by blast
    then show ?thesis
      using own_items_frame [OF s'(3) xs(1) assms(1)] list_valsI [OF s'(2)] xs(2) 2
      by (auto intro: others_vals)
  qed
qed

lemma remove_vals:
  assumes "lstore_fin s" and "list_vals s l vs"
  shows "\<exists>s'. list_remove_first_match s l match p = Some (List.find (\<lambda>x. match x p) vs, s') \<and>
    lstore_fin s' \<and> list_vals s' l (del_first (\<lambda>x. match x p) vs) \<and>
    (\<forall>l' ys. l' \<noteq> l \<longrightarrow> list_vals s l' ys \<longrightarrow> list_vals s' l' ys)"
proof -
  obtain xs where xs: "list_at s l xs" "map snd xs = vs" using assms(2) by (auto simp: list_vals_def)
  obtain s' xs' where s': "list_remove_first_match s l match p = Some (List.find (\<lambda>x. match x p) vs, s')"
    "list_at s' l xs'" "map snd xs' = del_first (\<lambda>x. match x p) vs" "lframe l (fst ` set xs) s s'"
    using list_remove_first_match_ok [OF xs(1), of match p] xs(2) by auto
  show ?thesis
    using s'(1) own_items_frame [OF s'(4) xs(1) assms(1)] list_valsI [OF s'(2)] s'(3)
    by (auto intro: others_vals)
qed

lemma find_vals:
  "list_vals s l vs \<Longrightarrow> list_find s l match p = Some (List.find (\<lambda>x. match x p) vs)"
  using list_find_ok [of s l _ match p] by (auto simp: list_vals_def)

lemma erase_vals:
  assumes "lstore_fin s" and "list_vals s l vs"
  shows "\<exists>s'. list_erase s l = Some (s', vs) \<and> lstore_fin s' \<and> list_vals s' l [] \<and>
    (\<forall>l' ys. l' \<noteq> l \<longrightarrow> list_vals s l' ys \<longrightarrow> list_vals s' l' ys)"
proof -
  obtain xs where xs: "list_at s l xs" "map snd xs = vs" using assms(2) by (auto simp: list_vals_def)
  obtain s' where s': "list_erase s l = Some (s', vs)" "list_at s' l []" "lframe l (fst ` set xs) s s'"
    using list_erase_ok [OF xs(1)] xs(2) by auto
  show ?thesis
    using s'(1) own_items_frame [OF s'(3) xs(1) assms(1)] list_valsI [OF s'(2)]
    by (auto intro: others_vals)
qed

sublocale list_alloc \<subseteq> lq: sequences lstore_fin list_vals "list_append malloc" "list_unshift malloc"
  list_shift list_remove_first_match list_find list_erase
  by unfold_locales
    (erule (1) append_vals unshift_vals shift_vals remove_vals erase_vals; fail | rule find_vals; assumption)+

context list_alloc
begin

lemmas store_run = lq.run_law

end

subsection \<open>Lists made from other lists\<close>

lemma list_create_seq:
  assumes "lmalloc_ok malloc" and "lstore_fin s"
  shows "\<exists>s'. list_create malloc s = Some (malloc s, s') \<and> list_at s' (malloc s) [] \<and> lstore_fin s' \<and>
    (\<forall>l ys. list_at s l ys \<longrightarrow> l \<noteq> malloc s \<and> list_at s' l ys)"
proof -
  note new = lmalloc_fresh(2) [OF assms]
  obtain s' where s': "list_create malloc s = Some (malloc s, s')" "list_at s' (malloc s) []"
    "lframe (malloc s) {} s s'"
    using list_create_ok [where malloc = malloc, OF refl new] by blast
  have "l \<noteq> malloc s" if "list_at s l ys" for l ys
    using that new by (auto simp: list_at_def)
  then show ?thesis
    using s' lframe_fin [OF s'(3) _ assms(2)] lframe_list [OF s'(3)] by blast
qed

text \<open>
  The common shape of \<open>list_copy\<close>, \<open>list_filter\<close> and \<open>list_map\<close>: a fresh list is filled from \<open>l\<close>,
  and every list there was, \<open>l\<close> included, is kept.
\<close>

lemma list_build_ok:
  assumes "lmalloc_ok malloc" and "lstore_fin s" and "list_at s l xs"
  shows "\<exists>s'. (do { (d, s) \<leftarrow> list_create malloc s; li \<leftarrow> list_first s l;
        s \<leftarrow> list_append_loop malloc s f d li; Some (d, s) }) = Some (malloc s, s') \<and>
    list_vals s' (malloc s) (List.map_filter f (map snd xs)) \<and> lstore_fin s' \<and>
    (\<forall>l' ys. list_at s l' ys \<longrightarrow> list_at s' l' ys)"
proof -
  obtain s1 where s1: "list_create malloc s = Some (malloc s, s1)" "list_at s1 (malloc s) []"
    "lstore_fin s1" "\<forall>l ys. list_at s l ys \<longrightarrow> l \<noteq> malloc s \<and> list_at s1 l ys"
    using list_create_seq [OF assms(1,2)] by blast
  then have l: "l \<noteq> malloc s" "list_at s1 l xs" using assms(3) by blast+
  obtain s2 ds where s2: "list_append_loop malloc s1 f (malloc s) (next_of xs None) = Some s2"
    "list_at s2 (malloc s) ds" "map snd ds = List.map_filter f (map snd xs)" "lstore_fin s2"
    "others_kept (malloc s) s1 s2"
    using list_append_loop_ok [OF assms(1) l(1) s1(3), of "[]" xs "[]" f] l(2) s1(2) by auto
  have "list_vals s2 (malloc s) (List.map_filter f (map snd xs))"
    using list_valsI [OF s2(2)] s2(3) by simp
  moreover have "\<forall>l' ys. list_at s l' ys \<longrightarrow> list_at s2 l' ys"
    using s1(4) others_keptD [OF s2(5)] by blast
  ultimately show ?thesis
    using s1(1) s2(1,4) list_first_ok [OF l(2)] by simp
qed

lemma map_filter_Some [simp]: "List.map_filter (\<lambda>x. Some (f x)) xs = map f xs"
  by (induction xs) (simp_all add: List.map_filter_simps)

lemma map_filter_if [simp]: "List.map_filter (\<lambda>x. if P x then Some x else None) xs = filter P xs"
  by (induction xs) (simp_all add: List.map_filter_simps)

lemma list_append_list_ok:
  assumes "lmalloc_ok malloc" and "lstore_fin s" and "list_at s l1 ds" and "list_at s l2 xs"
    and "l1 \<noteq> l2"
  shows "\<exists>s'. list_append_list malloc s l1 l2 c = Some s' \<and> list_at s' l2 xs \<and> lstore_fin s' \<and>
    list_vals s' l1 (map snd ds @ map (case c of None \<Rightarrow> (\<lambda>x. x) | Some g \<Rightarrow> g) (map snd xs))"
proof -
  let ?f = "\<lambda>x. Some ((case c of None \<Rightarrow> (\<lambda>x. x) | Some g \<Rightarrow> g) x)"
  have f: "(\<lambda>x. Some (case c of None \<Rightarrow> x | Some g \<Rightarrow> g x)) = ?f" by (auto split: option.splits)
  have "l2 \<noteq> l1" using assms(5) by simp
  then obtain s' ds' where s': "list_append_loop malloc s ?f l1 (next_of xs None) = Some s'"
    "list_at s' l1 ds'" "map snd ds' = map snd ds @ List.map_filter ?f (map snd xs)" "lstore_fin s'"
    "others_kept l1 s s'"
    using list_append_loop_ok [OF assms(1) \<open>l2 \<noteq> l1\<close> assms(2), of "[]" xs ds ?f] assms(3,4) by auto
  then show ?thesis
    using list_first_ok [OF assms(4)] others_keptD [OF s'(5) \<open>l2 \<noteq> l1\<close> assms(4)] list_valsI [OF s'(2)]
    unfolding list_append_list_def f by (simp only: map_filter_Some) auto
qed

text \<open>Appending a list to itself chases its own tail.\<close>

definition self_append :: "('a lstore \<Rightarrow> addr) \<Rightarrow> 'a lstore \<Rightarrow> ('a \<Rightarrow> 'a option) \<Rightarrow> addr \<Rightarrow> ptr \<Rightarrow> bool" where
  "self_append malloc s f l p \<longleftrightarrow> lmalloc_ok malloc \<and> (\<forall>x. f x \<noteq> None) \<and> lstore_fin s \<and>
     (\<exists>zs a y xs. p = Some a \<and> list_at s l (zs @ (a, y) # xs))"

lemma list_append_loop_self:
  "list_append_loop malloc s f l p = Some s' \<Longrightarrow> \<not> self_append malloc s f l p"
proof (rule list_append_loop.raw_induct [of "\<lambda>malloc s f l p _. \<not> self_append malloc s f l p"])
  fix loop malloc s f l p s'
  assume IH: "\<And>malloc s f l p s'. loop malloc s f l p = Some s' \<Longrightarrow>
      \<not> self_append malloc s f (l :: addr) (p :: ptr)"
    and body: "(if p \<noteq> None then do { x \<leftarrow> list_iterator_get_value s p;
        s \<leftarrow> (case f x of None \<Rightarrow> Some s
          | Some y \<Rightarrow> do { (_, s) \<leftarrow> list_append malloc s l y; Some s });
        p \<leftarrow> list_next s p; loop malloc s f l p } else Some s) = Some (s' :: 'a lstore)"
  show "\<not> self_append malloc s f l p"
  proof
    assume self: "self_append malloc s f l p"
    then obtain zs a y xs where m: "lmalloc_ok malloc" "\<forall>x. f x \<noteq> None" "lstore_fin s" "p = Some a"
      "list_at s l (zs @ (a, y) # xs)" by (auto simp: self_append_def)
    obtain v where v: "f y = Some v" using m(2) by (meson option.exhaust_sel)
    obtain e s1 where s1: "list_append malloc s l v = Some (Some e, s1)"
      "list_at s1 l ((zs @ (a, y) # xs) @ [(e, v)])" "lstore_fin s1"
      using list_append_seq [OF m(1,3,5)] by blast
    have at: "list_at s1 l (zs @ (a, y) # (xs @ [(e, v)]))" using s1(2) by simp
    obtain b w ys where b: "xs @ [(e, v)] = (b, w) # ys" by (cases "xs @ [(e, v)]") auto
    have "loop malloc s1 f l (Some b) = Some s'"
      using body v s1(1) list_next_ok [OF at] list_value_ok [OF m(5)] b m(4) by simp
    moreover have "list_at s1 l ((zs @ [(a, y)]) @ (b, w) # ys)" using at b by simp
    then have "self_append malloc s1 f l (Some b)"
      using m(1,2) s1(3) unfolding self_append_def by blast
    ultimately show False using IH by blast
  qed
qed

lemma list_append_list_self:
  assumes "lmalloc_ok malloc" and "lstore_fin s" and "list_at s l xs" and "xs \<noteq> []"
  shows "list_append_list malloc s l l c = None"
proof (rule ccontr)
  assume "list_append_list malloc s l l c \<noteq> None"
  moreover obtain a y ys where xs: "xs = (a, y) # ys" using assms(4) by (cases xs) auto
  ultimately obtain s' where
    "list_append_loop malloc s (\<lambda>x. Some (case c of None \<Rightarrow> x | Some g \<Rightarrow> g x)) l (Some a) = Some s'"
    using list_first_ok [OF assms(3)] by (auto simp: list_append_list_def)
  then show False
    using list_append_loop_self assms xs unfolding self_append_def
    by (metis append_Nil option.distinct(1))
qed

subsection \<open>Sorting\<close>

lemma list_sort_collect_ok:
  "list_at s l (zs @ xs) \<Longrightarrow> length arr = length xs + i \<Longrightarrow>
   list_sort_collect s (next_of xs None) arr i = Some (take i arr @ map (\<lambda>x. Some (snd x)) xs)"
proof (induction xs arbitrary: zs arr i)
  case Nil
  then show ?case by (subst list_sort_collect.simps) simp
next
  case (Cons ay ys)
  obtain a y where ay: "ay = (a, y)" by (cases ay)
  have i: "i < length arr" using Cons.prems(2) by simp
  have "list_sort_collect s (next_of (ay # ys) None) arr i =
      list_sort_collect s (next_of ys None) (arr[i := Some y]) (i + 1)"
    using Cons.prems(1) list_next_ok [of s l zs a y ys] list_value_ok [of s l zs a y ys] ay i
    by (subst list_sort_collect.simps) simp
  also have "\<dots> = Some (take (i + 1) (arr[i := Some y]) @ map (\<lambda>x. Some (snd x)) ys)"
    using Cons.IH [of "zs @ [ay]" "arr[i := Some y]" "i + 1"] Cons.prems by simp
  also have "take (i + 1) (arr[i := Some y]) = take i arr @ [Some y]"
    using i by (simp add: take_Suc_conv_app_nth)
  finally show ?case using ay by simp
qed

lemma those_Some: "those (map (\<lambda>x. Some (f x)) xs) = Some (map f xs)"
  by (induction xs) auto

lemma list_append_all_ok:
  assumes "lmalloc_ok malloc"
  shows "lstore_fin s \<Longrightarrow> list_at s l xs \<Longrightarrow> \<exists>s'. list_append_all malloc s l vs = Some s' \<and>
    list_vals s' l (map snd xs @ vs) \<and> lstore_fin s' \<and> others_kept l s s'"
proof (induction vs arbitrary: s xs)
  case Nil
  then show ?case using list_valsI by (fastforce simp: others_kept_refl)
next
  case (Cons v vs)
  obtain e s1 where s1: "list_append malloc s l v = Some (Some e, s1)"
    "list_at s1 l (xs @ [(e, v)])" "lstore_fin s1" "others_kept l s s1"
    using list_append_seq [OF assms Cons.prems] by blast
  then show ?case using Cons.IH [OF s1(3,2)] others_kept_trans [OF s1(4)] by auto
qed

text \<open>
  What the code relies on in \<open>qsort\<close> of the C library: given a comparison function on pointers to
  cells that is a total preorder, it permutes the cells into ascending order.
\<close>

definition qsort_ok :: "(('a cell_ptr \<Rightarrow> 'a cell_ptr \<Rightarrow> int) \<Rightarrow> 'a list \<Rightarrow> 'a list) \<Rightarrow> bool" where
  "qsort_ok qsort \<longleftrightarrow> (\<forall>cmp xs. comparator cmp \<longrightarrow>
     mset (qsort cmp xs) = mset xs \<and>
     sorted_wrt (\<lambda>x y. cmp (CellPtr x) (CellPtr y) \<le> 0) (qsort cmp xs))"

lemma list_sort_ok:
  assumes "lmalloc_ok malloc" and "lstore_fin s" and "list_at s l xs"
  shows "\<exists>s'. list_sort malloc qsort s l cmp = Some s' \<and> lstore_fin s' \<and> others_kept l s s' \<and>
    list_vals s' l (if xs = [] then [] else qsort cmp (map snd xs))"
proof (cases "xs = []")
  case True
  then show ?thesis
    using list_size_ok [OF assms(3)] assms(2,3) list_valsI [OF assms(3)]
    by (auto simp: list_sort_def others_kept_refl)
next
  case False
  have arr: "list_sort_collect s (next_of xs None) (replicate (length xs) None) 0 =
      Some (map (\<lambda>x. Some (snd x)) xs)"
    using list_sort_collect_ok [of s l "[]" xs] assms(3) by simp
  obtain s1 where s1: "list_erase s l = Some (s1, map snd xs)" "list_at s1 l []"
    "lframe l (fst ` set xs) s s1"
    using list_erase_ok [OF assms(3)] by blast
  note own = own_items_frame [OF s1(3) assms(3,2)]
  obtain s2 where s2: "list_append_all malloc s1 l (qsort cmp (map snd xs)) = Some s2"
    "list_vals s2 l (qsort cmp (map snd xs))" "lstore_fin s2" "others_kept l s1 s2"
    using list_append_all_ok [OF assms(1) own(1) s1(2)] by auto
  have "list_sort malloc qsort s l cmp = Some s2"
    using False list_size_ok [OF assms(3)] list_first_ok [OF assms(3)] arr s1(1) s2(1)
    by (simp add: list_sort_def those_Some)
  then show ?thesis using False s2 others_kept_trans [OF own(2) s2(4)] by auto
qed

subsection \<open>Properties\<close>

text \<open>Two lists to try the properties on, and an allocator: the lowest address not in use.\<close>

definition sample_lists :: "string lstore" where
  "sample_lists =
     \<lparr>ls_heads = [1 \<mapsto> mk_head (Some 10) (ItemSlot 11) False, 2 \<mapsto> mk_head None (HeadSlot 2) False],
      ls_items = [10 \<mapsto> mk_item ''a'' 1 (Some 11) (HeadSlot 1), 11 \<mapsto> mk_item ''b'' 1 None (ItemSlot 10)]\<rparr>"

lemma sample_lists_at:
  "list_at sample_lists 1 [(10, ''a''), (11, ''b'')]" "list_at sample_lists 2 []"
  "lstore_fin sample_lists"
  by (auto simp: sample_lists_def list_at_def lstore_fin_def)

definition lowest_unused :: "'a lstore \<Rightarrow> addr" where
  "lowest_unused s = (LEAST a. ls_items s a = None \<and> ls_heads s a = None)"

lemma lowest_unused_ok: "lmalloc_ok lowest_unused"
proof (unfold lmalloc_ok_def, intro allI impI)
  fix s :: "'a lstore"
  assume "lstore_fin s"
  then have "finite (dom (ls_items s) \<union> dom (ls_heads s))" by (simp add: lstore_fin_def)
  then obtain a where "a \<notin> dom (ls_items s) \<union> dom (ls_heads s)"
    using ex_new_if_finite infinite_UNIV_nat by blast
  then have "ls_items s a = None \<and> ls_heads s a = None" by auto
  then show "ls_items s (lowest_unused s) = None \<and> ls_heads s (lowest_unused s) = None"
    unfolding lowest_unused_def by (rule LeastI)
qed

interpretation lists: list_alloc lowest_unused
  by unfold_locales (rule lowest_unused_ok)

text \<open>
  C6: Refinement. Any run of appends, unshifts, shifts, removals of the first match, searches and
  erasures on any lists of a store is defined, ends, and answers as the same run on plain lists
  does; afterwards every list holds what the plain list holds.
\<close>

theorem list_refines_sequence:
  assumes "lmalloc_ok malloc" and "lstore_fin s"
    and "\<And>l. l \<in> L \<Longrightarrow> list_vals s l (M l)" and "op_list ` set ops \<subseteq> L"
  shows "\<exists>s'. run_store (store_step (list_append malloc) (list_unshift malloc) list_shift
        list_remove_first_match list_find list_erase match) s ops =
      Some (fst (run_seqs match M ops), s') \<and>
    (\<forall>l \<in> L. list_vals s' l (snd (run_seqs match M ops) l))"
  using list_alloc.store_run [of malloc s L M ops match] assms unfolding list_alloc_def by blast

theorem list_refines_sequence_witness:
  "\<exists>s'. run_store (store_step (list_append lowest_unused) (list_unshift lowest_unused) list_shift
        list_remove_first_match list_find list_erase (=)) sample_lists
        [LAppend 2 ''c'', LUnshift 1 ''d'', LRemove 1 ''a'', LShift 1, LErase 2] =
      Some ([[], [], [''a''], [''d''], [''c'']], s') \<and> list_vals s' 1 [''b''] \<and> list_vals s' 2 []"
proof -
  have "list_vals sample_lists l (if l = 1 then [''a'', ''b''] else [])" if "l \<in> {1, 2}" for l
    using that list_valsI [OF sample_lists_at(1)] list_valsI [OF sample_lists_at(2)] by auto
  then show ?thesis
    using list_refines_sequence [OF lowest_unused_ok sample_lists_at(3), of "{1, 2}"
        "\<lambda>l. if l = 1 then [''a'', ''b''] else []"
        "[LAppend 2 ''c'', LUnshift 1 ''d'', LRemove 1 ''a'', LShift 1, LErase 2]" "(=)"]
    by simp
qed

text \<open>
  C7: The operations at an iterator, anywhere in a list: the neighbours of an item, the first and the
  last item and the length are what they are in the sequence, \<open>list_insert_after\<close> puts a new
  item directly behind it, \<open>list_remove\<close> takes exactly it out, returns its value and frees it.
\<close>

theorem list_iterator_correct:
  assumes "list_at s l (xs @ (a, y) # ys)" and "malloc s = e" "ls_items s e = None"
  shows "list_next s (Some a) = Some (next_of ys None) \<and>
    list_prev s (Some a) = Some (if xs = [] then None else Some (fst (last xs))) \<and>
    list_last s l = Some (Some (fst (last ((a, y) # ys)))) \<and>
    list_size s l = Some (int (length xs + length ys + 1)) \<and>
    (\<exists>s'. list_insert_after malloc s (Some a) x = Some (Some e, s') \<and>
      list_at s' l (xs @ (a, y) # (e, x) # ys)) \<and>
    (\<exists>s'. list_remove s l (Some a) = Some (y, s') \<and> list_at s' l (xs @ ys) \<and> ls_items s' a = None)"
  using list_next_ok [OF assms(1)] list_prev_ok [OF assms(1)] list_last_ok [OF assms(1)]
    list_size_ok [OF assms(1)] list_insert_after_ok [where malloc = malloc, OF assms]
    list_remove_ok [OF assms(1)]
  by auto

theorem list_iterator_correct_witness:
  "list_prev sample_lists (Some 11) = Some (Some 10) \<and>
   (\<exists>s'. list_remove sample_lists 1 (Some 11) = Some (''b'', s') \<and> list_at s' 1 [(10, ''a'')])"
proof -
  have "list_at sample_lists 1 ([(10, ''a'')] @ (11, ''b'') # [])" "ls_items sample_lists 5 = None"
    using sample_lists_at(1) by (simp_all add: sample_lists_def)
  then show ?thesis
    using list_iterator_correct [of sample_lists 1 "[(10, ''a'')]" 11 "''b''" "[]" "\<lambda>_. 5" 5]
    by auto
qed

text \<open>
  C10: \<open>list_insert_before\<close> puts the new item in front of the given one only if that is the first of
  the list. Anywhere else it calls \<open>list_insert_after\<close> on the given item, not on its
  predecessor, and the new item ends up behind it.
\<close>

theorem list_insert_before_misplaces:
  assumes "list_at s l (xs @ (a, y) # ys)" and "malloc s = e" "ls_items s e = None"
  shows "\<exists>s'. list_insert_before malloc s (Some a) x = Some (Some e, s') \<and>
    list_at s' l (if xs = [] then (e, x) # (a, y) # ys else xs @ (a, y) # (e, x) # ys)"
  using list_insert_before_first [of s l a y ys malloc e x]
    list_insert_before_inner [of s l xs a y ys malloc e x] assms
  by (cases "xs = []") auto

theorem list_insert_before_misplaces_witness:
  "\<exists>s'. list_insert_before (\<lambda>_. 5) sample_lists (Some 11) ''c'' = Some (Some 5, s') \<and>
     list_at s' 1 [(10, ''a''), (11, ''b''), (5, ''c'')]"
proof -
  have "list_at sample_lists 1 ([(10, ''a'')] @ (11, ''b'') # [])" "ls_items sample_lists 5 = None"
    using sample_lists_at(1) by (simp_all add: sample_lists_def)
  then show ?thesis
    using list_insert_before_misplaces [of sample_lists 1 "[(10, ''a'')]" 11 "''b''" "[]" "\<lambda>_. 5" 5]
    by simp
qed

text \<open>
  \<open>list_copy\<close>, \<open>list_filter\<close> and \<open>list_map\<close> make a new list with the values of the given
  one, each converted, the matching ones, or each mapped, in order, and keep every list there was.
\<close>

theorem list_derived_correct:
  assumes "lmalloc_ok malloc" and "lstore_fin s" and "list_at s l xs"
  shows "(\<exists>s'. list_copy malloc s l c = Some (malloc s, s') \<and>
      list_vals s' (malloc s) (map (case c of None \<Rightarrow> (\<lambda>x. x) | Some g \<Rightarrow> g) (map snd xs)) \<and>
      (\<forall>l' ys. list_at s l' ys \<longrightarrow> list_at s' l' ys)) \<and>
    (\<exists>s'. list_filter malloc s l match p = Some (malloc s, s') \<and>
      list_vals s' (malloc s) (filter (\<lambda>x. match x p) (map snd xs)) \<and>
      (\<forall>l' ys. list_at s l' ys \<longrightarrow> list_at s' l' ys)) \<and>
    (\<exists>s'. list_map malloc s l f = Some (malloc s, s') \<and>
      list_vals s' (malloc s) (map f (map snd xs)) \<and> (\<forall>l' ys. list_at s l' ys \<longrightarrow> list_at s' l' ys))"
proof (intro conjI)
  have c: "(\<lambda>x. Some (case c of None \<Rightarrow> x | Some g \<Rightarrow> g x)) =
      (\<lambda>x. Some ((case c of None \<Rightarrow> (\<lambda>x. x) | Some g \<Rightarrow> g) x))" by (auto split: option.splits)
  note build = list_build_ok [OF assms]
  show "\<exists>s'. list_copy malloc s l c = Some (malloc s, s') \<and>
      list_vals s' (malloc s) (map (case c of None \<Rightarrow> (\<lambda>x. x) | Some g \<Rightarrow> g) (map snd xs)) \<and>
      (\<forall>l' ys. list_at s l' ys \<longrightarrow> list_at s' l' ys)"
    using build [of "\<lambda>x. Some ((case c of None \<Rightarrow> (\<lambda>x. x) | Some g \<Rightarrow> g) x)"]
    unfolding list_copy_def c map_filter_Some by blast
  show "\<exists>s'. list_filter malloc s l match p = Some (malloc s, s') \<and>
      list_vals s' (malloc s) (filter (\<lambda>x. match x p) (map snd xs)) \<and>
      (\<forall>l' ys. list_at s l' ys \<longrightarrow> list_at s' l' ys)"
    using build [of "\<lambda>x. if match x p then Some x else None"]
    unfolding list_filter_def map_filter_if by blast
  show "\<exists>s'. list_map malloc s l f = Some (malloc s, s') \<and>
      list_vals s' (malloc s) (map f (map snd xs)) \<and> (\<forall>l' ys. list_at s l' ys \<longrightarrow> list_at s' l' ys)"
    using build [of "\<lambda>x. Some (f x)"] unfolding list_map_def map_filter_Some by blast
qed

theorem list_derived_correct_witness:
  "\<exists>s'. list_filter lowest_unused sample_lists 1 (=) ''b'' = Some (lowest_unused sample_lists, s') \<and>
     list_vals s' (lowest_unused sample_lists) [''b''] \<and> list_at s' 1 [(10, ''a''), (11, ''b'')]"
  using list_derived_correct [OF lowest_unused_ok sample_lists_at(3,1), of None "(=)" "''b''" id]
    sample_lists_at(1) by fastforce

text \<open>
  C8: \<open>list_append_list\<close> appends the converted values of the second list to the first and keeps
  the second, when the two are different. Given one and the same non-empty list twice it follows the
  items it appends itself and never returns.
\<close>

theorem list_append_list_terminates_iff:
  assumes "lmalloc_ok malloc" and "lstore_fin s" and "list_at s l1 ds" and "list_at s l2 xs"
  shows "if l1 \<noteq> l2
    then \<exists>s'. list_append_list malloc s l1 l2 c = Some s' \<and> list_at s' l2 xs \<and>
      list_vals s' l1 (map snd ds @ map (case c of None \<Rightarrow> (\<lambda>x. x) | Some g \<Rightarrow> g) (map snd xs))
    else ds \<noteq> [] \<longrightarrow> list_append_list malloc s l1 l2 c = None"
proof (cases "l1 = l2")
  case True
  then show ?thesis using list_append_list_self [OF assms(1-3), of c] by simp
next
  case False
  then show ?thesis using list_append_list_ok [OF assms False, of c] by auto
qed

theorem list_append_list_terminates_iff_witness:
  "(\<exists>s'. list_append_list lowest_unused sample_lists 2 1 None = Some s' \<and>
      list_vals s' 2 [''a'', ''b'']) \<and>
   list_append_list lowest_unused sample_lists 1 1 None = None"
  using list_append_list_terminates_iff
      [OF lowest_unused_ok sample_lists_at(3) sample_lists_at(2) sample_lists_at(1), of None]
    list_append_list_terminates_iff
      [OF lowest_unused_ok sample_lists_at(3) sample_lists_at(1) sample_lists_at(1), of None]
  by fastforce

text \<open>
  C9: Given a C library whose \<open>qsort\<close> sorts, and a comparison function that is a total preorder on
  pointers to cells that hold values, \<open>list_sort\<close> leaves in the list a permutation of its values in
  ascending order and keeps the other lists.
\<close>

theorem list_sort_correct:
  assumes "lmalloc_ok malloc" and "lstore_fin s" and "list_at s l xs" and "qsort_ok qsort"
    and "comparator cmp"
  shows "\<exists>s' vs. list_sort malloc qsort s l cmp = Some s' \<and> list_vals s' l vs \<and>
    mset vs = mset (map snd xs) \<and> sorted_wrt (\<lambda>x y. cmp (CellPtr x) (CellPtr y) \<le> 0) vs \<and>
    others_kept l s s'"
  using list_sort_ok [OF assms(1-3), of qsort cmp] assms(4,5) unfolding qsort_ok_def
  by (cases "xs = []") force+

text \<open>A \<open>qsort\<close>: insertion by the comparison function on the cells.\<close>

fun ins_by :: "('a \<Rightarrow> 'a \<Rightarrow> int) \<Rightarrow> 'a \<Rightarrow> 'a list \<Rightarrow> 'a list" where
  "ins_by cmp x [] = [x]"
| "ins_by cmp x (y # ys) = (if cmp x y \<le> 0 then x # y # ys else y # ins_by cmp x ys)"

lemma mset_ins_by [simp]: "mset (ins_by cmp x xs) = add_mset x (mset xs)"
  by (induction xs) auto

lemma set_ins_by [simp]: "set (ins_by cmp x xs) = insert x (set xs)"
  by (induction xs) auto

context comparator
begin

lemma sorted_ins_by:
  "sorted_wrt (\<lambda>x y. cmp x y \<le> 0) xs \<Longrightarrow> sorted_wrt (\<lambda>x y. cmp x y \<le> 0) (ins_by cmp x xs)"
proof (induction xs)
  case (Cons y ys)
  then show ?case using cmp_total [of x y] cmp_trans [of x y] by auto
qed simp

end

definition insertion_sort :: "('a cell_ptr \<Rightarrow> 'a cell_ptr \<Rightarrow> int) \<Rightarrow> 'a list \<Rightarrow> 'a list" where
  "insertion_sort cmp xs = foldr (ins_by (\<lambda>x y. cmp (CellPtr x) (CellPtr y))) xs []"

lemma comparator_cells: "comparator cmp \<Longrightarrow> comparator (\<lambda>x y. cmp (CellPtr x) (CellPtr y))"
  unfolding comparator_def by blast

lemma insertion_qsort_ok: "qsort_ok insertion_sort"
proof -
  have "mset (insertion_sort cmp xs) = mset xs \<and>
      sorted_wrt (\<lambda>x y. cmp (CellPtr x) (CellPtr y) \<le> 0) (insertion_sort cmp xs)"
    if "comparator cmp" for cmp and xs :: "'a list"
    using comparator.sorted_ins_by [OF comparator_cells [OF that]]
    by (induction xs) (auto simp: insertion_sort_def)
  then show ?thesis by (simp add: qsort_ok_def)
qed

theorem list_sort_correct_witness:
  "\<exists>s' vs. list_sort lowest_unused insertion_sort sample_lists 1
       (\<lambda>p q. int (length (deref q)) - int (length (deref p))) = Some s' \<and> list_vals s' 1 vs \<and>
     mset vs = {#''a'', ''b''#}"
proof -
  have "comparator (\<lambda>p q. int (length (deref q)) - int (length (deref p)))" by unfold_locales auto
  then show ?thesis
    using list_sort_correct [OF lowest_unused_ok sample_lists_at(3,1) insertion_qsort_ok]
    by (fastforce simp: add_mset_commute)
qed

end
