(* ===== verification/SysTime.thy ===== *)
theory SysTime
  imports BfPrelude
begin

section \<open>Times (sys/time.h)\<close>

text \<open>
  \<open>struct timeval\<close> with the macros \<open>timercmp\<close>, \<open>timeradd\<close> and \<open>timersub\<close>, which the timer and
  the address watcher use, as the C library defines them: the comparison looks at the seconds first,
  and a sum or difference carries at most one second. The fields are of type \<open>long\<close>; overflow is
  undefined. The comparison is an instance of \<open>linorder\<close>.
\<close>

record timeval =
  tv_sec :: int
  tv_usec :: int

definition timer_less :: "timeval \<Rightarrow> timeval \<Rightarrow> bool" where
  [c_sem]: "timer_less a b =
     (if tv_sec a = tv_sec b then tv_usec a < tv_usec b else tv_sec a < tv_sec b)"

definition timer_greater :: "timeval \<Rightarrow> timeval \<Rightarrow> bool" where
  [c_sem]: "timer_greater a b =
     (if tv_sec a = tv_sec b then tv_usec a > tv_usec b else tv_sec a > tv_sec b)"

definition timer_plus :: "timeval \<Rightarrow> timeval \<Rightarrow> timeval option" where
  [c_sem]: "timer_plus a b = do {
     s \<leftarrow> c_long (tv_sec a + tv_sec b);
     u \<leftarrow> c_long (tv_usec a + tv_usec b);
     if u \<ge> 1000000 then do {
       s \<leftarrow> c_long (s + 1);
       Some \<lparr>tv_sec = s, tv_usec = u - 1000000\<rparr> }
     else Some \<lparr>tv_sec = s, tv_usec = u\<rparr> }"

definition timer_minus :: "timeval \<Rightarrow> timeval \<Rightarrow> timeval option" where
  [c_sem]: "timer_minus a b = do {
     s \<leftarrow> c_long (tv_sec a - tv_sec b);
     u \<leftarrow> c_long (tv_usec a - tv_usec b);
     if u < 0 then do {
       s \<leftarrow> c_long (s - 1);
       Some \<lparr>tv_sec = s, tv_usec = u + 1000000\<rparr> }
     else Some \<lparr>tv_sec = s, tv_usec = u\<rparr> }"

subsection \<open>The order\<close>

text \<open>The comparison of the code is a linear order, seconds first.\<close>

instantiation timeval_ext :: (linorder) linorder
begin

definition less_eq_timeval_ext :: "('a :: linorder) timeval_ext \<Rightarrow> 'a timeval_ext \<Rightarrow> bool" where
  "less_eq_timeval_ext a b \<longleftrightarrow> tv_sec a < tv_sec b \<or> tv_sec a = tv_sec b \<and>
     (tv_usec a < tv_usec b \<or> tv_usec a = tv_usec b \<and> timeval.more a \<le> timeval.more b)"

definition less_timeval_ext :: "('a :: linorder) timeval_ext \<Rightarrow> 'a timeval_ext \<Rightarrow> bool" where
  "less_timeval_ext a b \<longleftrightarrow> tv_sec a < tv_sec b \<or> tv_sec a = tv_sec b \<and>
     (tv_usec a < tv_usec b \<or> tv_usec a = tv_usec b \<and> timeval.more a < timeval.more b)"

instance
  by standard (auto simp: less_eq_timeval_ext_def less_timeval_ext_def intro: timeval.equality)

end

lemma timer_less_iff: "timer_less a b \<longleftrightarrow> a < b"
  by (auto simp: timer_less_def less_timeval_ext_def)

lemma timer_greater_iff: "timer_greater a b \<longleftrightarrow> b < a"
  by (auto simp: timer_greater_def less_timeval_ext_def)

lemma timer_less_irrefl [simp]: "\<not> timer_less d d"
  by (simp add: timer_less_iff)

lemma timer_less_trans: "timer_less a b \<Longrightarrow> timer_less b c \<Longrightarrow> timer_less a c"
  by (simp add: timer_less_iff)

lemma timer_le_less_trans: "\<not> timer_less b a \<Longrightarrow> timer_less b c \<Longrightarrow> timer_less a c"
  by (simp add: timer_less_iff)

lemma timer_less_le_trans: "timer_less a b \<Longrightarrow> \<not> timer_less c b \<Longrightarrow> timer_less a c"
  by (simp add: timer_less_iff)

subsection \<open>Sums\<close>

definition micros :: "timeval \<Rightarrow> int" where
  "micros d = tv_sec d * 1000000 + tv_usec d"

definition tv_normal :: "timeval \<Rightarrow> bool" where
  "tv_normal d \<longleftrightarrow> 0 \<le> tv_usec d \<and> tv_usec d < 1000000"

text \<open>Far from the limits of the fields.\<close>

definition tv_small :: "timeval \<Rightarrow> bool" where
  "tv_small d \<longleftrightarrow> \<bar>tv_sec d\<bar> \<le> 1000000000000000 \<and> \<bar>tv_usec d\<bar> \<le> 1000000000000000000"

lemma timer_less_micros: "tv_normal a \<Longrightarrow> tv_normal b \<Longrightarrow> timer_less a b \<longleftrightarrow> micros a < micros b"
  by (auto simp: timer_less_def tv_normal_def micros_def)

lemma timer_plus_ok:
  assumes "tv_small a" and "tv_small b"
  shows "\<exists>d. timer_plus a b = Some d \<and> micros d = micros a + micros b \<and>
    (tv_normal a \<and> tv_normal b \<longrightarrow> tv_normal d) \<and>
    tv_sec d \<le> tv_sec a + tv_sec b + 1 \<and>
    (0 \<le> tv_usec a + tv_usec b \<longrightarrow> 0 \<le> tv_usec d)"
  using assms
  by (auto simp: timer_plus_def micros_def tv_normal_def tv_small_def)

lemma timer_minus_ok:
  assumes "tv_small a" and "tv_small b"
  shows "\<exists>d. timer_minus a b = Some d \<and> micros d = micros a - micros b \<and>
    (tv_normal a \<and> tv_normal b \<longrightarrow> tv_normal d) \<and>
    \<bar>tv_sec d\<bar> \<le> 2000000000000001 \<and> \<bar>tv_usec d\<bar> \<le> 2000000000001000000"
  using assms
  by (auto simp: timer_minus_def micros_def tv_normal_def tv_small_def)

end
