(* ===== verification/ETimer.thy ===== *)
theory ETimer
  imports BinHeapOps TailQueueSeq SysTime
begin

section \<open>The event timer (timer.c)\<close>

text \<open>
  The timer keeps its events in the heap of heap.c, ordered by deadline, and hands the events that are
  due to the callbacks in a list of list.c. An event is never changed between its creation and its
  release, so the pointer to it is modelled as the address together with the content; \<open>et_events\<close>
  are the addresses that are allocated. The state also holds the number of bytes in the timer's pipe
  and the memory of the lists. Arguments stand for the operating system: the time that
  \<open>gettimeofday\<close> returns, the capacity of a pipe, and the two allocators. Creating the pipe and the
  epoll descriptor is taken to succeed. A call of a callback is recorded as the event with the flag
  \<open>canceled\<close>.
\<close>

subsection \<open>State\<close>

record etimer_event =
  ee_ref :: addr
  ee_deadline :: timeval
  ee_cb :: addr
  ee_userdata :: ptr

record etimer =
  et_queue :: "etimer_event heap"
  et_run :: bool
  et_locked :: bool
  et_pipe :: nat
  et_events :: "addr set"
  et_lists :: "etimer_event lstore"

type_synonym etimer_call = "etimer_event \<times> bool"

definition etimer_event_cmp :: "etimer_event \<Rightarrow> etimer_event \<Rightarrow> int" where
  [c_sem]: "etimer_event_cmp e1 e2 =
     (if timer_less (ee_deadline e1) (ee_deadline e2) then - 1
      else if timer_greater (ee_deadline e1) (ee_deadline e2) then 1
      else 0)"

definition etimer_event_match_ref :: "etimer_event \<Rightarrow> ptr \<Rightarrow> bool" where
  [c_sem]: "etimer_event_match_ref item pattern \<longleftrightarrow> Some (ee_ref item) = pattern"

definition etimer_event_create ::
  "(addr set \<Rightarrow> addr) \<Rightarrow> etimer \<Rightarrow> timeval \<Rightarrow> addr \<Rightarrow> ptr \<Rightarrow> (etimer_event \<times> etimer) option" where
  [c_sem]: "etimer_event_create malloc t deadline cb ud = do {
     let a = malloc (et_events t);
     c_require (a \<notin> et_events t);
     Some (\<lparr>ee_ref = a, ee_deadline = deadline, ee_cb = cb, ee_userdata = ud\<rparr>,
       t\<lparr>et_events := insert a (et_events t)\<rparr>) }"

definition etimer_event_destructor :: "etimer \<Rightarrow> etimer_event \<Rightarrow> etimer option" where
  [c_sem]: "etimer_event_destructor t e = do {
     c_require (ee_ref e \<in> et_events t);
     Some (t\<lparr>et_events := et_events t - {ee_ref e}\<rparr>) }"

fun etimer_event_destroy_all :: "etimer \<Rightarrow> etimer_event list \<Rightarrow> etimer option" where
  "etimer_event_destroy_all t [] = Some t"
| "etimer_event_destroy_all t (e # es) = do {
     t \<leftarrow> etimer_event_destructor t e;
     etimer_event_destroy_all t es }"

subsection \<open>Locking and signalling\<close>

definition etimer_lock :: "etimer \<Rightarrow> etimer option" where
  [c_sem]: "etimer_lock t = do { c_require (\<not> et_locked t); Some (t\<lparr>et_locked := True\<rparr>) }"

definition etimer_unlock :: "etimer \<Rightarrow> etimer option" where
  [c_sem]: "etimer_unlock t = do { c_require (et_locked t); Some (t\<lparr>et_locked := False\<rparr>) }"

text \<open>
  The end of the pipe that is written to blocks; the reader needs the lock that the writer holds, so a
  write to a full pipe never returns.
\<close>

definition etimer_signal :: "nat \<Rightarrow> etimer \<Rightarrow> etimer option" where
  [c_sem]: "etimer_signal cap t = do {
     c_require (et_pipe t < cap);
     Some (t\<lparr>et_pipe := et_pipe t + 1\<rparr>) }"

text \<open>\<open>read\<close> takes up to 100 bytes and fails with \<open>EAGAIN\<close> on the empty pipe.\<close>

function clean_signals_loop :: "etimer \<Rightarrow> nat \<Rightarrow> nat \<times> etimer" where
  "clean_signals_loop t n0 =
     (if et_pipe t = 0 then (n0, t)
      else let n = min 100 (et_pipe t)
           in clean_signals_loop (t\<lparr>et_pipe := et_pipe t - n\<rparr>) (n0 + n))"
  by pat_completeness auto
termination
  by (relation "measure (\<lambda>(t, n0). et_pipe t)") auto

declare clean_signals_loop.simps [simp del]

definition etimer_clean_signals :: "etimer \<Rightarrow> nat \<times> etimer" where
  [c_sem]: "etimer_clean_signals t = clean_signals_loop t 0"

subsection \<open>The operations of the clients\<close>

definition etimer_create :: "etimer_event lstore \<Rightarrow> etimer" where
  [c_sem]: "etimer_create ls =
     \<lparr>et_queue = heap_create etimer_event_cmp, et_run = False, et_locked = False, et_pipe = 0,
      et_events = {}, et_lists = ls\<rparr>"

definition etimer_empty :: "etimer \<Rightarrow> (bool \<times> etimer) option" where
  [c_sem]: "etimer_empty t = do {
     t \<leftarrow> etimer_lock t;
     let empty = (heap_size (et_queue t) = 0);
     t \<leftarrow> etimer_unlock t;
     Some (empty, t) }"

definition etimer_add :: "nat \<Rightarrow> etimer \<Rightarrow> etimer_event \<Rightarrow> (ptr \<times> etimer) option" where
  [c_sem]: "etimer_add cap t new_event = do {
     min1 \<leftarrow> heap_min (et_queue t);
     (_, q) \<leftarrow> heap_insert (et_queue t) new_event;
     let t = t\<lparr>et_queue := q\<rparr>;
     min2 \<leftarrow> heap_min (et_queue t);
     signal \<leftarrow> (case min1 of
        None \<Rightarrow> Some True
      | Some m1 \<Rightarrow> do {
          m2 \<leftarrow> min2;
          Some (timer_less (ee_deadline m2) (ee_deadline m1)) });
     t \<leftarrow> (if signal then etimer_signal cap t else Some t);
     Some (Some (ee_ref new_event), t) }"

text \<open>What the three operations that add an event do once they have created it.\<close>

definition etimer_insert :: "nat \<Rightarrow> etimer \<Rightarrow> etimer_event \<Rightarrow> (ptr \<times> etimer) option" where
  [c_sem]: "etimer_insert cap t event = do {
     t \<leftarrow> etimer_lock t;
     (ref, t) \<leftarrow> etimer_add cap t event;
     t \<leftarrow> etimer_unlock t;
     Some (ref, t) }"

definition etimer_deadline ::
  "nat \<Rightarrow> (addr set \<Rightarrow> addr) \<Rightarrow> etimer \<Rightarrow> timeval \<Rightarrow> addr \<Rightarrow> ptr \<Rightarrow> (ptr \<times> etimer) option" where
  [c_sem]: "etimer_deadline cap malloc t deadline cb ud = do {
     (event, t) \<leftarrow> etimer_event_create malloc t deadline cb ud;
     etimer_insert cap t event }"

text \<open>\<open>now\<close> is the result of \<open>gettimeofday\<close>.\<close>

definition etimer_after ::
  "nat \<Rightarrow> (addr set \<Rightarrow> addr) \<Rightarrow> timeval \<Rightarrow> etimer \<Rightarrow> int \<Rightarrow> addr \<Rightarrow> ptr \<Rightarrow> (ptr \<times> etimer) option" where
  [c_sem]: "etimer_after cap malloc now t sec cb ud = do {
     deadline \<leftarrow> timer_plus now \<lparr>tv_sec = sec, tv_usec = 0\<rparr>;
     (event, t) \<leftarrow> etimer_event_create malloc t deadline cb ud;
     etimer_insert cap t event }"

definition etimer_mafter ::
  "nat \<Rightarrow> (addr set \<Rightarrow> addr) \<Rightarrow> timeval \<Rightarrow> etimer \<Rightarrow> int \<Rightarrow> addr \<Rightarrow> ptr \<Rightarrow> (ptr \<times> etimer) option" where
  [c_sem]: "etimer_mafter cap malloc now t msec cb ud = do {
     usec \<leftarrow> c_long (msec * 1000);
     deadline \<leftarrow> timer_plus now \<lparr>tv_sec = 0, tv_usec = usec\<rparr>;
     (event, t) \<leftarrow> etimer_event_create malloc t deadline cb ud;
     etimer_insert cap t event }"

text \<open>
  \<open>etimer_cancel\<close>: its locked part takes the event out of the queue; without the lock it then calls the
  callback and frees the event. The third result are the calls of callbacks.
\<close>

definition etimer_cancel_take :: "etimer \<Rightarrow> ptr \<Rightarrow> (etimer_event option \<times> etimer) option" where
  [c_sem]: "etimer_cancel_take t ref = do {
     t \<leftarrow> etimer_lock t;
     (event, q) \<leftarrow> heap_del_item (et_queue t) etimer_event_match_ref ref;
     t \<leftarrow> etimer_unlock (t\<lparr>et_queue := q\<rparr>);
     Some (event, t) }"

definition etimer_cancel :: "etimer \<Rightarrow> ptr \<Rightarrow> (ptr \<times> etimer \<times> etimer_call list) option" where
  [c_sem]: "etimer_cancel t ref = do {
     (event, t) \<leftarrow> etimer_cancel_take t ref;
     case event of
       None \<Rightarrow> Some (None, t, [])
     | Some e \<Rightarrow> do {
         t \<leftarrow> etimer_event_destructor t e;
         Some (ref, t, [(e, True)]) } }"

definition etimer_stop :: "nat \<Rightarrow> etimer \<Rightarrow> etimer option" where
  [c_sem]: "etimer_stop cap t = do {
     t \<leftarrow> etimer_lock t;
     t \<leftarrow> etimer_signal cap (t\<lparr>et_run := False\<rparr>);
     etimer_unlock t }"

subsection \<open>The run loop\<close>

text \<open>The remaining time in milliseconds, rounded up, converted to \<open>int\<close>.\<close>

definition etimer_calc_timeout :: "etimer \<Rightarrow> timeval \<Rightarrow> int option" where
  [c_sem]: "etimer_calc_timeout t now = do {
     event \<leftarrow> heap_min (et_queue t);
     case event of
       None \<Rightarrow> Some (- 1)
     | Some e \<Rightarrow>
         if timer_less (ee_deadline e) now then Some 0
         else do {
           sub \<leftarrow> timer_minus (ee_deadline e) now;
           ms \<leftarrow> c_long (tv_sec sub * 1000);
           ms \<leftarrow> c_long (ms + c_div (tv_usec sub) 1000);
           ms \<leftarrow> c_long (ms + (if c_mod (tv_usec sub) 1000 \<noteq> 0 then 1 else 0));
           let timeout = to_int ms;
           Some (if timeout < 0 then 0 else timeout) } }"

partial_function (option) extract_loop ::
  "(etimer_event lstore \<Rightarrow> addr) \<Rightarrow> etimer \<Rightarrow> timeval \<Rightarrow> addr \<Rightarrow> etimer option" where
  "extract_loop lmalloc t now ready = do {
     event \<leftarrow> heap_min (et_queue t);
     case event of
       None \<Rightarrow> Some t
     | Some e \<Rightarrow>
         if timer_less (ee_deadline e) now then do {
           (_, q) \<leftarrow> heap_shift (et_queue t);
           (_, ls) \<leftarrow> list_append lmalloc (et_lists t) ready e;
           extract_loop lmalloc (t\<lparr>et_queue := q, et_lists := ls\<rparr>) now ready }
         else Some t }"

definition etimer_extract_ready ::
  "(etimer_event lstore \<Rightarrow> addr) \<Rightarrow> etimer \<Rightarrow> timeval \<Rightarrow> (addr \<times> etimer) option" where
  [c_sem]: "etimer_extract_ready lmalloc t now = do {
     (ready, ls) \<leftarrow> list_create lmalloc (et_lists t);
     t \<leftarrow> extract_loop lmalloc (t\<lparr>et_lists := ls\<rparr>) now ready;
     Some (ready, t) }"

text \<open>The calls, in order; the list is not touched by the callbacks.\<close>

partial_function (option) events_do_loop ::
  "etimer_event lstore \<Rightarrow> ptr \<Rightarrow> bool \<Rightarrow> etimer_call list option" where
  "events_do_loop ls li canceled =
     (if li \<noteq> None then do {
        event \<leftarrow> list_iterator_get_value ls li;
        li \<leftarrow> list_next ls li;
        calls \<leftarrow> events_do_loop ls li canceled;
        Some ((event, canceled) # calls) }
      else Some [])"

definition etimer_events_do :: "etimer_event lstore \<Rightarrow> addr \<Rightarrow> bool \<Rightarrow> etimer_call list option" where
  [c_sem]: "etimer_events_do ls events canceled = do {
     li \<leftarrow> list_first ls events;
     events_do_loop ls li canceled }"

text \<open>
  \<open>etimer_run\<close> is cut at the places where it does not hold the lock and other threads, or the callback
  it has called, may use the timer: the start, the top of the loop, the wait in \<open>epoll_wait\<close> (with
  its timeout), and the walk over the list of events that are due (the list and the iterator).
\<close>

datatype run_pc = RStart | RTop | RWait int | RFire addr ptr | RDone

text \<open>From the test of \<open>timer->run\<close> under the lock to the first event.\<close>

definition run_take ::
  "(etimer_event lstore \<Rightarrow> addr) \<Rightarrow> timeval \<Rightarrow> etimer \<Rightarrow> (etimer \<times> run_pc \<times> etimer_call list) option" where
  [c_sem]: "run_take lmalloc now t =
     (if et_run t then do {
        (ready, t) \<leftarrow> etimer_extract_ready lmalloc t now;
        t \<leftarrow> etimer_unlock t;
        li \<leftarrow> list_first (et_lists t) ready;
        Some (t, RFire ready li, []) }
      else do {
        t \<leftarrow> etimer_unlock t;
        Some (t, RDone, []) })"

text \<open>
  \<open>now1\<close> and \<open>now2\<close> are the times the two calls of \<open>gettimeofday\<close> return, \<open>ready\<close> says that
  \<open>epoll_wait\<close> reports the pipe.
\<close>

fun etimer_run_step ::
  "(etimer_event lstore \<Rightarrow> addr) \<Rightarrow> timeval \<Rightarrow> timeval \<Rightarrow> bool \<Rightarrow> etimer \<Rightarrow> run_pc \<Rightarrow>
   (etimer \<times> run_pc \<times> etimer_call list) option" where
  "etimer_run_step lmalloc now1 now2 ready t RStart = do {
     t \<leftarrow> etimer_lock t;
     t \<leftarrow> etimer_unlock (t\<lparr>et_run := True\<rparr>);
     Some (t, RTop, []) }"
| "etimer_run_step lmalloc now1 now2 ready t RTop = do {
     t \<leftarrow> etimer_lock t;
     timeout \<leftarrow> etimer_calc_timeout t now1;
     if timeout \<noteq> 0 then do {
       t \<leftarrow> etimer_unlock t;
       Some (t, RWait timeout, []) }
     else run_take lmalloc now2 t }"
| "etimer_run_step lmalloc now1 now2 ready t (RWait timeout) = do {
     t \<leftarrow> etimer_lock t;
     let t = (if ready then snd (etimer_clean_signals t) else t);
     run_take lmalloc now2 t }"
| "etimer_run_step lmalloc now1 now2 ready t (RFire l li) =
     (if li \<noteq> None then do {
        event \<leftarrow> list_iterator_get_value (et_lists t) li;
        li \<leftarrow> list_next (et_lists t) li;
        Some (t, RFire l li, [(event, False)]) }
      else do {
        (ls, es) \<leftarrow> list_destroy (et_lists t) l;
        t \<leftarrow> etimer_event_destroy_all (t\<lparr>et_lists := ls\<rparr>) es;
        Some (t, RTop, []) })"
| "etimer_run_step lmalloc now1 now2 ready t RDone = Some (t, RDone, [])"

subsection \<open>Destruction\<close>

text \<open>The loop of \<open>etimer_destroy\<close> that empties the queue.\<close>

partial_function (option) drain_loop ::
  "(etimer_event lstore \<Rightarrow> addr) \<Rightarrow> etimer \<Rightarrow> addr \<Rightarrow> etimer option" where
  "drain_loop lmalloc t queue = do {
     (event, q) \<leftarrow> heap_shift (et_queue t);
     let t = t\<lparr>et_queue := q\<rparr>;
     case event of
       None \<Rightarrow> Some t
     | Some e \<Rightarrow> do {
         (_, ls) \<leftarrow> list_append lmalloc (et_lists t) queue e;
         drain_loop lmalloc (t\<lparr>et_lists := ls\<rparr>) queue } }"

text \<open>Afterwards the timer itself is freed; the result is what is left of the memory.\<close>

definition etimer_destroy ::
  "(etimer_event lstore \<Rightarrow> addr) \<Rightarrow> etimer \<Rightarrow>
   (addr set \<times> etimer_event lstore \<times> etimer_call list) option" where
  [c_sem]: "etimer_destroy lmalloc t = do {
     t \<leftarrow> etimer_lock t;
     (queue, ls) \<leftarrow> list_create lmalloc (et_lists t);
     t \<leftarrow> drain_loop lmalloc (t\<lparr>et_lists := ls\<rparr>) queue;
     _ \<leftarrow> heap_destroy (et_queue t);
     t \<leftarrow> etimer_unlock t;
     calls \<leftarrow> etimer_events_do (et_lists t) queue True;
     (ls, es) \<leftarrow> list_destroy (et_lists t) queue;
     t \<leftarrow> etimer_event_destroy_all t es;
     Some (et_events t, ls, calls) }"

end
