(* ===== verification/ETimerOps.thy ===== *)
theory ETimerOps
  imports ETimer
begin

section \<open>What the operations of the timer do\<close>

text \<open>
  The abstract timer is the multiset \<open>et_pending\<close> of the events in its queue. Each operation of
  timer.c is shown to do on it what its name says: an addition adds the event and signals the runner
  exactly when the event is the next one, a cancellation removes the event with the reference and calls
  it, an extraction moves exactly the due events into a list in the order of their deadlines, and
  the destruction calls and releases every event. The lists the timer makes are temporary: the
  memory of the lists is afterwards what it was. \<open>ev\<close> is the contract of the heap for the order of
  deadlines.
\<close>

subsection \<open>The order of deadlines\<close>

lemma etimer_event_cmp_less:
  "etimer_event_cmp x y < 0 \<longleftrightarrow> timer_less (ee_deadline x) (ee_deadline y)"
  by (simp add: etimer_event_cmp_def)

lemma etimer_event_cmp_le:
  "etimer_event_cmp x y \<le> 0 \<longleftrightarrow> \<not> timer_less (ee_deadline y) (ee_deadline x)"
  by (auto simp: etimer_event_cmp_def timer_less_iff timer_greater_iff)

interpretation ev: comparator etimer_event_cmp
  by unfold_locales (auto simp: etimer_event_cmp_def timer_less_iff timer_greater_iff split: if_splits)

subsection \<open>Well-formed timers\<close>

definition et_pending :: "etimer \<Rightarrow> etimer_event multiset" where
  "et_pending t = mset (heap_items (et_queue t))"

definition timer_ok :: "etimer \<Rightarrow> bool" where
  "timer_ok t \<longleftrightarrow> heap_queue etimer_event_cmp (et_queue t) \<and> lstore_fin (et_lists t) \<and>
     finite (et_events t)"

text \<open>What the code relies on in \<open>malloc\<close>: the address it returns is not allocated.\<close>

definition emalloc_ok :: "(addr set \<Rightarrow> addr) \<Rightarrow> bool" where
  "emalloc_ok malloc \<longleftrightarrow> (\<forall>S. finite S \<longrightarrow> malloc S \<notin> S)"

text \<open>A deadline before all the others, and an event that is due.\<close>

definition is_next :: "etimer \<Rightarrow> timeval \<Rightarrow> bool" where
  "is_next t d \<longleftrightarrow> (\<forall>x \<in># et_pending t. timer_less d (ee_deadline x))"

definition is_due :: "timeval \<Rightarrow> etimer_event \<Rightarrow> bool" where
  "is_due now e \<longleftrightarrow> timer_less (ee_deadline e) now"

definition by_deadline :: "etimer_event list \<Rightarrow> bool" where
  "by_deadline es \<longleftrightarrow> sorted (map ee_deadline es)"

lemma et_pending_simps [simp]:
  "et_pending (t\<lparr>et_run := r\<rparr>) = et_pending t"
  "et_pending (t\<lparr>et_locked := k\<rparr>) = et_pending t"
  "et_pending (t\<lparr>et_pipe := n\<rparr>) = et_pending t"
  "et_pending (t\<lparr>et_events := es\<rparr>) = et_pending t"
  "et_pending (t\<lparr>et_lists := ls\<rparr>) = et_pending t"
  "et_pending (t\<lparr>et_queue := q\<rparr>) = mset (heap_items q)"
  by (simp_all add: et_pending_def)

lemma timer_ok_simps [simp]:
  "timer_ok (t\<lparr>et_run := r\<rparr>) = timer_ok t"
  "timer_ok (t\<lparr>et_locked := k\<rparr>) = timer_ok t"
  "timer_ok (t\<lparr>et_pipe := n\<rparr>) = timer_ok t"
  by (simp_all add: timer_ok_def)

lemma is_next_simps [simp]:
  "is_next (t\<lparr>et_locked := k\<rparr>) d = is_next t d"
  "is_next (t\<lparr>et_events := es\<rparr>) d = is_next t d"
  by (simp_all add: is_next_def)

lemma timer_ok_queue: "timer_ok t \<Longrightarrow> heap_queue etimer_event_cmp (et_queue t)"
  by (simp add: timer_ok_def)

text \<open>The least event of a timer.\<close>

lemma timer_min_cases:
  assumes "timer_ok t"
  obtains (none) "et_pending t = {#}" "heap_min (et_queue t) = Some None"
      "heap_shift (et_queue t) = Some (None, et_queue t)"
  | (some) e q where "heap_min (et_queue t) = Some (Some e)" "e \<in># et_pending t"
      "heap_shift (et_queue t) = Some (Some e, q)" "heap_queue etimer_event_cmp q"
      "et_pending t = add_mset e (mset (heap_items q))"
      "\<And>x. x \<in># et_pending t \<Longrightarrow> \<not> timer_less (ee_deadline x) (ee_deadline e)"
proof (cases "et_pending t = {#}")
  case True
  then show ?thesis
    using none ev.pq.empty_law [OF timer_ok_queue [OF assms]] by (simp add: et_pending_def)
next
  case False
  then obtain e q where e: "heap_min (et_queue t) = Some (Some e)"
      "heap_shift (et_queue t) = Some (Some e, q)" "heap_queue etimer_event_cmp q"
      "et_pending t = add_mset e (mset (heap_items q))"
      "\<forall>x \<in># et_pending t. etimer_event_cmp e x \<le> 0"
    using ev.pq.min_law [OF timer_ok_queue [OF assms]] unfolding et_pending_def by blast
  show ?thesis
    by (rule some) (use e in \<open>auto simp: etimer_event_cmp_le\<close>)
qed

subsection \<open>Temporary lists\<close>

text \<open>\<open>s\<close> is \<open>s0\<close> with one more list.\<close>

definition temp_list :: "'a lstore \<Rightarrow> 'a lstore \<Rightarrow> addr \<Rightarrow> (addr \<times> 'a) list \<Rightarrow> bool" where
  "temp_list s0 s l xs \<longleftrightarrow> list_at s l xs \<and> lstore_fin s \<and> lframe l (fst ` set xs) s0 s \<and>
     ls_heads s0 l = None \<and> (\<forall>a \<in> fst ` set xs. ls_items s0 a = None)"

lemma temp_list_at: "temp_list s0 s l xs \<Longrightarrow> list_at s l xs"
  by (simp add: temp_list_def)

lemma temp_list_create:
  assumes "lmalloc_ok lmalloc" and "lstore_fin s0"
  shows "\<exists>l s. list_create lmalloc s0 = Some (l, s) \<and> temp_list s0 s l []"
proof -
  note new = lmalloc_fresh(2) [OF assms]
  obtain s' where "list_create lmalloc s0 = Some (lmalloc s0, s')" "list_at s' (lmalloc s0) []"
    "lframe (lmalloc s0) {} s0 s'"
    using list_create_ok [where malloc = lmalloc, OF refl new] by blast
  then show ?thesis using new lframe_fin [of "lmalloc s0" "{}"] assms(2) by (auto simp: temp_list_def)
qed

lemma temp_list_append:
  assumes "lmalloc_ok lmalloc" and "temp_list s0 s l xs"
  shows "\<exists>e s'. list_append lmalloc s l x = Some (Some e, s') \<and> temp_list s0 s' l (xs @ [(e, x)])"
proof -
  have at: "list_at s l xs" and fin: "lstore_fin s" and fr: "lframe l (fst ` set xs) s0 s"
    using assms(2) by (auto simp: temp_list_def)
  note new = lmalloc_fresh(1) [OF assms(1) fin]
  obtain s' where s': "list_append lmalloc s l x = Some (Some (lmalloc s), s')"
    "list_at s' l (xs @ [(lmalloc s, x)])" "lframe l (insert (lmalloc s) (fst ` set xs)) s s'"
    using list_append_ok [where malloc = lmalloc, OF at refl new] by blast
  have "lmalloc s \<notin> fst ` set xs" by (rule list_at_fresh [OF at new])
  then have "ls_items s0 (lmalloc s) = None" using fr new by (simp add: lframe_def)
  moreover have "lframe l (fst ` set (xs @ [(lmalloc s, x)])) s0 s'"
    using lframe_trans [OF fr s'(3)] by (rule lframe_mono) auto
  ultimately show ?thesis
    using s'(1,2) lframe_fin [OF s'(3) _ fin] assms(2) by (auto simp: temp_list_def)
qed

lemma temp_list_destroy:
  assumes "temp_list s0 s l xs"
  shows "list_destroy s l = Some (s0, map snd xs)"
proof -
  have at: "list_at s l xs" and fr: "lframe l (fst ` set xs) s0 s"
    and free: "ls_heads s0 l = None" "\<forall>a \<in> fst ` set xs. ls_items s0 a = None"
    using assms by (auto simp: temp_list_def)
  obtain s' where s': "list_destroy s l = Some (s', map snd xs)" "ls_heads s' l = None"
    "lframe l (fst ` set xs) s s'" "\<forall>a \<in> fst ` set xs. ls_items s' a = None"
    using list_destroy_ok [OF at] by blast
  have "ls_heads s' = ls_heads s0"
    using fr s'(2,3) free(1) unfolding lframe_def fun_eq_iff by metis
  moreover have "ls_items s' = ls_items s0"
    using fr s'(3,4) free(2) unfolding lframe_def fun_eq_iff by metis
  ultimately show ?thesis using s'(1) by simp
qed

lemma events_do_loop_ok:
  "list_at s l (zs @ xs) \<Longrightarrow>
   events_do_loop s (next_of xs None) c = Some (map (\<lambda>e. (e, c)) (map snd xs))"
proof (induction xs arbitrary: zs)
  case Nil
  then show ?case by (subst events_do_loop.simps) simp
next
  case (Cons ay ys)
  obtain a y where ay: "ay = (a, y)" by (cases ay)
  show ?case
    using Cons.IH [of "zs @ [ay]"] Cons.prems list_next_ok [of s l zs a y ys]
      list_value_ok [of s l zs a y ys] ay
    by (subst events_do_loop.simps) simp
qed

lemma etimer_events_do_ok:
  "list_at s l xs \<Longrightarrow> etimer_events_do s l c = Some (map (\<lambda>e. (e, c)) (map snd xs))"
  using events_do_loop_ok [of s l "[]" xs] list_first_ok [of s l xs] by (simp add: etimer_events_do_def)

lemma destroy_all_ok:
  "distinct (map ee_ref es) \<Longrightarrow> ee_ref ` set es \<subseteq> et_events t \<Longrightarrow>
   etimer_event_destroy_all t es = Some (t\<lparr>et_events := et_events t - ee_ref ` set es\<rparr>)"
proof (induction es arbitrary: t)
  case (Cons e es)
  have "et_events t - {ee_ref e} - ee_ref ` set es = et_events t - insert (ee_ref e) (ee_ref ` set es)"
    by blast
  moreover have "ee_ref ` set es \<subseteq> et_events t - {ee_ref e}" using Cons.prems by (auto simp: image_iff)
  ultimately show ?case
    using Cons.IH [of "t\<lparr>et_events := et_events t - {ee_ref e}\<rparr>"] Cons.prems
    by (simp add: etimer_event_destructor_def)
qed simp

subsection \<open>The operations of the clients\<close>

lemma etimer_create_ok:
  assumes "lstore_fin ls"
  shows "timer_ok (etimer_create ls)" and "et_pending (etimer_create ls) = {#}"
proof -
  have "heap_cmp (heap_create etimer_event_cmp) = etimer_event_cmp"
    "heap_get_info (heap_create etimer_event_cmp) = None"
    by (simp_all add: heap_create_def)
  then show "timer_ok (etimer_create ls)" and "et_pending (etimer_create ls) = {#}"
    using assms by (simp_all add: timer_ok_def heap_queue_def etimer_create_def heap_create_inv et_pending_def)
qed

definition new_event :: "(addr set \<Rightarrow> addr) \<Rightarrow> etimer \<Rightarrow> timeval \<Rightarrow> addr \<Rightarrow> ptr \<Rightarrow> etimer_event" where
  "new_event malloc t d cb ud =
     \<lparr>ee_ref = malloc (et_events t), ee_deadline = d, ee_cb = cb, ee_userdata = ud\<rparr>"

lemma new_event_simps [simp]:
  "ee_ref (new_event malloc t d cb ud) = malloc (et_events t)"
  "ee_deadline (new_event malloc t d cb ud) = d"
  "ee_cb (new_event malloc t d cb ud) = cb"
  "ee_userdata (new_event malloc t d cb ud) = ud"
  by (simp_all add: new_event_def)

lemma etimer_event_create_ok:
  assumes "emalloc_ok malloc" and "timer_ok t"
  shows "etimer_event_create malloc t d cb ud = Some (new_event malloc t d cb ud,
      t\<lparr>et_events := insert (malloc (et_events t)) (et_events t)\<rparr>)"
  using assms by (simp add: etimer_event_create_def emalloc_ok_def timer_ok_def new_event_def Let_def)

text \<open>The test of \<open>etimer_add\<close> asks whether the new event is the next one.\<close>

lemma etimer_add_ok:
  assumes ok: "timer_ok t"
  shows "\<exists>q. heap_queue etimer_event_cmp q \<and> mset (heap_items q) = add_mset e (et_pending t) \<and>
    etimer_add cap t e =
      (if is_next t (ee_deadline e)
       then do { t \<leftarrow> etimer_signal cap (t\<lparr>et_queue := q\<rparr>); Some (Some (ee_ref e), t) }
       else Some (Some (ee_ref e), t\<lparr>et_queue := q\<rparr>))"
proof -
  obtain n q where q: "heap_insert (et_queue t) e = Some (n, q)" "heap_queue etimer_event_cmp q"
    "mset (heap_items q) = add_mset e (et_pending t)"
    using ev.pq.insert_law [OF timer_ok_queue [OF ok], of e] unfolding et_pending_def by blast
  then have "timer_ok (t\<lparr>et_queue := q\<rparr>)" using ok by (simp add: timer_ok_def)
  then obtain m2 where m2: "heap_min q = Some (Some m2)" "m2 \<in># add_mset e (et_pending t)"
    "\<And>x. x \<in># add_mset e (et_pending t) \<Longrightarrow> \<not> timer_less (ee_deadline x) (ee_deadline m2)"
  proof (cases rule: timer_min_cases)
    case none
    then show ?thesis using q(3) by simp
  next
    case (some m q')
    show ?thesis by (rule that [of m]) (use some(1,2,6) q(3) in simp_all)
  qed
  from ok show ?thesis
  proof (cases rule: timer_min_cases)
    case none
    then have "is_next t (ee_deadline e)" by (simp add: is_next_def)
    then show ?thesis using q none m2 by (auto simp: etimer_add_def Let_def)
  next
    case (some m1 q1)
    have "timer_less (ee_deadline m2) (ee_deadline m1) \<longleftrightarrow> is_next t (ee_deadline e)"
    proof
      assume less: "timer_less (ee_deadline m2) (ee_deadline m1)"
      then have "m2 = e" using m2(2) some(6) by auto
      then show "is_next t (ee_deadline e)"
        using less some(6) timer_less_le_trans unfolding is_next_def by blast
    next
      assume "is_next t (ee_deadline e)"
      then have "timer_less (ee_deadline e) (ee_deadline m1)" using some(2) by (simp add: is_next_def)
      moreover have "\<not> timer_less (ee_deadline e) (ee_deadline m2)" using m2(3) by simp
      ultimately show "timer_less (ee_deadline m2) (ee_deadline m1)" using timer_le_less_trans by blast
    qed
    then show ?thesis using q some(1) m2(1) by (auto simp: etimer_add_def Let_def)
  qed
qed

text \<open>The locked part of adding an event.\<close>

definition inserted :: "etimer \<Rightarrow> etimer_event \<Rightarrow> etimer \<Rightarrow> bool" where
  "inserted t e t' \<longleftrightarrow> timer_ok t' \<and> et_pending t' = add_mset e (et_pending t) \<and>
     et_events t' = et_events t \<and>
     et_pipe t' = et_pipe t + (if is_next t (ee_deadline e) then 1 else 0) \<and>
     et_run t' = et_run t \<and> et_locked t' = et_locked t \<and> et_lists t' = et_lists t"

lemma etimer_insert_ok:
  assumes "timer_ok t" and "\<not> et_locked t" and "is_next t (ee_deadline e) \<longrightarrow> et_pipe t < cap"
  shows "\<exists>t'. etimer_insert cap t e = Some (Some (ee_ref e), t') \<and> inserted t e t'"
proof -
  define t1 where "t1 = t\<lparr>et_locked := True\<rparr>"
  have ok: "timer_ok t1" using assms(1) by (simp add: t1_def timer_ok_def)
  have lock: "etimer_lock t = Some t1" using assms(2) by (simp add: etimer_lock_def t1_def)
  have t1: "is_next t1 (ee_deadline e) = is_next t (ee_deadline e)" "et_pending t1 = et_pending t"
    by (simp_all add: t1_def)
  obtain q where q: "heap_queue etimer_event_cmp q" "mset (heap_items q) = add_mset e (et_pending t)"
    "etimer_add cap t1 e = (if is_next t (ee_deadline e)
       then do { t \<leftarrow> etimer_signal cap (t1\<lparr>et_queue := q\<rparr>); Some (Some (ee_ref e), t) }
       else Some (Some (ee_ref e), t1\<lparr>et_queue := q\<rparr>))"
    using etimer_add_ok [OF ok, of e cap] unfolding t1 by blast
  define p where "p = (if is_next t (ee_deadline e) then et_pipe t + 1 else et_pipe t)"
  have "etimer_insert cap t e =
      Some (Some (ee_ref e), t1\<lparr>et_queue := q, et_pipe := p, et_locked := False\<rparr>)"
    using assms(3) lock q(3)
    by (simp add: etimer_insert_def etimer_signal_def etimer_unlock_def t1_def p_def)
  moreover have "inserted t e (t1\<lparr>et_queue := q, et_pipe := p, et_locked := False\<rparr>)"
    using q(1,2) ok assms(2) by (simp add: inserted_def t1_def timer_ok_def p_def)
  ultimately show ?thesis by blast
qed

text \<open>The write to a full pipe blocks while the lock is held.\<close>

lemma etimer_insert_blocks:
  assumes "timer_ok t" and "is_next t (ee_deadline e)" and "\<not> et_pipe t < cap"
  shows "etimer_insert cap t e = None"
proof -
  let ?t1 = "t\<lparr>et_locked := True\<rparr>"
  have ok: "timer_ok ?t1" using assms(1) by (simp add: timer_ok_def)
  have "is_next ?t1 (ee_deadline e)" using assms(2) by simp
  then have "etimer_add cap ?t1 e = None"
    using etimer_add_ok [OF ok, of e cap] assms(3) by (auto simp: etimer_signal_def)
  then show ?thesis by (simp add: etimer_insert_def etimer_lock_def)
qed

lemma etimer_insert_None_iff:
  "timer_ok t \<Longrightarrow> \<not> et_locked t \<Longrightarrow>
   etimer_insert cap t e = None \<longleftrightarrow> is_next t (ee_deadline e) \<and> \<not> et_pipe t < cap"
  using etimer_insert_ok [of t e cap] etimer_insert_blocks [of t e cap] by fastforce

text \<open>The three operations that add an event differ in the deadline only.\<close>

definition added :: "etimer \<Rightarrow> etimer_event \<Rightarrow> etimer \<Rightarrow> bool" where
  "added t e t' \<longleftrightarrow> timer_ok t' \<and> et_pending t' = add_mset e (et_pending t) \<and>
     ee_ref e \<notin> et_events t \<and> et_events t' = insert (ee_ref e) (et_events t) \<and>
     et_pipe t' = et_pipe t + (if is_next t (ee_deadline e) then 1 else 0) \<and>
     et_run t' = et_run t \<and> et_locked t' = et_locked t \<and> et_lists t' = et_lists t"

lemma created_ok: "timer_ok t \<Longrightarrow> timer_ok (t\<lparr>et_events := insert a (et_events t)\<rparr>)"
  by (simp add: timer_ok_def)

lemma etimer_deadline_ok:
  assumes "emalloc_ok malloc" and "timer_ok t" and "\<not> et_locked t"
    and "is_next t d \<longrightarrow> et_pipe t < cap"
  shows "\<exists>t'. etimer_deadline cap malloc t d cb ud = Some (Some (malloc (et_events t)), t') \<and>
    added t (new_event malloc t d cb ud) t'"
proof -
  let ?a = "malloc (et_events t)"
  let ?t0 = "t\<lparr>et_events := insert ?a (et_events t)\<rparr>"
  have a: "?a \<notin> et_events t" using assms(1,2) by (simp add: emalloc_ok_def timer_ok_def)
  obtain t' where "etimer_insert cap ?t0 (new_event malloc t d cb ud) = Some (Some ?a, t')"
    "inserted ?t0 (new_event malloc t d cb ud) t'"
    using etimer_insert_ok [OF created_ok [OF assms(2)], of ?a "new_event malloc t d cb ud" cap] assms(3,4)
    by auto
  then show ?thesis
    using etimer_event_create_ok [OF assms(1,2), of d cb ud] a
    by (simp add: etimer_deadline_def added_def inserted_def)
qed

lemma etimer_deadline_blocks:
  assumes "emalloc_ok malloc" and "timer_ok t" and "\<not> et_locked t"
    and "is_next t d" and "\<not> et_pipe t < cap"
  shows "etimer_deadline cap malloc t d cb ud = None"
  using etimer_event_create_ok [OF assms(1,2), of d cb ud] assms(4,5)
    etimer_insert_blocks [OF created_ok [OF assms(2)], of "malloc (et_events t)" "new_event malloc t d cb ud" cap]
  by (simp add: etimer_deadline_def)

lemma etimer_after_eq:
  "etimer_after cap malloc now t sec cb ud =
   do { d \<leftarrow> timer_plus now \<lparr>tv_sec = sec, tv_usec = 0\<rparr>; etimer_deadline cap malloc t d cb ud }"
  by (simp add: etimer_after_def etimer_deadline_def)

lemma etimer_mafter_eq:
  "etimer_mafter cap malloc now t msec cb ud =
   do { u \<leftarrow> c_long (msec * 1000);
        d \<leftarrow> timer_plus now \<lparr>tv_sec = 0, tv_usec = u\<rparr>;
        etimer_deadline cap malloc t d cb ud }"
  by (simp add: etimer_mafter_def etimer_deadline_def)

lemma etimer_empty_ok:
  assumes "timer_ok t" and "\<not> et_locked t"
  shows "etimer_empty t = Some (et_pending t = {#}, t)"
proof -
  have "heap_wf (et_queue t)" using assms(1) by (simp add: timer_ok_def heap_queue_def heap_inv_def)
  then have "(heap_size (et_queue t) = 0) = (et_pending t = {#})"
    unfolding heap_size_items [OF \<open>heap_wf (et_queue t)\<close>] et_pending_def
    by (simp del: heap_items_length)
  then show ?thesis
    using assms(2) by (simp add: etimer_empty_def etimer_lock_def etimer_unlock_def)
qed

lemma etimer_stop_ok:
  "\<not> et_locked t \<Longrightarrow> et_pipe t < cap \<Longrightarrow>
   etimer_stop cap t = Some (t\<lparr>et_run := False, et_pipe := et_pipe t + 1\<rparr>)"
  by (simp add: etimer_stop_def etimer_lock_def etimer_unlock_def etimer_signal_def)

text \<open>The allocated addresses are those of the events in \<open>M\<close>, and no two events share one.\<close>

definition refs_exact :: "etimer_event multiset \<Rightarrow> addr set \<Rightarrow> bool" where
  "refs_exact M S \<longleftrightarrow> finite S \<and> image_mset ee_ref M = mset_set S"

lemma refs_exact_set: "refs_exact M S \<Longrightarrow> ee_ref ` set_mset M = S"
  unfolding refs_exact_def by (metis finite_set_mset_mset_set set_image_mset)

lemma refs_exact_inj: "refs_exact M S \<Longrightarrow> x \<in># M \<Longrightarrow> y \<in># M \<Longrightarrow> ee_ref x = ee_ref y \<Longrightarrow> x = y"
proof (rule ccontr)
  assume M: "refs_exact M S" "x \<in># M" "y \<in># M" "ee_ref x = ee_ref y" and "x \<noteq> y"
  then obtain N where "M = add_mset x (add_mset y N)" by (metis insert_noteq_member mset_add)
  then have "count (image_mset ee_ref M) (ee_ref x) \<ge> 2" using M(4) by simp
  moreover have "count (mset_set S) (ee_ref x) \<le> 1" by (simp add: count_mset_set')
  ultimately show False using M(1) by (simp add: refs_exact_def)
qed

lemma refs_exact_add:
  "refs_exact M S \<Longrightarrow> ee_ref e \<notin> S \<Longrightarrow> refs_exact (add_mset e M) (insert (ee_ref e) S)"
  by (simp add: refs_exact_def)

lemma refs_exact_del: "refs_exact (add_mset e M) S \<Longrightarrow> refs_exact M (S - {ee_ref e})"
proof -
  assume ex: "refs_exact (add_mset e M) S"
  then have "ee_ref e \<in> S" using refs_exact_set by fastforce
  then have "mset_set S = add_mset (ee_ref e) (mset_set (S - {ee_ref e}))"
    using ex by (simp add: refs_exact_def mset_set.remove)
  then show ?thesis using ex by (simp add: refs_exact_def)
qed

lemma refs_exact_del_all:
  "refs_exact (M + mset es) S \<Longrightarrow>
   distinct (map ee_ref es) \<and> ee_ref ` set es \<subseteq> S \<and> refs_exact M (S - ee_ref ` set es)"
proof (induction es arbitrary: S)
  case (Cons e es)
  have ex: "refs_exact (add_mset e (M + mset es)) S" using Cons.prems by simp
  have "ee_ref e \<in> S" using refs_exact_set [OF ex] by auto
  moreover have "S - {ee_ref e} - ee_ref ` set es = S - ee_ref ` set (e # es)" by auto
  ultimately show ?case using Cons.IH [OF refs_exact_del [OF ex]] by auto
qed simp

lemma cancel_take_found:
  assumes ok: "timer_ok t" and unlocked: "\<not> et_locked t" and e: "e \<in># et_pending t"
    and refs: "refs_exact (et_pending t + M) (et_events t)"
  shows "\<exists>t'. etimer_cancel_take t (Some (ee_ref e)) = Some (Some e, t') \<and> timer_ok t' \<and>
    et_pending t = add_mset e (et_pending t') \<and> et_events t' = et_events t \<and>
    et_pipe t' = et_pipe t \<and> et_run t' = et_run t \<and> \<not> et_locked t' \<and> et_lists t' = et_lists t"
proof -
  have "\<exists>x \<in># mset (heap_items (et_queue t)). etimer_event_match_ref x (Some (ee_ref e))"
    using e by (auto simp: et_pending_def etimer_event_match_ref_def)
  then obtain x q where x: "heap_del_item (et_queue t) etimer_event_match_ref (Some (ee_ref e)) = Some (Some x, q)"
    "etimer_event_match_ref x (Some (ee_ref e))" "heap_queue etimer_event_cmp q"
    "et_pending t = add_mset x (mset (heap_items q))"
    using ev.pq.del_law [where match = etimer_event_match_ref, OF timer_ok_queue [OF ok]]
    unfolding et_pending_def by blast
  have "x \<in># et_pending t + M" "e \<in># et_pending t + M" using x(4) e by auto
  from refs_exact_inj [OF refs this] have "x = e" using x(2) by (simp add: etimer_event_match_ref_def)
  then show ?thesis
    using x unlocked ok
    by (auto simp: etimer_cancel_take_def etimer_lock_def etimer_unlock_def timer_ok_def)
qed

lemma cancel_take_none:
  assumes "timer_ok t" and "\<not> et_locked t" and "\<forall>e \<in># et_pending t. Some (ee_ref e) \<noteq> ref"
  shows "etimer_cancel_take t ref = Some (None, t)"
proof -
  have "heap_del_item (et_queue t) etimer_event_match_ref ref = Some (None, et_queue t)"
    by (rule ev.pq.del_none_law [OF timer_ok_queue [OF assms(1)]])
      (use assms(3) in \<open>auto simp: et_pending_def etimer_event_match_ref_def\<close>)
  then show ?thesis
    using assms(2) by (simp add: etimer_cancel_take_def etimer_lock_def etimer_unlock_def)
qed

lemma etimer_cancel_found:
  assumes ok: "timer_ok t" and unlocked: "\<not> et_locked t" and e: "e \<in># et_pending t"
    and refs: "refs_exact (et_pending t + M) (et_events t)"
  shows "\<exists>t'. etimer_cancel t (Some (ee_ref e)) = Some (Some (ee_ref e), t', [(e, True)]) \<and> timer_ok t' \<and>
    et_pending t = add_mset e (et_pending t') \<and> et_events t' = et_events t - {ee_ref e} \<and>
    et_pipe t' = et_pipe t \<and> et_run t' = et_run t \<and> \<not> et_locked t' \<and> et_lists t' = et_lists t"
proof -
  have "ee_ref e \<in> et_events t" using refs_exact_set [OF refs] e by auto
  then show ?thesis
    using cancel_take_found [OF assms]
    by (auto simp: etimer_cancel_def etimer_event_destructor_def timer_ok_def)
qed

lemma etimer_cancel_none:
  assumes "timer_ok t" and "\<not> et_locked t" and "\<forall>e \<in># et_pending t. Some (ee_ref e) \<noteq> ref"
  shows "etimer_cancel t ref = Some (None, t, [])"
  using cancel_take_none [OF assms] by (simp add: etimer_cancel_def)

subsection \<open>Extraction\<close>

lemma by_deadline_Cons:
  "by_deadline (e # es) \<longleftrightarrow>
   (\<forall>x \<in> set es. \<not> timer_less (ee_deadline x) (ee_deadline e)) \<and> by_deadline es"
  by (auto simp: by_deadline_def timer_less_iff not_less)

text \<open>Only the queue and the memory of the lists differ.\<close>

definition same_but_queue :: "etimer \<Rightarrow> etimer \<Rightarrow> bool" where
  "same_but_queue t t' \<longleftrightarrow> et_run t' = et_run t \<and> et_locked t' = et_locked t \<and>
     et_pipe t' = et_pipe t \<and> et_events t' = et_events t"

text \<open>
  One step of the loops that move events: the least event \<open>e\<close> leaves the queue and is appended to
  the list.
\<close>

lemma move_step:
  assumes "timer_ok t" and "lmalloc_ok lmalloc" and "temp_list s0 (et_lists t) l rs"
    and "heap_queue etimer_event_cmp q" and "et_pending t = add_mset e (mset (heap_items q))"
  obtains a ls where "list_append lmalloc (et_lists t) l e = Some (Some a, ls)"
    "temp_list s0 ls l (rs @ [(a, e)])" "timer_ok (t\<lparr>et_queue := q, et_lists := ls\<rparr>)"
    "et_pending (t\<lparr>et_queue := q, et_lists := ls\<rparr>) = et_pending t - {#e#}"
proof -
  obtain a ls where ls: "list_append lmalloc (et_lists t) l e = Some (Some a, ls)"
    "temp_list s0 ls l (rs @ [(a, e)])"
    using temp_list_append [OF assms(2,3)] by blast
  moreover have "timer_ok (t\<lparr>et_queue := q, et_lists := ls\<rparr>)"
    using assms(1,4) ls(2) by (simp add: timer_ok_def temp_list_def)
  ultimately show thesis using that assms(5) by simp
qed

lemma filter_due_none:
  assumes "\<And>x. x \<in># M \<Longrightarrow> \<not> timer_less (ee_deadline x) d" and "\<not> timer_less d now"
  shows "filter_mset (is_due now) M = {#}" and "filter_mset (\<lambda>e. \<not> is_due now e) M = M"
proof -
  have "\<not> is_due now x" if "x \<in># M" for x
    using assms that timer_le_less_trans unfolding is_due_def by blast
  then show "filter_mset (is_due now) M = {#}" and "filter_mset (\<lambda>e. \<not> is_due now e) M = M"
    by (simp_all add: filter_mset_eq_conv)
qed

lemma extract_loop_ok:
  assumes lmalloc: "lmalloc_ok lmalloc"
  shows "timer_ok t \<Longrightarrow> temp_list s0 (et_lists t) l rs \<Longrightarrow>
    \<exists>t' ds. extract_loop lmalloc t now l = Some t' \<and> timer_ok t' \<and>
      temp_list s0 (et_lists t') l (rs @ ds) \<and> same_but_queue t t' \<and>
      mset (map snd ds) = filter_mset (is_due now) (et_pending t) \<and>
      et_pending t' = filter_mset (\<lambda>e. \<not> is_due now e) (et_pending t) \<and> by_deadline (map snd ds)"
proof (induction "size (et_pending t)" arbitrary: t rs)
  case (0 t rs)
  then have "et_pending t = {#}" by simp
  then show ?case
    using 0 ev.pq.empty_law [OF timer_ok_queue [OF 0(2)]]
    by (subst extract_loop.simps) (auto simp: same_but_queue_def by_deadline_def et_pending_def)
next
  case (Suc n t rs)
  from \<open>timer_ok t\<close> show ?case
  proof (cases rule: timer_min_cases)
    case none
    then show ?thesis using Suc.hyps(2) by simp
  next
    case (some e q)
    show ?thesis
    proof (cases "timer_less (ee_deadline e) now")
      case False
      have "extract_loop lmalloc t now l = Some t"
        using some(1) False by (subst extract_loop.simps) simp
      moreover note filter_due_none [OF some(6) False]
      ultimately show ?thesis
        using Suc.prems by (auto simp: same_but_queue_def by_deadline_def intro!: exI [of _ "[]"])
    next
      case True
      obtain a ls where ls: "list_append lmalloc (et_lists t) l e = Some (Some a, ls)"
        "temp_list s0 ls l (rs @ [(a, e)])" "timer_ok (t\<lparr>et_queue := q, et_lists := ls\<rparr>)"
        "et_pending (t\<lparr>et_queue := q, et_lists := ls\<rparr>) = et_pending t - {#e#}"
        by (rule move_step [OF Suc.prems(1) lmalloc Suc.prems(2) some(4,5)])
      let ?t1 = "t\<lparr>et_queue := q, et_lists := ls\<rparr>"
      have "n = size (et_pending ?t1)" using Suc.hyps(2) some(5) ls(4) by simp
      then obtain t' ds where t': "extract_loop lmalloc ?t1 now l = Some t'" "timer_ok t'"
        "temp_list s0 (et_lists t') l ((rs @ [(a, e)]) @ ds)" "same_but_queue ?t1 t'"
        "mset (map snd ds) = filter_mset (is_due now) (et_pending ?t1)"
        "et_pending t' = filter_mset (\<lambda>e. \<not> is_due now e) (et_pending ?t1)" "by_deadline (map snd ds)"
        using Suc.hyps(1) [OF _ ls(3), of "rs @ [(a, e)]"] ls(2) by auto
      have step: "extract_loop lmalloc t now l = Some t'"
        using some(1,3) True ls(1) t'(1) by (subst extract_loop.simps) simp
      have split: "et_pending t = add_mset e (et_pending ?t1)" using some(5) by simp
      have sub: "set (map snd ds) \<subseteq> set_mset (et_pending t)"
        using t'(5) split by (metis set_mset_mset mset_subset_eqD multiset_filter_subset set_mset_add_mset_insert subset_insertI2 subsetI)
      then have "by_deadline (map snd ((a, e) # ds))"
        using t'(7) some(6) by (auto simp: by_deadline_Cons)
      moreover have "mset (map snd ((a, e) # ds)) = filter_mset (is_due now) (et_pending t)"
        "et_pending t' = filter_mset (\<lambda>e. \<not> is_due now e) (et_pending t)"
        using t'(5,6) split True by (simp_all add: is_due_def)
      moreover have "same_but_queue t t'" using t'(4) by (simp add: same_but_queue_def)
      moreover have "temp_list s0 (et_lists t') l (rs @ (a, e) # ds)" using t'(3) by simp
      ultimately show ?thesis using step t'(2) by blast
    qed
  qed
qed

lemma etimer_extract_ready_ok:
  assumes "lmalloc_ok lmalloc" and "timer_ok t"
  shows "\<exists>l t' ds. etimer_extract_ready lmalloc t now = Some (l, t') \<and> timer_ok t' \<and>
    temp_list (et_lists t) (et_lists t') l ds \<and> same_but_queue t t' \<and>
    mset (map snd ds) = filter_mset (is_due now) (et_pending t) \<and>
    et_pending t' = filter_mset (\<lambda>e. \<not> is_due now e) (et_pending t) \<and> by_deadline (map snd ds)"
proof -
  have fin: "lstore_fin (et_lists t)" using assms(2) by (simp add: timer_ok_def)
  obtain l ls where l: "list_create lmalloc (et_lists t) = Some (l, ls)"
    "temp_list (et_lists t) ls l []"
    using temp_list_create [OF assms(1) fin] by blast
  have "timer_ok (t\<lparr>et_lists := ls\<rparr>)" using assms(2) l(2) by (simp add: timer_ok_def temp_list_def)
  from extract_loop_ok [OF assms(1) this, of "et_lists t" l "[]" now] l(2) obtain t' ds where
    "extract_loop lmalloc (t\<lparr>et_lists := ls\<rparr>) now l = Some t'" "timer_ok t'"
    "temp_list (et_lists t) (et_lists t') l ds" "same_but_queue t t'"
    "mset (map snd ds) = filter_mset (is_due now) (et_pending t)"
    "et_pending t' = filter_mset (\<lambda>e. \<not> is_due now e) (et_pending t)" "by_deadline (map snd ds)"
    by (auto simp: same_but_queue_def)
  then show ?thesis using l(1) by (auto simp: etimer_extract_ready_def)
qed

subsection \<open>Destruction\<close>

lemma drain_loop_ok:
  assumes lmalloc: "lmalloc_ok lmalloc"
  shows "timer_ok t \<Longrightarrow> temp_list s0 (et_lists t) l rs \<Longrightarrow>
    \<exists>t' ds. drain_loop lmalloc t l = Some t' \<and> timer_ok t' \<and>
      temp_list s0 (et_lists t') l (rs @ ds) \<and> same_but_queue t t' \<and>
      mset (map snd ds) = et_pending t \<and> et_pending t' = {#} \<and> by_deadline (map snd ds)"
proof (induction "size (et_pending t)" arbitrary: t rs)
  case (0 t rs)
  then have "et_pending t = {#}" by simp
  then show ?case
    using 0 ev.pq.empty_law [OF timer_ok_queue [OF 0(2)]]
    by (subst drain_loop.simps) (auto simp: same_but_queue_def by_deadline_def et_pending_def Let_def)
next
  case (Suc n t rs)
  from \<open>timer_ok t\<close> show ?case
  proof (cases rule: timer_min_cases)
    case none
    then show ?thesis using Suc.hyps(2) by simp
  next
    case (some e q)
    obtain a ls where ls: "list_append lmalloc (et_lists t) l e = Some (Some a, ls)"
      "temp_list s0 ls l (rs @ [(a, e)])" "timer_ok (t\<lparr>et_queue := q, et_lists := ls\<rparr>)"
      "et_pending (t\<lparr>et_queue := q, et_lists := ls\<rparr>) = et_pending t - {#e#}"
      by (rule move_step [OF Suc.prems(1) lmalloc Suc.prems(2) some(4,5)])
    let ?t1 = "t\<lparr>et_queue := q, et_lists := ls\<rparr>"
    have "n = size (et_pending ?t1)" using Suc.hyps(2) some(5) ls(4) by simp
    then obtain t' ds where t': "drain_loop lmalloc ?t1 l = Some t'" "timer_ok t'"
      "temp_list s0 (et_lists t') l ((rs @ [(a, e)]) @ ds)" "same_but_queue ?t1 t'"
      "mset (map snd ds) = et_pending ?t1" "et_pending t' = {#}" "by_deadline (map snd ds)"
      using Suc.hyps(1) [OF _ ls(3), of "rs @ [(a, e)]"] ls(2) by auto
    have step: "drain_loop lmalloc t l = Some t'"
      using some(3) ls(1) t'(1) by (subst drain_loop.simps) (simp add: Let_def)
    have split: "et_pending t = add_mset e (mset (map snd ds))" using some(5) t'(5) by simp
    have "by_deadline (map snd ((a, e) # ds))"
      using t'(7) some(6) split by (auto simp: by_deadline_Cons)
    moreover have "mset (map snd ((a, e) # ds)) = et_pending t" using split by simp
    moreover have "same_but_queue t t'" using t'(4) by (simp add: same_but_queue_def)
    moreover have "temp_list s0 (et_lists t') l (rs @ (a, e) # ds)" using t'(3) by simp
    ultimately show ?thesis using step t'(2,6) by blast
  qed
qed

lemma etimer_destroy_ok:
  assumes lmalloc: "lmalloc_ok lmalloc" and ok: "timer_ok t" and unlocked: "\<not> et_locked t"
    and refs: "refs_exact (et_pending t) (et_events t)"
  shows "\<exists>es. etimer_destroy lmalloc t =
      Some ({}, et_lists t, map (\<lambda>e. (e, True)) es) \<and>
    mset es = et_pending t \<and> by_deadline es"
proof -
  let ?t0 = "t\<lparr>et_locked := True\<rparr>"
  have fin: "lstore_fin (et_lists t)" using ok by (simp add: timer_ok_def)
  obtain l ls where l: "list_create lmalloc (et_lists t) = Some (l, ls)"
    "temp_list (et_lists t) ls l []"
    using temp_list_create [OF lmalloc fin] by blast
  have "timer_ok (?t0\<lparr>et_lists := ls\<rparr>)" using ok l(2) by (simp add: timer_ok_def temp_list_def)
  from drain_loop_ok [OF lmalloc this, of "et_lists t" l "[]"] l(2) obtain t' ds where
    t': "drain_loop lmalloc (?t0\<lparr>et_lists := ls\<rparr>) l = Some t'" "timer_ok t'"
    "temp_list (et_lists t) (et_lists t') l ds" "same_but_queue ?t0 t'"
    "mset (map snd ds) = et_pending t" "by_deadline (map snd ds)"
    by (auto simp: same_but_queue_def)
  have "heap_wf (et_queue t')" using t'(2) by (simp add: timer_ok_def heap_queue_def heap_inv_def)
  note destroy = heap_destroy_ok [OF this]
  have "etimer_event_destroy_all (t'\<lparr>et_locked := False\<rparr>) (map snd ds) =
      Some (t'\<lparr>et_locked := False, et_events := {}\<rparr>)"
  proof -
    have "refs_exact ({#} + mset (map snd ds)) (et_events t)" using refs t'(5) by simp
    from refs_exact_del_all [OF this] have "distinct (map ee_ref (map snd ds))"
      "ee_ref ` set (map snd ds) \<subseteq> et_events t" "et_events t - ee_ref ` set (map snd ds) = {}"
      by (auto simp: refs_exact_def mset_set_empty_iff)
    moreover have "et_events t' = et_events t" using t'(4) by (simp add: same_but_queue_def)
    ultimately show ?thesis
      using destroy_all_ok [of "map snd ds" "t'\<lparr>et_locked := False\<rparr>"] by simp
  qed
  moreover have "etimer_unlock t' = Some (t'\<lparr>et_locked := False\<rparr>)"
    using t'(4) by (simp add: same_but_queue_def etimer_unlock_def)
  ultimately have "etimer_destroy lmalloc t = Some ({}, et_lists t,
      map (\<lambda>e. (e, True)) (map snd ds))"
    using unlocked l(1) t'(1) destroy etimer_events_do_ok [OF temp_list_at [OF t'(3)], of True]
      temp_list_destroy [OF t'(3)]
    by (simp add: etimer_destroy_def etimer_lock_def)
  then show ?thesis using t'(5,6) by blast
qed

subsection \<open>The signals\<close>

lemma clean_signals_loop_ok: "clean_signals_loop t n = (n + et_pipe t, t\<lparr>et_pipe := 0\<rparr>)"
proof (induction t n rule: clean_signals_loop.induct)
  case (1 t n)
  show ?case
  proof (cases "et_pipe t = 0")
    case True
    then show ?thesis by (subst clean_signals_loop.simps) simp
  next
    case False
    then show ?thesis
      using 1 by (subst clean_signals_loop.simps) (simp add: Let_def)
  qed
qed

lemma etimer_clean_signals_ok: "etimer_clean_signals t = (et_pipe t, t\<lparr>et_pipe := 0\<rparr>)"
  by (simp add: etimer_clean_signals_def clean_signals_loop_ok)

subsection \<open>The timeout\<close>

text \<open>The milliseconds until \<open>d\<close>, rounded up.\<close>

definition wait_ms :: "timeval \<Rightarrow> timeval \<Rightarrow> int" where
  "wait_ms d now = (micros d - micros now + 999) div 1000"

lemma wait_ms_bounds:
  "micros d - micros now \<le> 1000 * wait_ms d now"
  "1000 * wait_ms d now < micros d - micros now + 1000"
  unfolding wait_ms_def by linarith+

lemma ceil_thousand:
  "s * 1000 + u div 1000 + (if u mod 1000 \<noteq> 0 then 1 else 0) = (s * 1000000 + u + 999) div (1000 :: int)"
proof -
  define q r where "q = u div 1000" and "r = u mod 1000"
  have r: "0 \<le> r" "r < 1000" by (simp_all add: r_def)
  have "s * 1000000 + u + 999 = (r + 999) + 1000 * (s * 1000 + q)"
    using mult_div_mod_eq [of 1000 u] by (simp add: q_def r_def algebra_simps)
  then have "(s * 1000000 + u + 999) div 1000 = s * 1000 + q + (r + 999) div 1000"
    by (simp only: div_mult_self2)
  moreover have "(r + 999) div 1000 = (if r \<noteq> 0 then 1 else 0)"
    using r by (cases "r = 0") simp_all
  ultimately show ?thesis by (simp add: q_def r_def)
qed

text \<open>The sum of \<open>etimer_calc_timeout\<close> does not overflow.\<close>

lemma timeout_sum:
  assumes "\<bar>s\<bar> \<le> 2000000000000001" and "\<bar>u\<bar> \<le> 2000000000001000000"
  shows "c_long (s * 1000) = Some (s * 1000)" "c_long (s * 1000 + u) = Some (s * 1000 + u)"
    "c_long (s * 1000 + u + 1) = Some (s * 1000 + u + 1)"
  by (rule c_long_id; use assms in linarith)+

text \<open>The remaining time, converted to \<open>int\<close>.\<close>

lemma etimer_calc_timeout_ok:
  assumes ok: "timer_ok t" and small: "tv_small now" "\<forall>e \<in># et_pending t. tv_small (ee_deadline e)"
  shows "\<exists>n. etimer_calc_timeout t now = Some n \<and>
    (et_pending t = {#} \<longrightarrow> n = - 1) \<and>
    (\<forall>e \<in># et_pending t. is_due now e \<longrightarrow> n = 0) \<and>
    (et_pending t \<noteq> {#} \<longrightarrow> 0 \<le> n)"
  using ok
proof (cases rule: timer_min_cases)
  case none
  then show ?thesis by (simp add: etimer_calc_timeout_def)
next
  case (some e q)
  show ?thesis
  proof (cases "timer_less (ee_deadline e) now")
    case True
    then show ?thesis using some(1,2) by (auto simp: etimer_calc_timeout_def)
  next
    case False
    obtain d where d: "timer_minus (ee_deadline e) now = Some d" "\<bar>tv_sec d\<bar> \<le> 2000000000000001"
      "\<bar>tv_usec d\<bar> \<le> 2000000000001000000"
      using timer_minus_ok [of "ee_deadline e" now] small some(2) by blast
    have "\<bar>c_div (tv_usec d) 1000\<bar> \<le> 2000000000001000000"
      using d(3) unfolding c_div_def by (auto simp: sgn_if) 
    then have "\<exists>n. etimer_calc_timeout t now = Some n \<and> 0 \<le> n"
      using some(1) False d timeout_sum [of "tv_sec d" "c_div (tv_usec d) 1000"]
      by (simp add: etimer_calc_timeout_def Let_def)
    moreover have "\<not> is_due now x" if "x \<in># et_pending t" for x
      using some(6) [OF that] False timer_le_less_trans unfolding is_due_def by blast
    ultimately show ?thesis using some(2) by auto
  qed
qed

lemma etimer_calc_timeout_exact:
  assumes "timer_ok t" and "tv_small now" "tv_normal now"
    and "e \<in># et_pending t" "\<forall>x \<in># et_pending t. \<not> timer_less (ee_deadline x) (ee_deadline e)"
    and "tv_small (ee_deadline e)" "tv_normal (ee_deadline e)" "\<not> is_due now e"
  shows "etimer_calc_timeout t now = Some (max 0 (to_int (wait_ms (ee_deadline e) now)))"
  using assms(1)
proof (cases rule: timer_min_cases)
  case none
  then show ?thesis using assms(4) by simp
next
  case (some m q)
  have "\<not> timer_less (ee_deadline e) (ee_deadline m)" "\<not> timer_less (ee_deadline m) (ee_deadline e)"
    using some(2,6) assms(4,5) by blast+
  then have eq: "ee_deadline m = ee_deadline e"
    by (cases "ee_deadline m", cases "ee_deadline e") (auto simp: timer_less_def split: if_splits)
  obtain d where d: "timer_minus (ee_deadline e) now = Some d" "micros d = micros (ee_deadline e) - micros now"
    "tv_normal d" "\<bar>tv_sec d\<bar> \<le> 2000000000000001"
    using timer_minus_ok [of "ee_deadline e" now] assms by blast
  have u: "0 \<le> tv_usec d" "tv_usec d < 1000000" using d(3) by (simp_all add: tv_normal_def)
  have "wait_ms (ee_deadline e) now = tv_sec d * 1000 + tv_usec d div 1000 + (if tv_usec d mod 1000 \<noteq> 0 then 1 else 0)"
    unfolding wait_ms_def d(2) [symmetric] unfolding micros_def by (rule ceil_thousand [symmetric])
  moreover have "\<bar>tv_usec d div 1000\<bar> \<le> 2000000000001000000" using u by linarith
  ultimately show ?thesis
    using some(1) eq assms(8) d(1) u timeout_sum [OF d(4), of "tv_usec d div 1000"]
    by (simp add: etimer_calc_timeout_def is_due_def max_def Let_def)
qed

end
