(* ===== verification/ETimerRun.thy ===== *)
theory ETimerRun
  imports ETimerOps
begin

section \<open>The runner of the timer and its clients\<close>

text \<open>
  The system of one thread in \<open>etimer_run\<close> and any number of threads (and callbacks) that add and
  cancel events and stop the runner, as a step relation: every step is one critical section, one
  call of a callback, or one allocation or release outside of the lock (the runner releases its list,
  which nobody else can reach, with its events in one step). The invariant
  says that no event is lost or called twice, that the allocated events are exactly the pending ones,
  those in the list of the runner and those that clients are just adding or cancelling, and that the
  memory of the lists is otherwise what it was. From it follow that no step has undefined behaviour,
  that no event is called early, and that the runner calls every event that is due.
\<close>

subsection \<open>The step relation\<close>

text \<open>
  Besides the timer and the place of the runner, the state has the events that client threads hold in
  the middle of an operation: \<open>sy_made\<close>, created and not yet inserted; \<open>sy_taken\<close>, taken out by
  \<open>etimer_cancel\<close> and not yet called; \<open>sy_freeing\<close>, called by it and not yet freed. There are the calls
  made so far, and three records the code does not have: the events that were inserted, the times at
  which the runner looked for due events, and the time at which it last looked for its timeout.
\<close>

record etimer_sys =
  sy_timer :: etimer
  sy_pc :: run_pc
  sy_made :: "etimer_event multiset"
  sy_taken :: "etimer_event multiset"
  sy_freeing :: "etimer_event multiset"
  sy_calls :: "etimer_call list"
  sy_added :: "etimer_event multiset"
  sy_times :: "timeval set"
  sy_since :: timeval

definition sys_init :: "etimer_event lstore \<Rightarrow> etimer_sys" where
  "sys_init ls = \<lparr>sy_timer = etimer_create ls, sy_pc = RStart, sy_made = {#}, sy_taken = {#},
     sy_freeing = {#}, sy_calls = [], sy_added = {#}, sy_times = {}, sy_since = \<lparr>tv_sec = 0, tv_usec = 0\<rparr>\<rparr>"

text \<open>The second time of a step is read only where the due events are taken.\<close>

fun took :: "run_pc \<Rightarrow> run_pc \<Rightarrow> bool" where
  "took RTop (RFire l li) = True"
| "took (RWait n) (RFire l li) = True"
| "took _ _ = False"

definition seen :: "timeval \<Rightarrow> run_pc \<Rightarrow> run_pc \<Rightarrow> timeval set \<Rightarrow> timeval set" where
  "seen now pc pc' T = (if took pc pc' then insert now T else T)"

definition sys_run ::
  "(etimer_event lstore \<Rightarrow> addr) \<Rightarrow> timeval \<Rightarrow> timeval \<Rightarrow> bool \<Rightarrow> etimer_sys \<Rightarrow> etimer_sys option" where
  "sys_run lmalloc now1 now2 ready s = do {
     (t, pc, calls) \<leftarrow> etimer_run_step lmalloc now1 now2 ready (sy_timer s) (sy_pc s);
     Some (s\<lparr>sy_timer := t, sy_pc := pc, sy_calls := sy_calls s @ calls,
       sy_times := seen now2 (sy_pc s) pc (sy_times s), sy_since := now1\<rparr>) }"

inductive etimer_step ::
  "nat \<Rightarrow> (addr set \<Rightarrow> addr) \<Rightarrow> (etimer_event lstore \<Rightarrow> addr) \<Rightarrow> etimer_sys \<Rightarrow> etimer_sys \<Rightarrow> bool"
  for cap malloc lmalloc where
  run: "sys_run lmalloc now1 now2 ready s = Some s' \<Longrightarrow> etimer_step cap malloc lmalloc s s'"
| again: "sy_pc s = RDone \<Longrightarrow> etimer_step cap malloc lmalloc s (s\<lparr>sy_pc := RStart\<rparr>)"
| create: "etimer_event_create malloc (sy_timer s) d cb ud = Some (e, t) \<Longrightarrow>
    etimer_step cap malloc lmalloc s (s\<lparr>sy_timer := t, sy_made := add_mset e (sy_made s)\<rparr>)"
| insert: "e \<in># sy_made s \<Longrightarrow> etimer_insert cap (sy_timer s) e = Some (ref, t) \<Longrightarrow>
    etimer_step cap malloc lmalloc s
      (s\<lparr>sy_timer := t, sy_made := sy_made s - {#e#}, sy_added := add_mset e (sy_added s)\<rparr>)"
| take: "etimer_cancel_take (sy_timer s) ref = Some (event, t) \<Longrightarrow>
    etimer_step cap malloc lmalloc s
      (s\<lparr>sy_timer := t, sy_taken := mset (case event of None \<Rightarrow> [] | Some e \<Rightarrow> [e]) + sy_taken s\<rparr>)"
| call: "e \<in># sy_taken s \<Longrightarrow>
    etimer_step cap malloc lmalloc s
      (s\<lparr>sy_taken := sy_taken s - {#e#}, sy_freeing := add_mset e (sy_freeing s),
         sy_calls := sy_calls s @ [(e, True)]\<rparr>)"
| release: "e \<in># sy_freeing s \<Longrightarrow> etimer_event_destructor (sy_timer s) e = Some t \<Longrightarrow>
    etimer_step cap malloc lmalloc s (s\<lparr>sy_timer := t, sy_freeing := sy_freeing s - {#e#}\<rparr>)"
| stop: "etimer_stop cap (sy_timer s) = Some t \<Longrightarrow>
    etimer_step cap malloc lmalloc s (s\<lparr>sy_timer := t\<rparr>)"

inductive etimer_reach ::
  "nat \<Rightarrow> (addr set \<Rightarrow> addr) \<Rightarrow> (etimer_event lstore \<Rightarrow> addr) \<Rightarrow> etimer_event lstore \<Rightarrow> etimer_sys \<Rightarrow> bool"
  for cap malloc lmalloc ls where
  init: "etimer_reach cap malloc lmalloc ls (sys_init ls)"
| step: "etimer_reach cap malloc lmalloc ls s \<Longrightarrow> etimer_step cap malloc lmalloc s s' \<Longrightarrow>
    etimer_reach cap malloc lmalloc ls s'"

text \<open>The events that clients hold.\<close>

definition sys_clients :: "etimer_sys \<Rightarrow> etimer_event multiset" where
  "sys_clients s = sy_made s + sy_taken s + sy_freeing s"

lemma sys_clients_frame [simp]:
  "sys_clients (s\<lparr>sy_timer := t\<rparr>) = sys_clients s"
  "sys_clients (s\<lparr>sy_pc := p\<rparr>) = sys_clients s"
  "sys_clients (s\<lparr>sy_calls := cs\<rparr>) = sys_clients s"
  "sys_clients (s\<lparr>sy_added := A\<rparr>) = sys_clients s"
  "sys_clients (s\<lparr>sy_times := T\<rparr>) = sys_clients s"
  "sys_clients (s\<lparr>sy_since := now\<rparr>) = sys_clients s"
  by (simp_all add: sys_clients_def)

text \<open>The events the runner holds, and those of them it still has to call.\<close>

definition sys_held :: "etimer_sys \<Rightarrow> etimer_event list" where
  "sys_held s = (case sy_pc s of
     RFire l li \<Rightarrow> (case list_foreach (et_lists (sy_timer s)) l of Some es \<Rightarrow> es | None \<Rightarrow> [])
   | _ \<Rightarrow> [])"

definition sys_to_fire :: "etimer_sys \<Rightarrow> etimer_event list" where
  "sys_to_fire s = (case sy_pc s of
     RFire l li \<Rightarrow> (case list_foreach_loop (et_lists (sy_timer s)) li of Some es \<Rightarrow> es | None \<Rightarrow> [])
   | _ \<Rightarrow> [])"

subsection \<open>The invariant\<close>

text \<open>Where the runner is in its list: it has called the events \<open>zs\<close>, and \<open>xs\<close> are to come.\<close>

fun run_at :: "etimer_event lstore \<Rightarrow> etimer_event lstore \<Rightarrow> run_pc \<Rightarrow> etimer_event list \<Rightarrow>
    etimer_event list \<Rightarrow> bool" where
  "run_at ls0 ls (RFire l li) zs xs \<longleftrightarrow>
     (\<exists>as bs. temp_list ls0 ls l (as @ bs) \<and> li = next_of bs None \<and> zs = map snd as \<and> xs = map snd bs)"
| "run_at ls0 ls pc zs xs \<longleftrightarrow> ls = ls0 \<and> zs = [] \<and> xs = []"

definition seen_due :: "timeval set \<Rightarrow> etimer_event \<Rightarrow> bool" where
  "seen_due T e \<longleftrightarrow> (\<exists>now \<in> T. is_due now e)"

lemma seen_due_mono: "seen_due T e \<Longrightarrow> seen_due (seen now pc pc' T) e"
  by (auto simp: seen_due_def seen_def)

definition sys_inv :: "etimer_event lstore \<Rightarrow> etimer_sys \<Rightarrow> etimer_event list \<Rightarrow> etimer_event list \<Rightarrow> bool" where
  "sys_inv ls0 s zs xs \<longleftrightarrow>
     timer_ok (sy_timer s) \<and> \<not> et_locked (sy_timer s) \<and>
     run_at ls0 (et_lists (sy_timer s)) (sy_pc s) zs xs \<and>
     refs_exact (et_pending (sy_timer s) + sys_clients s + mset (zs @ xs)) (et_events (sy_timer s)) \<and>
     sy_added s = et_pending (sy_timer s) + mset xs + sy_taken s + mset (map fst (sy_calls s)) \<and>
     (\<forall>e \<in> set xs. seen_due (sy_times s) e) \<and>
     (\<forall>e. (e, False) \<in> set (sy_calls s) \<longrightarrow> seen_due (sy_times s) e)"

lemma sys_inv_lists:
  assumes "sys_inv ls0 s zs xs"
  shows "sys_held s = zs @ xs" and "sys_to_fire s = xs"
proof -
  have at: "run_at ls0 (et_lists (sy_timer s)) (sy_pc s) zs xs" using assms by (simp add: sys_inv_def)
  show "sys_held s = zs @ xs"
    using at by (cases "sy_pc s") (auto simp: sys_held_def list_foreach_ok [OF temp_list_at])
  show "sys_to_fire s = xs"
    using at by (cases "sy_pc s")
      (auto simp: sys_to_fire_def list_foreach_loop_ok [OF temp_list_at])
qed

lemma sys_inv_init: "lstore_fin ls0 \<Longrightarrow> sys_inv ls0 (sys_init ls0) [] []"
proof -
  assume fin: "lstore_fin ls0"
  have "timer_ok (etimer_create ls0)" "et_pending (etimer_create ls0) = {#}"
    using etimer_create_ok [OF fin] .
  then show ?thesis by (simp add: sys_inv_def sys_init_def etimer_create_def refs_exact_def sys_clients_def)
qed

subsection \<open>The steps of the clients\<close>

lemma sys_inv_refs:
  assumes "sys_inv ls0 s zs xs"
  shows "refs_exact (et_pending (sy_timer s) + (sys_clients s + mset (zs @ xs))) (et_events (sy_timer s))"
  using assms by (simp add: sys_inv_def add.assoc)

lemma create_effect:
  assumes inv: "sys_inv ls0 s zs xs" and malloc: "emalloc_ok malloc"
    and e: "etimer_event_create malloc (sy_timer s) d cb ud = Some (e, t)"
  shows "ee_ref e \<notin> et_events (sy_timer s)" and "ee_deadline e = d"
    and "t = sy_timer s\<lparr>et_events := insert (ee_ref e) (et_events (sy_timer s))\<rparr>"
proof -
  have ok: "timer_ok (sy_timer s)" using inv by (simp add: sys_inv_def)
  have "e = new_event malloc (sy_timer s) d cb ud"
    "t = sy_timer s\<lparr>et_events := insert (malloc (et_events (sy_timer s))) (et_events (sy_timer s))\<rparr>"
    using e etimer_event_create_ok [OF malloc ok, of d cb ud] by simp_all
  moreover have "malloc (et_events (sy_timer s)) \<notin> et_events (sy_timer s)"
    using malloc ok by (simp add: emalloc_ok_def timer_ok_def)
  ultimately show "ee_ref e \<notin> et_events (sy_timer s)" and "ee_deadline e = d"
    and "t = sy_timer s\<lparr>et_events := insert (ee_ref e) (et_events (sy_timer s))\<rparr>" by simp_all
qed

lemma insert_effect:
  assumes inv: "sys_inv ls0 s zs xs" and t: "etimer_insert cap (sy_timer s) e = Some (ref, t)"
  shows "inserted (sy_timer s) e t"
proof -
  have ok: "timer_ok (sy_timer s)" "\<not> et_locked (sy_timer s)" using inv by (simp_all add: sys_inv_def)
  then have "is_next (sy_timer s) (ee_deadline e) \<longrightarrow> et_pipe (sy_timer s) < cap"
    using etimer_insert_None_iff [OF ok, of cap e] t by auto
  from etimer_insert_ok [OF ok this] t show ?thesis by auto
qed

lemma take_effect:
  assumes inv: "sys_inv ls0 s zs xs" and t: "etimer_cancel_take (sy_timer s) ref = Some (event, t)"
  obtains (none) "t = sy_timer s" "event = None"
  | (some) e where "event = Some e" "timer_ok t" "et_pending (sy_timer s) = add_mset e (et_pending t)"
      "et_events t = et_events (sy_timer s)" "\<not> et_locked t"
      "et_lists t = et_lists (sy_timer s)"
      "et_pipe t = et_pipe (sy_timer s)" "et_run t = et_run (sy_timer s)"
proof -
  let ?t = "sy_timer s"
  have ok: "timer_ok ?t" "\<not> et_locked ?t" using inv by (simp_all add: sys_inv_def)
  show thesis
  proof (cases "\<exists>e \<in># et_pending ?t. Some (ee_ref e) = ref")
    case False
    then show thesis using cancel_take_none [OF ok] t none by auto
  next
    case True
    then obtain e where e: "e \<in># et_pending ?t" "ref = Some (ee_ref e)" by auto
    show thesis
      by (rule some [of e]) (use cancel_take_found [OF ok e(1) sys_inv_refs [OF inv]] t e(2) in auto)
  qed
qed

lemma release_effect:
  assumes inv: "sys_inv ls0 s zs xs" and e: "e \<in># sys_clients s"
  shows "etimer_event_destructor (sy_timer s) e =
    Some ((sy_timer s)\<lparr>et_events := et_events (sy_timer s) - {ee_ref e}\<rparr>)"
proof -
  have "ee_ref e \<in> et_events (sy_timer s)"
    using refs_exact_set [OF sys_inv_refs [OF inv]] e by auto
  then show ?thesis by (simp add: etimer_event_destructor_def)
qed

lemma stop_effect:
  "sys_inv ls0 s zs xs \<Longrightarrow> etimer_stop cap (sy_timer s) = Some t \<Longrightarrow>
   t = sy_timer s\<lparr>et_run := False, et_pipe := et_pipe (sy_timer s) + 1\<rparr>"
  by (auto simp: sys_inv_def etimer_stop_def etimer_lock_def etimer_unlock_def
      etimer_signal_def split: bind_splits)

lemma sys_inv_create:
  assumes inv: "sys_inv ls0 s zs xs" and malloc: "emalloc_ok malloc"
    and e: "etimer_event_create malloc (sy_timer s) d cb ud = Some (e, t)"
  shows "sys_inv ls0 (s\<lparr>sy_timer := t, sy_made := add_mset e (sy_made s)\<rparr>) zs xs"
proof -
  note eff = create_effect [OF inv malloc e]
  from refs_exact_add [OF sys_inv_refs [OF inv] eff(1)] show ?thesis
    using inv by (simp add: sys_inv_def eff(3) timer_ok_def sys_clients_def ac_simps)
qed

lemma sys_inv_insert:
  assumes inv: "sys_inv ls0 s zs xs" and e: "e \<in># sy_made s"
    and t: "etimer_insert cap (sy_timer s) e = Some (ref, t)"
  shows "sys_inv ls0 (s\<lparr>sy_timer := t, sy_made := sy_made s - {#e#}, sy_added := add_mset e (sy_added s)\<rparr>) zs xs"
proof -
  obtain M where M: "sy_made s = add_mset e M" using e by (metis multi_member_split)
  show ?thesis
    using inv insert_effect [OF inv t] by (simp add: sys_inv_def inserted_def sys_clients_def M ac_simps)
qed

lemma sys_inv_cancel_take:
  assumes inv: "sys_inv ls0 s zs xs" and t: "etimer_cancel_take (sy_timer s) ref = Some (event, t)"
  shows "sys_inv ls0 (s\<lparr>sy_timer := t,
    sy_taken := mset (case event of None \<Rightarrow> [] | Some e \<Rightarrow> [e]) + sy_taken s\<rparr>) zs xs"
  using inv t
proof (cases rule: take_effect)
  case none
  then show ?thesis using inv by (simp add: sys_inv_def sys_clients_def)
next
  case (some e)
  then show ?thesis using inv by (simp add: sys_inv_def sys_clients_def ac_simps)
qed

lemma sys_inv_call:
  assumes inv: "sys_inv ls0 s zs xs" and e: "e \<in># sy_taken s"
  shows "sys_inv ls0 (s\<lparr>sy_taken := sy_taken s - {#e#}, sy_freeing := add_mset e (sy_freeing s),
    sy_calls := sy_calls s @ [(e, True)]\<rparr>) zs xs"
proof -
  obtain M where M: "sy_taken s = add_mset e M" using e by (metis multi_member_split)
  show ?thesis using inv by (auto simp: sys_inv_def sys_clients_def M ac_simps)
qed

lemma sys_inv_release:
  assumes inv: "sys_inv ls0 s zs xs" and e: "e \<in># sy_freeing s"
    and t: "etimer_event_destructor (sy_timer s) e = Some t"
  shows "sys_inv ls0 (s\<lparr>sy_timer := t, sy_freeing := sy_freeing s - {#e#}\<rparr>) zs xs"
proof -
  obtain M where M: "sy_freeing s = add_mset e M" using e by (metis multi_member_split)
  have "t = (sy_timer s)\<lparr>et_events := et_events (sy_timer s) - {ee_ref e}\<rparr>"
    using release_effect [OF inv, of e] e t by (simp add: sys_clients_def)
  moreover have "refs_exact (et_pending (sy_timer s) + sy_made s + sy_taken s + M + mset (zs @ xs))
      (et_events (sy_timer s) - {ee_ref e})"
    by (rule refs_exact_del) (use inv in \<open>simp add: sys_inv_def sys_clients_def M ac_simps\<close>)
  ultimately show ?thesis using inv by (simp add: sys_inv_def sys_clients_def M timer_ok_def ac_simps)
qed

lemma sys_inv_stop:
  assumes inv: "sys_inv ls0 s zs xs" and t: "etimer_stop cap (sy_timer s) = Some t"
  shows "sys_inv ls0 (s\<lparr>sy_timer := t\<rparr>) zs xs"
  using inv stop_effect [OF inv t] by (simp add: sys_inv_def)

subsection \<open>The steps of the runner\<close>

definition run_ok :: "etimer_event lstore \<Rightarrow> etimer_sys \<Rightarrow> etimer_sys \<Rightarrow> etimer_event list \<Rightarrow>
    etimer_event list \<Rightarrow> bool" where
  "run_ok ls0 s s' zs xs \<longleftrightarrow> sys_inv ls0 s' zs xs \<and> sy_added s' = sy_added s"

text \<open>The critical section in which the due events are taken.\<close>

lemma run_take_ok:
  assumes lmalloc: "lmalloc_ok lmalloc" and ok: "timer_ok t" and locked: "et_locked t"
  shows "\<exists>t' pc ds. run_take lmalloc now t = Some (t', pc, []) \<and> timer_ok t' \<and> \<not> et_locked t' \<and>
    run_at (et_lists t) (et_lists t') pc [] ds \<and> et_events t' = et_events t \<and>
    et_run t' = et_run t \<and> et_pipe t' = et_pipe t \<and>
    (if et_run t then (\<exists>l li. pc = RFire l li) \<and> by_deadline ds \<and>
       mset ds = filter_mset (is_due now) (et_pending t) \<and>
       et_pending t' = filter_mset (\<lambda>e. \<not> is_due now e) (et_pending t)
     else pc = RDone \<and> ds = [] \<and> et_pending t' = et_pending t)"
proof (cases "et_run t")
  case False
  then show ?thesis using ok locked by (simp add: run_take_def etimer_unlock_def)
next
  case True
  obtain l t' ds where t': "etimer_extract_ready lmalloc t now = Some (l, t')" "timer_ok t'"
    "temp_list (et_lists t) (et_lists t') l ds" "same_but_queue t t'"
    "mset (map snd ds) = filter_mset (is_due now) (et_pending t)"
    "et_pending t' = filter_mset (\<lambda>e. \<not> is_due now e) (et_pending t)" "by_deadline (map snd ds)"
    using etimer_extract_ready_ok [OF lmalloc ok] by blast
  have "run_take lmalloc now t = Some (t'\<lparr>et_locked := False\<rparr>, RFire l (next_of ds None), [])"
    using True t'(1,4) locked list_first_ok [OF temp_list_at [OF t'(3)]]
    by (simp add: run_take_def etimer_unlock_def same_but_queue_def)
  moreover have "run_at (et_lists t) (et_lists t') (RFire l (next_of ds None)) [] (map snd ds)"
    using t'(3) by (auto intro: exI [of _ "[]"])
  ultimately show ?thesis using True t' unfolding same_but_queue_def
    by (intro exI [of _ "t'\<lparr>et_locked := False\<rparr>"] exI [of _ "RFire l (next_of ds None)"] exI [of _ "map snd ds"]) simp
qed

text \<open>Its effect on the system; \<open>t\<close> is the timer with the lock held.\<close>

lemma sys_inv_take:
  assumes inv: "sys_inv ls0 s [] []" and lmalloc: "lmalloc_ok lmalloc"
    and ls: "et_lists (sy_timer s) = ls0" and pc: "sy_pc s = RTop \<or> (\<exists>n. sy_pc s = RWait n)"
    and t: "timer_ok t" "et_locked t" "et_lists t = ls0" "et_events t = et_events (sy_timer s)"
      "et_pending t = et_pending (sy_timer s)"
  shows "\<exists>t' pc ds. run_take lmalloc now t = Some (t', pc, []) \<and>
    sys_inv ls0 (s\<lparr>sy_timer := t', sy_pc := pc, sy_calls := sy_calls s @ [],
      sy_times := seen now (sy_pc s) pc (sy_times s), sy_since := now1\<rparr>) [] ds \<and> et_run t' = et_run t \<and> et_pipe t' = et_pipe t \<and>
    (if et_run t then (\<exists>l li. pc = RFire l li) \<and> by_deadline ds \<and>
       mset ds = filter_mset (is_due now) (et_pending t) else pc = RDone)"
proof -
  obtain t' pc ds where t': "run_take lmalloc now t = Some (t', pc, [])" "timer_ok t'" "\<not> et_locked t'"
    "run_at (et_lists t) (et_lists t') pc [] ds" "et_events t' = et_events t" "et_run t' = et_run t"
    "et_pipe t' = et_pipe t"
    "if et_run t then (\<exists>l li. pc = RFire l li) \<and> by_deadline ds \<and>
       mset ds = filter_mset (is_due now) (et_pending t) \<and>
       et_pending t' = filter_mset (\<lambda>e. \<not> is_due now e) (et_pending t)
     else pc = RDone \<and> ds = [] \<and> et_pending t' = et_pending t"
    using run_take_ok [OF lmalloc t(1,2)] by blast
  have split: "et_pending t = et_pending t' + mset ds"
    using t'(8) by (cases "et_run t") (simp_all add: union_commute flip: multiset_partition)
  have "seen_due (seen now (sy_pc s) pc (sy_times s)) e" if "e \<in> set ds" for e
  proof (cases "et_run t")
    case True
    then have "e \<in># filter_mset (is_due now) (et_pending t)" using t'(8) that by (metis set_mset_mset)
    moreover have "took (sy_pc s) pc" using pc t'(8) True by auto
    ultimately show ?thesis by (auto simp: seen_due_def seen_def)
  qed (use t'(8) that in simp)
  then have "sys_inv ls0 (s\<lparr>sy_timer := t', sy_pc := pc, sy_calls := sy_calls s @ [],
      sy_times := seen now (sy_pc s) pc (sy_times s), sy_since := now1\<rparr>) [] ds"
    using inv t' t split seen_due_mono unfolding sys_inv_def by (auto simp: ac_simps)
  then show ?thesis using t'(1,6,7,8) by metis
qed

text \<open>One step from each place.\<close>

lemma sys_run_start:
  assumes inv: "sys_inv ls0 s zs xs" and pc: "sy_pc s = RStart"
  shows "\<exists>s'. sys_run lmalloc now1 now2 ready s = Some s' \<and> sys_inv ls0 s' [] [] \<and>
    sy_pc s' = RTop \<and> et_run (sy_timer s') \<and> et_pending (sy_timer s') = et_pending (sy_timer s) \<and>
    sy_calls s' = sy_calls s"
  using inv pc seen_due_mono
  by (auto simp: sys_run_def sys_inv_def etimer_lock_def etimer_unlock_def)

lemma sys_run_wait:
  assumes inv: "sys_inv ls0 s zs xs" and lmalloc: "lmalloc_ok lmalloc" and pc: "sy_pc s = RWait n"
  shows "\<exists>s' ds. sys_run lmalloc now1 now2 ready s = Some s' \<and> sys_inv ls0 s' [] ds \<and>
    et_run (sy_timer s') = et_run (sy_timer s) \<and> sy_calls s' = sy_calls s \<and>
    et_pipe (sy_timer s') = (if ready then 0 else et_pipe (sy_timer s)) \<and>
    (if et_run (sy_timer s) then (\<exists>l li. sy_pc s' = RFire l li) \<and> by_deadline ds \<and>
       mset ds = filter_mset (is_due now2) (et_pending (sy_timer s)) else sy_pc s' = RDone)"
proof -
  define t where "t = (if ready then (sy_timer s)\<lparr>et_locked := True, et_pipe := 0\<rparr>
    else (sy_timer s)\<lparr>et_locked := True\<rparr>)"
  have inv': "sys_inv ls0 s [] []" and ls: "et_lists (sy_timer s) = ls0"
    and at: "sy_pc s = RTop \<or> (\<exists>n. sy_pc s = RWait n)"
    using inv pc by (auto simp: sys_inv_def)
  have unlocked: "\<not> et_locked (sy_timer s)" and ok: "timer_ok (sy_timer s)"
    using inv by (simp_all add: sys_inv_def)
  have t: "timer_ok t" "et_locked t" "et_lists t = ls0" "et_events t = et_events (sy_timer s)"
      "et_pending t = et_pending (sy_timer s)" "et_run t = et_run (sy_timer s)"
    using ok ls by (simp_all add: t_def)
  have pipe: "et_pipe t = (if ready then 0 else et_pipe (sy_timer s))" by (simp add: t_def)
  have "sys_run lmalloc now1 now2 ready s = do { (t, pc, calls) \<leftarrow> run_take lmalloc now2 t;
      Some (s\<lparr>sy_timer := t, sy_pc := pc, sy_calls := sy_calls s @ calls,
        sy_times := seen now2 (sy_pc s) pc (sy_times s), sy_since := now1\<rparr>) }"
    using pc unlocked
    by (simp add: sys_run_def etimer_lock_def etimer_clean_signals_ok t_def Let_def)
  then show ?thesis
    unfolding pipe [symmetric]
    using sys_inv_take [OF inv' lmalloc ls at t(1-5), of now2 now1] t(5,6) by auto
qed

lemma sys_run_top:
  assumes inv: "sys_inv ls0 s zs xs" and lmalloc: "lmalloc_ok lmalloc" and pc: "sy_pc s = RTop"
    and n: "etimer_calc_timeout ((sy_timer s)\<lparr>et_locked := True\<rparr>) now1 = Some n"
  shows "\<exists>s' ds. sys_run lmalloc now1 now2 ready s = Some s' \<and> sys_inv ls0 s' [] ds \<and>
    et_run (sy_timer s') = et_run (sy_timer s) \<and> sy_calls s' = sy_calls s \<and>
    et_pipe (sy_timer s') = et_pipe (sy_timer s) \<and>
    (if n \<noteq> 0 then sy_pc s' = RWait n \<and> et_pending (sy_timer s') = et_pending (sy_timer s)
     else if et_run (sy_timer s) then (\<exists>l li. sy_pc s' = RFire l li) \<and> by_deadline ds \<and>
       mset ds = filter_mset (is_due now2) (et_pending (sy_timer s)) else sy_pc s' = RDone)"
proof (cases "n = 0")
  case False
  let ?s = "s\<lparr>sy_timer := (sy_timer s)\<lparr>et_locked := False\<rparr>,
      sy_pc := RWait n, sy_calls := sy_calls s @ [], sy_times := seen now2 (sy_pc s) (RWait n) (sy_times s), sy_since := now1\<rparr>"
  have "sys_run lmalloc now1 now2 ready s = Some ?s"
    using False inv pc n by (simp add: sys_run_def sys_inv_def etimer_lock_def etimer_unlock_def)
  moreover have "sys_inv ls0 ?s [] []"
    using inv pc seen_due_mono by (auto simp: sys_inv_def)
  ultimately show ?thesis using False by (intro exI [of _ ?s] exI [of _ "[]"]) simp
next
  case True
  define t where "t = (sy_timer s)\<lparr>et_locked := True\<rparr>"
  have inv': "sys_inv ls0 s [] []" and ls: "et_lists (sy_timer s) = ls0"
    and at: "sy_pc s = RTop \<or> (\<exists>n. sy_pc s = RWait n)"
    using inv pc by (auto simp: sys_inv_def)
  have unlocked: "\<not> et_locked (sy_timer s)" and ok: "timer_ok (sy_timer s)"
    using inv by (simp_all add: sys_inv_def)
  have t: "timer_ok t" "et_locked t" "et_lists t = ls0" "et_events t = et_events (sy_timer s)"
      "et_pending t = et_pending (sy_timer s)" "et_run t = et_run (sy_timer s)"
      "et_pipe t = et_pipe (sy_timer s)"
    using ok ls by (simp_all add: t_def)
  have "sys_run lmalloc now1 now2 ready s = do { (t, pc, calls) \<leftarrow> run_take lmalloc now2 t;
      Some (s\<lparr>sy_timer := t, sy_pc := pc, sy_calls := sy_calls s @ calls,
        sy_times := seen now2 (sy_pc s) pc (sy_times s), sy_since := now1\<rparr>) }"
    using pc unlocked n True by (simp add: sys_run_def etimer_lock_def t_def)
  then show ?thesis
    using True sys_inv_take [OF inv' lmalloc ls at t(1-5), of now2 now1] t(5-7) by auto
qed

lemma sys_run_fire:
  assumes inv: "sys_inv ls0 s zs (x # xs)"
  shows "\<exists>s'. sys_run lmalloc now1 now2 ready s = Some s' \<and> sys_inv ls0 s' (zs @ [x]) xs \<and>
    (\<exists>l li. sy_pc s' = RFire l li) \<and> sy_timer s' = sy_timer s \<and>
    sy_calls s' = sy_calls s @ [(x, False)]"
proof -
  let ?t = "sy_timer s"
  obtain l li where pc: "sy_pc s = RFire l li"
    using inv by (cases "sy_pc s") (simp_all add: sys_inv_def)
  obtain as bs where at: "temp_list ls0 (et_lists ?t) l (as @ bs)" "li = next_of bs None"
    "zs = map snd as" "x # xs = map snd bs"
    using inv pc by (auto simp: sys_inv_def)
  then obtain a bs' where bs: "bs = (a, x) # bs'" "xs = map snd bs'" by (cases bs) auto
  have l: "list_at (et_lists ?t) l (as @ (a, x) # bs')" using temp_list_at [OF at(1)] bs(1) by simp
  let ?s = "s\<lparr>sy_timer := ?t, sy_pc := RFire l (next_of bs' None),
      sy_calls := sy_calls s @ [(x, False)], sy_times := seen now2 (sy_pc s) (RFire l (next_of bs' None)) (sy_times s), sy_since := now1\<rparr>"
  have "sys_run lmalloc now1 now2 ready s = Some ?s"
    using pc at(2) bs(1) list_value_ok [OF l] list_next_ok [OF l] by (simp add: sys_run_def)
  moreover have "run_at ls0 (et_lists ?t) (RFire l (next_of bs' None)) (zs @ [x]) xs"
    using at(1,3) bs unfolding run_at.simps
    by (intro exI [of _ "as @ [(a, x)]"] exI [of _ bs']) simp
  then have "sys_inv ls0 ?s (zs @ [x]) xs"
    using inv seen_due_mono by (auto simp: sys_inv_def)
  ultimately show ?thesis by (intro exI [of _ ?s]) simp
qed

lemma sys_run_end:
  assumes inv: "sys_inv ls0 s zs []" and pc: "sy_pc s = RFire l li"
  shows "\<exists>s'. sys_run lmalloc now1 now2 ready s = Some s' \<and> sys_inv ls0 s' [] [] \<and>
    sy_pc s' = RTop \<and> et_pending (sy_timer s') = et_pending (sy_timer s) \<and>
    et_run (sy_timer s') = et_run (sy_timer s) \<and> et_pipe (sy_timer s') = et_pipe (sy_timer s) \<and>
    sy_calls s' = sy_calls s"
proof -
  let ?t = "sy_timer s"
  obtain as bs where at: "temp_list ls0 (et_lists ?t) l (as @ bs)" "li = next_of bs None"
    "zs = map snd as" "[] = map snd bs"
    using inv pc by (auto simp: sys_inv_def)
  then have li: "li = None" and l: "temp_list ls0 (et_lists ?t) l as" by simp_all
  have fin: "lstore_fin ls0"
  proof -
    have "lframe l (fst ` set as) (et_lists ?t) ls0" "lstore_fin (et_lists ?t)"
      using l by (simp_all add: temp_list_def lframe_def)
    then show ?thesis using lframe_fin by blast
  qed
  have "refs_exact (et_pending ?t + sys_clients s + mset zs) (et_events ?t)" using inv by (simp add: sys_inv_def)
  note refs = refs_exact_del_all [OF this]
  define t' where "t' = ?t\<lparr>et_lists := ls0, et_events := et_events ?t - ee_ref ` set zs\<rparr>"
  have all: "etimer_event_destroy_all (?t\<lparr>et_lists := ls0\<rparr>) zs = Some t'"
    using destroy_all_ok [of zs "?t\<lparr>et_lists := ls0\<rparr>"] refs by (simp add: t'_def)
  let ?s = "s\<lparr>sy_timer := t', sy_pc := RTop,
      sy_calls := sy_calls s @ [], sy_times := seen now2 (sy_pc s) RTop (sy_times s), sy_since := now1\<rparr>"
  have "sys_run lmalloc now1 now2 ready s = Some ?s"
    using all pc li temp_list_destroy [OF l] at(3) by (simp add: sys_run_def)
  moreover have "timer_ok t'" using inv fin by (simp add: sys_inv_def timer_ok_def t'_def)
  then have "sys_inv ls0 ?s [] []"
    using inv seen_due_mono refs by (auto simp: sys_inv_def t'_def)
  ultimately show ?thesis by (intro exI [of _ ?s]) (simp add: t'_def)
qed

lemma sys_inv_run:
  assumes inv: "sys_inv ls0 s zs xs" and lmalloc: "lmalloc_ok lmalloc"
    and s': "sys_run lmalloc now1 now2 ready s = Some s'"
  shows "\<exists>zs xs. sys_inv ls0 s' zs xs"
proof (cases "sy_pc s")
  case RStart
  then show ?thesis using sys_run_start [OF inv RStart, of lmalloc now1 now2 ready] s' by auto
next
  case RTop
  then obtain n where "etimer_calc_timeout ((sy_timer s)\<lparr>et_locked := True\<rparr>) now1 = Some n"
    using s' inv by (auto simp: sys_run_def sys_inv_def etimer_lock_def split: bind_splits)
  then show ?thesis using sys_run_top [OF inv lmalloc RTop, of now1 n now2 ready] s' by auto
next
  case (RWait n)
  then show ?thesis using sys_run_wait [OF inv lmalloc RWait, of now1 now2 ready] s' by auto
next
  case (RFire l li)
  then show ?thesis
    using sys_run_end [OF _ RFire, of ls0 zs] sys_run_fire [of ls0 s zs] s' inv
    by (cases xs) (metis option.inject)+
next
  case RDone
  then have "s' = s\<lparr>sy_timer := sy_timer s, sy_pc := RDone, sy_calls := sy_calls s @ [],
      sy_times := seen now2 (sy_pc s) RDone (sy_times s), sy_since := now1\<rparr>"
    using s' by (simp add: sys_run_def)
  then have "sys_inv ls0 s' zs xs"
    using inv RDone seen_due_mono by (auto simp: sys_inv_def)
  then show ?thesis by blast
qed

lemma sys_inv_step:
  assumes "sys_inv ls0 s zs xs" and "emalloc_ok malloc" and "lmalloc_ok lmalloc"
    and "etimer_step cap malloc lmalloc s s'"
  shows "\<exists>zs xs. sys_inv ls0 s' zs xs"
  using assms(4)
proof (cases rule: etimer_step.cases)
  case run
  then show ?thesis using sys_inv_run [OF assms(1,3)] by blast
next
  case again
  then have "sys_inv ls0 s' zs xs" using assms(1) by (auto simp: sys_inv_def)
  then show ?thesis by blast
next
  case create
  then show ?thesis using sys_inv_create [OF assms(1,2)] by blast
next
  case insert
  then show ?thesis using sys_inv_insert [OF assms(1)] by blast
next
  case take
  then show ?thesis using sys_inv_cancel_take [OF assms(1)] by blast
next
  case call
  then show ?thesis using sys_inv_call [OF assms(1)] by blast
next
  case release
  then show ?thesis using sys_inv_release [OF assms(1)] by blast
next
  case stop
  then show ?thesis using sys_inv_stop [OF assms(1)] by blast
qed

lemma reach_inv:
  assumes "emalloc_ok malloc" and "lmalloc_ok lmalloc" and "lstore_fin ls0"
  shows "etimer_reach cap malloc lmalloc ls0 s \<Longrightarrow> \<exists>zs xs. sys_inv ls0 s zs xs"
proof (induction rule: etimer_reach.induct)
  case init
  then show ?case using sys_inv_init [OF assms(3)] by blast
next
  case (step s s')
  then show ?case using sys_inv_step [OF _ assms(1,2)] by blast
qed

text \<open>
  \<open>etimer_deadline\<close> and \<open>etimer_cancel\<close> without interruption are their steps one after the other.
\<close>

lemma reach_deadline:
  assumes "etimer_reach cap malloc lmalloc ls0 s"
    and e: "etimer_event_create malloc (sy_timer s) d cb ud = Some (e, t0)"
    and t: "etimer_deadline cap malloc (sy_timer s) d cb ud = Some (ref, t)"
  shows "etimer_reach cap malloc lmalloc ls0 (s\<lparr>sy_timer := t, sy_added := add_mset e (sy_added s)\<rparr>)"
proof -
  let ?s = "s\<lparr>sy_timer := t0, sy_made := add_mset e (sy_made s)\<rparr>"
  have "etimer_insert cap (sy_timer ?s) e = Some (ref, t)" using e t by (simp add: etimer_deadline_def)
  from etimer_step.insert [OF _ this, of malloc lmalloc] show ?thesis
    using etimer_reach.step [OF etimer_reach.step [OF assms(1) etimer_step.create [OF e]]] by simp
qed

lemma reach_cancel:
  assumes "etimer_reach cap malloc lmalloc ls0 s"
    and t: "etimer_cancel (sy_timer s) ref = Some (r, t, calls)"
  shows "etimer_reach cap malloc lmalloc ls0 (s\<lparr>sy_timer := t, sy_calls := sy_calls s @ calls\<rparr>)"
proof -
  obtain event t1 where take: "etimer_cancel_take (sy_timer s) ref = Some (event, t1)"
    using t by (auto simp: etimer_cancel_def split: bind_splits)
  note s1 = etimer_reach.step [OF assms(1) etimer_step.take [OF take]]
  show ?thesis
  proof (cases event)
    case None
    then show ?thesis using s1 t take by (simp add: etimer_cancel_def)
  next
    case (Some e)
    let ?s1 = "s\<lparr>sy_timer := t1, sy_taken := add_mset e (sy_taken s)\<rparr>"
    have d: "etimer_event_destructor t1 e = Some t" "calls = [(e, True)]"
      using t take Some by (auto simp: etimer_cancel_def split: bind_splits)
    have "etimer_reach cap malloc lmalloc ls0 ?s1" using s1 Some by simp
    from etimer_reach.step [OF this etimer_step.call [of e]]
    have "etimer_reach cap malloc lmalloc ls0
        (s\<lparr>sy_timer := t1, sy_freeing := add_mset e (sy_freeing s), sy_calls := sy_calls s @ calls\<rparr>)"
      using d(2) by simp
    from etimer_reach.step [OF this etimer_step.release [of e _ t]] show ?thesis
      using d(1) by (cases s) simp
  qed
qed

subsection \<open>The runner alone\<close>

lemma sys_run_defined:
  assumes inv: "sys_inv ls0 s zs xs" and lmalloc: "lmalloc_ok lmalloc"
    and small: "tv_small now1" "\<forall>e \<in># et_pending (sy_timer s). tv_small (ee_deadline e)"
  shows "\<exists>s'. sys_run lmalloc now1 now2 ready s = Some s'"
proof (cases "sy_pc s")
  case RStart
  then show ?thesis using sys_run_start [OF inv RStart] by blast
next
  case RTop
  have "timer_ok ((sy_timer s)\<lparr>et_locked := True\<rparr>)" using inv by (simp add: sys_inv_def)
  from etimer_calc_timeout_ok [OF this small(1)] small(2) obtain n where
    "etimer_calc_timeout ((sy_timer s)\<lparr>et_locked := True\<rparr>) now1 = Some n" by auto
  then show ?thesis using sys_run_top [OF inv lmalloc RTop] by blast
next
  case (RWait n)
  then show ?thesis using sys_run_wait [OF inv lmalloc RWait] by blast
next
  case (RFire l li)
  then show ?thesis
    using sys_run_end [OF _ RFire, of ls0 zs] sys_run_fire [of ls0 s zs] inv
    by (cases xs) blast+
next
  case RDone
  then show ?thesis by (simp add: sys_run_def)
qed

text \<open>\<open>n\<close> steps of the runner, at the same time.\<close>

fun sys_runs :: "(etimer_event lstore \<Rightarrow> addr) \<Rightarrow> timeval \<Rightarrow> bool \<Rightarrow> nat \<Rightarrow> etimer_sys \<Rightarrow> etimer_sys option" where
  "sys_runs lmalloc now ready 0 s = Some s"
| "sys_runs lmalloc now ready (Suc n) s = do {
     s \<leftarrow> sys_run lmalloc now now ready s;
     sys_runs lmalloc now ready n s }"

lemma sys_runs_add:
  "sys_runs lmalloc now ready m s = Some s1 \<Longrightarrow>
   sys_runs lmalloc now ready (m + n) s = sys_runs lmalloc now ready n s1"
proof (induction m arbitrary: s)
  case (Suc m)
  then show ?case by (auto split: bind_splits)
qed simp

abbreviation calls_of :: "etimer_event list \<Rightarrow> etimer_call list" where
  "calls_of es \<equiv> map (\<lambda>e. (e, False)) es"

lemma sys_runs_fire:
  "sys_inv ls0 s zs xs \<Longrightarrow> sy_pc s = RFire l li \<Longrightarrow>
   \<exists>s'. sys_runs lmalloc now ready (length xs + 1) s = Some s' \<and> sys_inv ls0 s' [] [] \<and> sy_pc s' = RTop \<and>
     et_pending (sy_timer s') = et_pending (sy_timer s) \<and> et_run (sy_timer s') = et_run (sy_timer s) \<and>
     sy_calls s' = sy_calls s @ calls_of xs"
proof (induction xs arbitrary: s zs l li)
  case Nil
  then show ?case using sys_run_end [OF Nil, of lmalloc now now ready] by auto
next
  case (Cons x xs)
  obtain s1 l' li' where s1: "sys_run lmalloc now now ready s = Some s1" "sys_inv ls0 s1 (zs @ [x]) xs"
    "sy_pc s1 = RFire l' li'" "sy_timer s1 = sy_timer s" "sy_calls s1 = sy_calls s @ [(x, False)]"
    using sys_run_fire [OF Cons.prems(1)] by blast
  from Cons.IH [OF s1(2,3)] show ?case using s1 by auto
qed

text \<open>The steps through the list are \<open>etimer_events_do\<close>.\<close>

lemma sys_runs_events_do:
  assumes inv: "sys_inv ls0 s [] xs" and pc: "sy_pc s = RFire l li"
  shows "\<exists>s' calls. etimer_events_do (et_lists (sy_timer s)) l False = Some calls \<and>
    sys_runs lmalloc now ready (length xs + 1) s = Some s' \<and> sy_calls s' = sy_calls s @ calls"
proof -
  obtain bs where "temp_list ls0 (et_lists (sy_timer s)) l bs" "xs = map snd bs"
    using inv pc by (auto simp: sys_inv_def)
  then have "etimer_events_do (et_lists (sy_timer s)) l False = Some (calls_of xs)"
    using etimer_events_do_ok [OF temp_list_at] by simp
  then show ?thesis using sys_runs_fire [OF inv pc, of lmalloc now ready] by auto
qed

text \<open>One round of the loop: every event that is due is called.\<close>

definition round_done :: "(etimer_event lstore \<Rightarrow> addr) \<Rightarrow> timeval \<Rightarrow> bool \<Rightarrow> nat \<Rightarrow> etimer_sys \<Rightarrow> bool" where
  "round_done lmalloc now ready k s \<longleftrightarrow>
     (\<exists>n s' ds. n \<le> k + size (et_pending (sy_timer s)) \<and> sys_runs lmalloc now ready n s = Some s' \<and>
       sy_pc s' = RTop \<and> mset ds = filter_mset (is_due now) (et_pending (sy_timer s)) \<and> by_deadline ds \<and>
       sy_calls s' = sy_calls s @ calls_of (sys_to_fire s @ ds))"

lemma due_length: "mset ds = filter_mset P M \<Longrightarrow> length ds \<le> size M"
  by (metis size_filter_mset_lesseq size_mset)

lemma round_mono:
  assumes "round_done lmalloc now ready k s" and "k \<le> k'"
  shows "round_done lmalloc now ready k' s"
proof -
  obtain n s' ds where "n \<le> k + size (et_pending (sy_timer s))"
    "sys_runs lmalloc now ready n s = Some s'" "sy_pc s' = RTop" "by_deadline ds"
    "mset ds = filter_mset (is_due now) (et_pending (sy_timer s))"
    "sy_calls s' = sy_calls s @ calls_of (sys_to_fire s @ ds)"
    using assms(1) unfolding round_done_def by blast
  then show ?thesis
    unfolding round_done_def using assms(2)
    by (intro exI [of _ n] exI [of _ s'] exI [of _ ds]) simp
qed

lemma round_fire:
  assumes "sys_run lmalloc now now ready s = Some s1" and "sys_inv ls0 s1 [] ds" and "sy_pc s1 = RFire l li"
    and "mset ds = filter_mset (is_due now) (et_pending (sy_timer s))" and "by_deadline ds"
    and "sy_calls s1 = sy_calls s" and "sys_to_fire s = []"
  shows "round_done lmalloc now ready 2 s"
proof -
  obtain s' where "sys_runs lmalloc now ready (length ds + 1) s1 = Some s'" "sy_pc s' = RTop"
    "sy_calls s' = sy_calls s1 @ calls_of ds"
    using sys_runs_fire [OF assms(2,3)] by blast
  then show ?thesis
    unfolding round_done_def using assms due_length [OF assms(4)]
    by (intro exI [of _ "Suc (length ds + 1)"] exI [of _ s'] exI [of _ ds]) simp
qed

lemma round_later:
  assumes "sys_runs lmalloc now ready m s = Some s1" and "round_done lmalloc now ready k s1"
    and "et_pending (sy_timer s1) = et_pending (sy_timer s)" and "sys_to_fire s1 = []"
    and "sy_calls s1 = sy_calls s @ calls_of (sys_to_fire s)"
  shows "round_done lmalloc now ready (m + k) s"
proof -
  obtain n s' ds where "n \<le> k + size (et_pending (sy_timer s1))"
    "sys_runs lmalloc now ready n s1 = Some s'" "sy_pc s' = RTop" "by_deadline ds"
    "mset ds = filter_mset (is_due now) (et_pending (sy_timer s1))"
    "sy_calls s' = sy_calls s1 @ calls_of (sys_to_fire s1 @ ds)"
    using assms(2) unfolding round_done_def by blast
  then show ?thesis
    unfolding round_done_def using assms sys_runs_add [OF assms(1), of n]
    by (intro exI [of _ "m + n"] exI [of _ s'] exI [of _ ds]) simp
qed

lemma round_wait:
  assumes "sys_inv ls0 s zs xs" and "lmalloc_ok lmalloc" and "sy_pc s = RWait n" and "et_run (sy_timer s)"
  shows "round_done lmalloc now ready 2 s"
proof -
  obtain s' ds l li where "sys_run lmalloc now now ready s = Some s'" "sys_inv ls0 s' [] ds"
    "sy_calls s' = sy_calls s" "sy_pc s' = RFire l li" "by_deadline ds"
    "mset ds = filter_mset (is_due now) (et_pending (sy_timer s))"
    using sys_run_wait [OF assms(1-3), of now now ready] assms(4) by auto
  then show ?thesis using round_fire assms(3) by (simp add: sys_to_fire_def)
qed

lemma round_top:
  assumes inv: "sys_inv ls0 s zs xs" and lmalloc: "lmalloc_ok lmalloc" and pc: "sy_pc s = RTop"
    and run: "et_run (sy_timer s)"
    and small: "tv_small now" "\<forall>e \<in># et_pending (sy_timer s). tv_small (ee_deadline e)"
  shows "round_done lmalloc now ready 3 s"
proof -
  have "timer_ok ((sy_timer s)\<lparr>et_locked := True\<rparr>)" using inv by (simp add: sys_inv_def)
  from etimer_calc_timeout_ok [OF this small(1)] small(2) obtain n where
    n: "etimer_calc_timeout ((sy_timer s)\<lparr>et_locked := True\<rparr>) now = Some n" by auto
  obtain s' ds where s': "sys_run lmalloc now now ready s = Some s'" "sys_inv ls0 s' [] ds"
    "et_run (sy_timer s')" "sy_calls s' = sy_calls s"
    "if n \<noteq> 0 then sy_pc s' = RWait n \<and> et_pending (sy_timer s') = et_pending (sy_timer s)
     else (\<exists>l li. sy_pc s' = RFire l li) \<and> by_deadline ds \<and>
       mset ds = filter_mset (is_due now) (et_pending (sy_timer s))"
    using sys_run_top [OF inv lmalloc pc n, of now ready] run
    by (cases "n = 0") auto
  have none: "sys_to_fire s = []" using pc by (simp add: sys_to_fire_def)
  show ?thesis
  proof (cases "n = 0")
    case True
    then obtain l li where "sy_pc s' = RFire l li" "by_deadline ds"
      "mset ds = filter_mset (is_due now) (et_pending (sy_timer s))"
      using s'(5) by auto
    then have "round_done lmalloc now ready 2 s" using round_fire [OF s'(1,2)] s'(4) none by simp
    then show ?thesis by (rule round_mono) simp
  next
    case False
    then have wait: "sy_pc s' = RWait n" "et_pending (sy_timer s') = et_pending (sy_timer s)"
      using s'(5) by simp_all
    have "sys_runs lmalloc now ready 1 s = Some s'" using s'(1) by simp
    then have "round_done lmalloc now ready (1 + 2) s"
      by (rule round_later [OF _ round_wait [OF s'(2) lmalloc wait(1) s'(3)] wait(2)])
        (use s'(4) none wait(1) in \<open>simp_all add: sys_to_fire_def\<close>)
    then show ?thesis by (rule round_mono) simp
  qed
qed

lemma round_any:
  assumes inv: "sys_inv ls0 s zs xs" and lmalloc: "lmalloc_ok lmalloc" and pc: "sy_pc s \<noteq> RDone"
    and run: "sy_pc s = RStart \<or> et_run (sy_timer s)"
    and small: "tv_small now" "\<forall>e \<in># et_pending (sy_timer s). tv_small (ee_deadline e)"
  shows "round_done lmalloc now ready (length (sys_to_fire s) + 4) s"
proof (cases "sy_pc s")
  case RStart
  obtain s1 where s1: "sys_run lmalloc now now ready s = Some s1" "sys_inv ls0 s1 [] []"
    "sy_pc s1 = RTop" "et_run (sy_timer s1)" "et_pending (sy_timer s1) = et_pending (sy_timer s)"
    "sy_calls s1 = sy_calls s"
    using sys_run_start [OF inv RStart] by blast
  have "round_done lmalloc now ready 3 s1" by (rule round_top) (use s1 lmalloc small in auto)
  moreover have "sys_runs lmalloc now ready 1 s = Some s1" using s1(1) by simp
  ultimately have "round_done lmalloc now ready (1 + 3) s"
    using s1 RStart by (intro round_later [where ?s1.0 = s1]) (simp_all add: sys_to_fire_def)
  then show ?thesis using RStart by (simp add: sys_to_fire_def)
next
  case RTop
  then have "round_done lmalloc now ready 3 s"
    using round_top [OF inv lmalloc RTop _ small] run by simp
  then show ?thesis by (rule round_mono) simp
next
  case (RWait n)
  then have "round_done lmalloc now ready 2 s" using round_wait [OF inv lmalloc RWait] run by simp
  then show ?thesis by (rule round_mono) simp
next
  case (RFire l li)
  obtain s1 where s1: "sys_runs lmalloc now ready (length xs + 1) s = Some s1" "sys_inv ls0 s1 [] []"
    "sy_pc s1 = RTop" "et_pending (sy_timer s1) = et_pending (sy_timer s)"
    "et_run (sy_timer s1) = et_run (sy_timer s)" "sy_calls s1 = sy_calls s @ calls_of xs"
    using sys_runs_fire [OF inv RFire] by blast
  have xs: "sys_to_fire s = xs" "sys_to_fire s1 = []"
    using sys_inv_lists(2) [OF inv] sys_inv_lists(2) [OF s1(2)] by simp_all
  have "round_done lmalloc now ready 3 s1" by (rule round_top) (use s1 lmalloc small run RFire in auto)
  then have "round_done lmalloc now ready ((length xs + 1) + 3) s"
    using s1 xs by (intro round_later [OF s1(1)]) simp_all
  then show ?thesis using xs by (simp add: algebra_simps)
next
  case RDone
  then show ?thesis using pc by simp
qed

subsection \<open>Signals and timeouts\<close>

text \<open>The timeout for a deadline \<open>d\<close> at the time \<open>now\<close>.\<close>

definition timeout_of :: "timeval \<Rightarrow> timeval \<Rightarrow> int option" where
  "timeout_of d now =
     (if timer_less d now then Some 0
      else do {
        sub \<leftarrow> timer_minus d now;
        ms \<leftarrow> c_long (tv_sec sub * 1000);
        ms \<leftarrow> c_long (ms + c_div (tv_usec sub) 1000);
        ms \<leftarrow> c_long (ms + (if c_mod (tv_usec sub) 1000 \<noteq> 0 then 1 else 0));
        let timeout = to_int ms;
        Some (if timeout < 0 then 0 else timeout) })"

lemma calc_timeout_of:
  "etimer_calc_timeout t now = do {
     event \<leftarrow> heap_min (et_queue t);
     case event of None \<Rightarrow> Some (- 1) | Some e \<Rightarrow> timeout_of (ee_deadline e) now }"
  by (cases "heap_min (et_queue t)") (auto simp: etimer_calc_timeout_def timeout_of_def split: option.splits)

text \<open>
  A runner that waits with nothing in its pipe was not stopped, and its timeout was computed for a
  deadline that is not later than any pending one.
\<close>

definition awake :: "etimer_sys \<Rightarrow> bool" where
  "awake s \<longleftrightarrow>
     (sy_pc s \<noteq> RStart \<and> sy_pc s \<noteq> RDone \<and> et_pipe (sy_timer s) = 0 \<longrightarrow> et_run (sy_timer s)) \<and>
     (\<forall>n. sy_pc s = RWait n \<longrightarrow> et_pipe (sy_timer s) = 0 \<longrightarrow> et_pending (sy_timer s) \<noteq> {#} \<longrightarrow>
       (\<exists>d. timeout_of d (sy_since s) = Some n \<and>
         (\<forall>x \<in># et_pending (sy_timer s). \<not> timer_less (ee_deadline x) d)))"

lemma awake_run:
  assumes inv: "sys_inv ls0 s zs xs" and lmalloc: "lmalloc_ok lmalloc" and awake: "awake s"
    and s': "sys_run lmalloc now1 now2 ready s = Some s'"
  shows "awake s'"
proof (cases "sy_pc s")
  case RStart
  then show ?thesis using sys_run_start [OF inv RStart, of lmalloc now1 now2 ready] s'
    by (auto simp: awake_def)
next
  case RTop
  let ?t = "(sy_timer s)\<lparr>et_locked := True\<rparr>"
  obtain n where n: "etimer_calc_timeout ?t now1 = Some n"
    using s' RTop inv by (auto simp: sys_run_def sys_inv_def etimer_lock_def split: bind_splits)
  show ?thesis
  proof (cases "n = 0")
    case True
    then show ?thesis using sys_run_top [OF inv lmalloc RTop n, of now2 ready] s'
      by (auto simp: awake_def split: if_splits)
  next
    case False
    then have eq: "s' = s\<lparr>sy_timer := (sy_timer s)\<lparr>et_locked := False\<rparr>, sy_pc := RWait n,
        sy_calls := sy_calls s @ [], sy_times := seen now2 (sy_pc s) (RWait n) (sy_times s), sy_since := now1\<rparr>"
      using s' inv RTop n by (simp add: sys_run_def sys_inv_def etimer_lock_def etimer_unlock_def)
    have "timer_ok ?t" using inv by (simp add: sys_inv_def)
    then have "\<exists>d. timeout_of d now1 = Some n \<and>
        (\<forall>x \<in># et_pending (sy_timer s). \<not> timer_less (ee_deadline x) d)"
      if "et_pending (sy_timer s) \<noteq> {#}"
    proof (cases rule: timer_min_cases)
      case none
      then show ?thesis using that by simp
    next
      case (some e q)
      then have "timeout_of (ee_deadline e) now1 = Some n" using n by (simp add: calc_timeout_of)
      then show ?thesis using some(6) by auto
    qed
    then show ?thesis using awake RTop eq by (auto simp: awake_def)
  qed
next
  case (RWait n)
  then show ?thesis using sys_run_wait [OF inv lmalloc RWait, of now1 now2 ready] s'
    by (auto simp: awake_def split: if_splits)
next
  case (RFire l li)
  show ?thesis
  proof (cases xs)
    case Nil
    then show ?thesis
      using sys_run_end [OF _ RFire, of ls0 zs lmalloc now1 now2 ready] inv s' awake RFire Nil
      by (auto simp: awake_def)
  next
    case (Cons x xs')
    then show ?thesis
      using sys_run_fire [of ls0 s zs x xs' lmalloc now1 now2 ready] inv s' awake RFire
      by (auto simp: awake_def)
  qed
next
  case RDone
  then show ?thesis using s' by (auto simp: sys_run_def awake_def)
qed

lemma awake_step:
  assumes inv: "sys_inv ls0 s zs xs" and malloc: "emalloc_ok malloc" and lmalloc: "lmalloc_ok lmalloc"
    and awake: "awake s" and "etimer_step cap malloc lmalloc s s'"
  shows "awake s'"
  using assms(5)
proof (cases rule: etimer_step.cases)
  case run
  then show ?thesis using awake_run [OF inv lmalloc awake] by blast
next
  case again
  then show ?thesis by (auto simp: awake_def)
next
  case (create d cb ud e t)
  then show ?thesis using create_effect(3) [OF inv malloc create(2)] awake by (simp add: awake_def)
next
  case (insert e ref t)
  note eff = insert_effect [OF inv insert(3)]
  show ?thesis
  proof (cases "is_next (sy_timer s) (ee_deadline e)")
    case True
    then show ?thesis using eff insert(1) by (simp add: inserted_def awake_def)
  next
    case False
    then obtain x where "x \<in># et_pending (sy_timer s)" "\<not> timer_less (ee_deadline e) (ee_deadline x)"
      by (auto simp: is_next_def)
    then show ?thesis
      using eff False awake insert(1) unfolding awake_def inserted_def
      by (auto dest: timer_less_le_trans) (metis insert_iff timer_le_less_trans)+
  qed
next
  case (take ref event t)
  from inv take(2) show ?thesis
  proof (cases rule: take_effect)
    case none
    then show ?thesis using awake take(1) by (simp add: awake_def)
  next
    case (some e)
    then show ?thesis using awake take(1) unfolding awake_def by auto
  qed
next
  case (call e)
  then show ?thesis using awake by (simp add: awake_def)
next
  case (release e t)
  then have "t = (sy_timer s)\<lparr>et_events := et_events (sy_timer s) - {ee_ref e}\<rparr>"
    using release_effect [OF inv, of e] by (simp add: sys_clients_def)
  then show ?thesis using awake release(1) by (simp add: awake_def)
next
  case (stop t)
  then show ?thesis using stop_effect [OF inv stop(2)] by (simp add: awake_def)
qed

end
