(* ===== verification/ETimerProps.thy ===== *)
theory ETimerProps
  imports ETimerRun
begin

section \<open>Properties of the timer\<close>

text \<open>
  The properties of timer.c over the step relation of the runner and its clients, and of single
  operations, each with an instance on a timer with two events.
\<close>

subsection \<open>A timer with two events\<close>

definition unused_addr :: "addr set \<Rightarrow> addr" where
  "unused_addr S = (LEAST a. a \<notin> S)"

lemma unused_addr_ok: "emalloc_ok unused_addr"
  unfolding emalloc_ok_def unused_addr_def
  by (metis LeastI ex_new_if_finite infinite_UNIV_nat)

definition no_lists :: "etimer_event lstore" where
  "no_lists = \<lparr>ls_heads = Map.empty, ls_items = Map.empty\<rparr>"

lemma no_lists_fin: "lstore_fin no_lists"
  by (simp add: no_lists_def lstore_fin_def)

definition sample_add :: "timeval \<Rightarrow> addr \<Rightarrow> etimer \<Rightarrow> etimer" where
  "sample_add d cb t = (case etimer_deadline 10 unused_addr t d cb None of Some (_, t) \<Rightarrow> t | None \<Rightarrow> t)"

definition timer1 :: etimer where
  "timer1 = sample_add \<lparr>tv_sec = 10, tv_usec = 500000\<rparr> 7 (etimer_create no_lists)"

definition timer2 :: etimer where
  "timer2 = sample_add \<lparr>tv_sec = 5, tv_usec = 0\<rparr> 8 timer1"

definition event1 :: etimer_event where
  "event1 = \<lparr>ee_ref = 0, ee_deadline = \<lparr>tv_sec = 10, tv_usec = 500000\<rparr>, ee_cb = 7, ee_userdata = None\<rparr>"

definition event2 :: etimer_event where
  "event2 = \<lparr>ee_ref = 1, ee_deadline = \<lparr>tv_sec = 5, tv_usec = 0\<rparr>, ee_cb = 8, ee_userdata = None\<rparr>"

lemma unused_addr_samples: "unused_addr {} = 0" "unused_addr {0} = 1"
  unfolding unused_addr_def by (rule Least_equality; simp)+

lemma sample_add_ok:
  assumes "timer_ok t" and "\<not> et_locked t" and "et_pipe t < 10"
  shows "etimer_deadline 10 unused_addr t d cb None =
      Some (Some (unused_addr (et_events t)), sample_add d cb t)"
    and "added t (new_event unused_addr t d cb None) (sample_add d cb t)"
proof -
  obtain t' where t': "etimer_deadline 10 unused_addr t d cb None = Some (Some (unused_addr (et_events t)), t')"
    "added t (new_event unused_addr t d cb None) t'"
    using etimer_deadline_ok [OF unused_addr_ok assms(1,2), of d 10 cb None] assms(3) by blast
  then have "sample_add d cb t = t'" by (simp add: sample_add_def)
  with t' show "etimer_deadline 10 unused_addr t d cb None =
      Some (Some (unused_addr (et_events t)), sample_add d cb t)"
    and "added t (new_event unused_addr t d cb None) (sample_add d cb t)" by simp_all
qed

lemma timer0_facts:
  "timer_ok (etimer_create no_lists)" "et_pending (etimer_create no_lists) = {#}"
  "\<not> et_locked (etimer_create no_lists)" "et_pipe (etimer_create no_lists) = 0"
  "et_events (etimer_create no_lists) = {}" "\<not> et_run (etimer_create no_lists)"
  "et_lists (etimer_create no_lists) = no_lists"
  using etimer_create_ok [OF no_lists_fin] by (simp_all add: etimer_create_def)

lemma timer1_facts:
  "timer_ok timer1" "et_pending timer1 = {#event1#}" "et_pipe timer1 = 1" "et_events timer1 = {0}"
  "\<not> et_locked timer1" "\<not> et_run timer1" "et_lists timer1 = no_lists"
  "etimer_deadline 10 unused_addr (etimer_create no_lists) \<lparr>tv_sec = 10, tv_usec = 500000\<rparr> 7 None =
     Some (Some 0, timer1)"
  using sample_add_ok [of "etimer_create no_lists" "\<lparr>tv_sec = 10, tv_usec = 500000\<rparr>" 7] timer0_facts
  by (simp_all add: timer1_def added_def is_next_def new_event_def event1_def unused_addr_samples)

lemma timer2_facts:
  "timer_ok timer2" "et_pending timer2 = {#event1, event2#}" "et_pipe timer2 = 2" "et_events timer2 = {0, 1}"
  "\<not> et_locked timer2" "\<not> et_run timer2" "et_lists timer2 = no_lists"
  "etimer_deadline 10 unused_addr timer1 \<lparr>tv_sec = 5, tv_usec = 0\<rparr> 8 None = Some (Some 1, timer2)"
  using sample_add_ok [of timer1 "\<lparr>tv_sec = 5, tv_usec = 0\<rparr>" 8] timer1_facts
  by (auto simp: timer2_def added_def is_next_def new_event_def event1_def event2_def
      unused_addr_samples timer_less_def)

lemma timer2_refs: "refs_exact (et_pending timer2) (et_events timer2)"
  by (simp add: refs_exact_def timer2_facts event1_def event2_def)

definition sample_sys :: etimer_sys where
  "sample_sys = (sys_init no_lists)\<lparr>sy_timer := timer2, sy_added := {#event1, event2#}\<rparr>"

lemma sample_sys_reach: "etimer_reach 10 unused_addr lowest_unused no_lists sample_sys"
proof -
  let ?s1 = "(sys_init no_lists)\<lparr>sy_timer := timer1, sy_added := {#event1#}\<rparr>"
  have "etimer_event_create unused_addr (etimer_create no_lists) \<lparr>tv_sec = 10, tv_usec = 500000\<rparr> 7 None =
      Some (event1, (etimer_create no_lists)\<lparr>et_events := {0}\<rparr>)"
    using etimer_event_create_ok [OF unused_addr_ok timer0_facts(1)] timer0_facts
    by (simp add: new_event_def event1_def unused_addr_samples)
  then have s1: "etimer_reach 10 unused_addr lowest_unused no_lists ?s1"
    using reach_deadline [OF etimer_reach.init, of unused_addr no_lists _ 7 None event1] timer1_facts(8)
    by (simp add: sys_init_def)
  have "etimer_event_create unused_addr timer1 \<lparr>tv_sec = 5, tv_usec = 0\<rparr> 8 None =
      Some (event2, timer1\<lparr>et_events := {1, 0}\<rparr>)"
    using etimer_event_create_ok [OF unused_addr_ok timer1_facts(1)] timer1_facts
    by (simp add: new_event_def event2_def unused_addr_samples)
  then show ?thesis
    using reach_deadline [OF s1, of _ 8 None event2] timer2_facts(8)
    by (simp add: sample_sys_def sys_init_def add_mset_commute)
qed

text \<open>A client has taken event 1 out of the queue and not yet called it; another one has just created one.\<close>

definition event3 :: etimer_event where
  "event3 = \<lparr>ee_ref = 2, ee_deadline = \<lparr>tv_sec = 1, tv_usec = 0\<rparr>, ee_cb = 9, ee_userdata = None\<rparr>"

lemma unused_addr_2: "unused_addr {0, Suc 0} = 2"
  unfolding unused_addr_def by (rule Least_equality) (auto simp: numeral_2_eq_2 Suc_le_eq intro!: Suc_leI)

lemma sample_busy:
  "\<exists>s. etimer_reach 10 unused_addr lowest_unused no_lists s \<and> sy_made s = {#event3#} \<and>
    sy_taken s = {#event1#} \<and> sy_freeing s = {#} \<and> sy_calls s = [] \<and> sy_added s = {#event1, event2#} \<and>
    sys_held s = [] \<and> sys_to_fire s = [] \<and> et_pending (sy_timer s) = {#event2#} \<and> et_events (sy_timer s) = {0, 1, 2} \<and>
    et_pipe (sy_timer s) = 2"
proof -
  let ?t = "timer2\<lparr>et_events := {0, 1, 2}\<rparr>"
  have "etimer_event_create unused_addr timer2 \<lparr>tv_sec = 1, tv_usec = 0\<rparr> 9 None = Some (event3, ?t)"
    using etimer_event_create_ok [OF unused_addr_ok timer2_facts(1)] timer2_facts
    by (auto simp: new_event_def event3_def unused_addr_2 insert_commute)
  then have "etimer_step 10 unused_addr lowest_unused sample_sys
      (sample_sys\<lparr>sy_timer := ?t, sy_made := add_mset event3 (sy_made sample_sys)\<rparr>)"
    by (intro etimer_step.create) (simp add: sample_sys_def sys_init_def)
  then have s1: "etimer_reach 10 unused_addr lowest_unused no_lists
      (sample_sys\<lparr>sy_timer := ?t, sy_made := {#event3#}\<rparr>)"
    using etimer_reach.step [OF sample_sys_reach] by (simp add: sample_sys_def sys_init_def)
  have refs: "refs_exact (et_pending ?t + {#event3#}) (et_events ?t)"
    by (simp add: refs_exact_def timer2_facts event1_def event2_def event3_def insert_commute add_mset_commute)
  have "timer_ok ?t" using timer2_facts(1) by (simp add: timer_ok_def)
  from cancel_take_found [OF this _ _ refs, of event1] obtain t where
    t: "etimer_cancel_take ?t (Some 0) = Some (Some event1, t)" "et_pending t = {#event2#}"
    "et_events t = {0, 1, 2}" "et_pipe t = 2"
    using timer2_facts by (auto simp: event1_def)
  from etimer_reach.step [OF s1 etimer_step.take [of _ "Some 0" "Some event1" t]] t(1)
  have "etimer_reach 10 unused_addr lowest_unused no_lists
      (sample_sys\<lparr>sy_timer := t, sy_made := {#event3#}, sy_taken := {#event1#}\<rparr>)"
    by (simp add: sample_sys_def sys_init_def)
  then show ?thesis
    using t by (intro exI [of _ "sample_sys\<lparr>sy_timer := t, sy_made := {#event3#}, sy_taken := {#event1#}\<rparr>"])
      (simp add: sample_sys_def sys_init_def sys_held_def sys_to_fire_def)
qed

lemma sample_sys_facts [simp]:
  "sy_timer sample_sys = timer2" "sy_pc sample_sys = RStart" "sy_calls sample_sys = []"
  "sys_to_fire sample_sys = []" "sys_held sample_sys = []" "sy_added sample_sys = {#event1, event2#}"
  "sy_taken sample_sys = {#}"
  by (simp_all add: sample_sys_def sys_init_def sys_to_fire_def sys_held_def)

lemma sample_times: "tv_small \<lparr>tv_sec = 7, tv_usec = 3\<rparr>" "tv_small (ee_deadline event1)" "tv_small (ee_deadline event2)"
  by (simp_all add: tv_small_def event1_def event2_def)

subsection \<open>The system\<close>

text \<open>
  C20: In every state that the runner, its clients and its callbacks can reach, with their critical
  sections, callbacks, allocations and releases in any order: every event that was inserted is either
  still in the queue, or in the list of the runner and not called yet, or taken out by
  \<open>etimer_cancel\<close> and not called yet, or has been called, and exactly one of these, once (as multisets).
  The allocated events are exactly those in the queue, in the list of the runner, and in the hands of a
  client that is adding or cancelling them, at different addresses. An event is called without the
  flag \<open>canceled\<close> only after the runner has read a time that \<open>timercmp\<close> puts behind its deadline; if the
  microseconds of both are below a million, that time is really later than the deadline (for the
  deadlines of \<open>etimer_mafter\<close>, which need not be so, see C27).
\<close>

theorem etimer_conserves_events:
  assumes "emalloc_ok malloc" and "lmalloc_ok lmalloc" and "lstore_fin ls"
    and "etimer_reach cap malloc lmalloc ls s"
  shows "sy_added s = et_pending (sy_timer s) + mset (sys_to_fire s) + sy_taken s + mset (map fst (sy_calls s)) \<and>
    image_mset ee_ref (et_pending (sy_timer s) + mset (sys_held s) + sy_made s + sy_taken s + sy_freeing s) =
      mset_set (et_events (sy_timer s)) \<and>
    (\<forall>e. (e, False) \<in> set (sy_calls s) \<longrightarrow>
       (\<exists>now \<in> sy_times s. timer_less (ee_deadline e) now \<and>
          (tv_normal (ee_deadline e) \<and> tv_normal now \<longrightarrow> micros (ee_deadline e) < micros now)))"
proof -
  obtain zs xs where inv: "sys_inv ls s zs xs" using reach_inv [OF assms(1-3) assms(4)] by blast
  have "image_mset ee_ref (et_pending (sy_timer s) + mset (sys_held s) + sy_made s + sy_taken s + sy_freeing s) =
      mset_set (et_events (sy_timer s))"
    using sys_inv_lists [OF inv] sys_inv_refs [OF inv] by (simp add: refs_exact_def sys_clients_def ac_simps)
  moreover have "\<exists>now \<in> sy_times s. timer_less (ee_deadline e) now \<and>
      (tv_normal (ee_deadline e) \<and> tv_normal now \<longrightarrow> micros (ee_deadline e) < micros now)"
    if "(e, False) \<in> set (sy_calls s)" for e
    using inv that timer_less_micros unfolding sys_inv_def seen_due_def is_due_def by blast
  ultimately show ?thesis
    using inv sys_inv_lists [OF inv] by (simp add: sys_inv_def)
qed

theorem etimer_conserves_events_witness:
  "\<exists>s :: etimer_sys. sy_taken s = {#event1#} \<and> sy_made s = {#event3#} \<and>
     et_pending (sy_timer s) = {#event2#} \<and> sy_added s = {#event1, event2#} \<and>
     image_mset ee_ref {#event2, event3, event1#} = mset_set {0, 1, 2}"
proof -
  obtain s where s: "etimer_reach 10 unused_addr lowest_unused no_lists s" "sy_made s = {#event3#}"
    "sy_taken s = {#event1#}" "sy_freeing s = {#}" "sy_calls s = []" "sy_added s = {#event1, event2#}"
    "sys_held s = []" "et_pending (sy_timer s) = {#event2#}" "et_events (sy_timer s) = {0, 1, 2}"
    using sample_busy by blast
  then have "image_mset ee_ref {#event2, event3, event1#} = mset_set {0, 1, 2}"
    using etimer_conserves_events [OF unused_addr_ok lowest_unused_ok no_lists_fin s(1)]
    by (simp add: add_mset_commute)
  then show ?thesis using s by blast
qed

text \<open>
  C21: Every reachable state is well formed: the queue is a heap, the lock is free between the critical
  sections, and unless the runner holds a list the memory of the lists is what it was. With times far from
  the limits of their fields, whatever happens next is defined, unless a thread writes to a full
  pipe: the runner never runs into undefined behaviour; \<open>etimer_cancel\<close> returns for any
  reference, stale ones included, whether it runs through or is interrupted between taking the
  event out and freeing it; creating an event is defined. Inserting an event hangs exactly if the event
  is the next one and the pipe is full, and \<open>etimer_stop\<close> hangs exactly if the pipe is full: then the
  caller waits in \<open>write\<close> and holds the lock that the reader of the pipe needs.
\<close>

theorem etimer_reachable_safe:
  assumes "emalloc_ok malloc" and "lmalloc_ok lmalloc" and "lstore_fin ls"
    and "etimer_reach cap malloc lmalloc ls s"
    and "tv_small now1" and "\<forall>e \<in># sy_added s. tv_small (ee_deadline e)"
  shows "heap_queue etimer_event_cmp (et_queue (sy_timer s)) \<and> \<not> et_locked (sy_timer s) \<and>
    ((\<forall>l li. sy_pc s \<noteq> RFire l li) \<longrightarrow> et_lists (sy_timer s) = ls) \<and>
    sys_run lmalloc now1 now2 ready s \<noteq> None \<and>
    etimer_cancel (sy_timer s) ref \<noteq> None \<and> etimer_cancel_take (sy_timer s) ref \<noteq> None \<and>
    (\<forall>e \<in># sy_freeing s. etimer_event_destructor (sy_timer s) e \<noteq> None) \<and>
    etimer_event_create malloc (sy_timer s) d cb ud \<noteq> None \<and>
    (\<forall>e \<in># sy_made s. etimer_insert cap (sy_timer s) e = None \<longleftrightarrow>
       is_next (sy_timer s) (ee_deadline e) \<and> \<not> et_pipe (sy_timer s) < cap) \<and>
    (etimer_deadline cap malloc (sy_timer s) d cb ud = None \<longleftrightarrow>
     is_next (sy_timer s) d \<and> \<not> et_pipe (sy_timer s) < cap) \<and>
    (etimer_stop cap (sy_timer s) = None \<longleftrightarrow> \<not> et_pipe (sy_timer s) < cap)"
proof -
  let ?t = "sy_timer s"
  obtain zs xs where inv: "sys_inv ls s zs xs" using reach_inv [OF assms(1-3) assms(4)] by blast
  then have ok: "timer_ok ?t" "\<not> et_locked ?t" and at: "run_at ls (et_lists ?t) (sy_pc s) zs xs"
    by (simp_all add: sys_inv_def)
  note refs = sys_inv_refs [OF inv]
  have "\<forall>e \<in># et_pending ?t. tv_small (ee_deadline e)" using assms(6) inv by (auto simp: sys_inv_def)
  from sys_run_defined [OF inv assms(2,5) this] have "sys_run lmalloc now1 now2 ready s \<noteq> None" by auto
  moreover have cancel: "etimer_cancel ?t ref \<noteq> None"
    using etimer_cancel_found [OF ok _ refs] etimer_cancel_none [OF ok, of ref]
    by (metis option.distinct(1))
  moreover have "etimer_cancel_take ?t ref \<noteq> None"
    using cancel by (cases "etimer_cancel_take ?t ref") (auto simp: etimer_cancel_def)
  moreover have "\<forall>e \<in># sy_freeing s. etimer_event_destructor ?t e \<noteq> None"
    using release_effect [OF inv] by (simp add: sys_clients_def)
  moreover have "etimer_event_create malloc ?t d cb ud \<noteq> None"
    using etimer_event_create_ok [OF assms(1) ok(1)] by simp
  moreover have "etimer_deadline cap malloc ?t d cb ud = None \<longleftrightarrow> is_next ?t d \<and> \<not> et_pipe ?t < cap"
    using etimer_deadline_ok [OF assms(1) ok, of d cap cb ud] etimer_deadline_blocks [OF assms(1) ok, of d cap cb ud]
    by (metis option.distinct(1))
  moreover have "etimer_stop cap ?t = None \<longleftrightarrow> \<not> et_pipe ?t < cap"
    using ok(2) by (auto simp: etimer_stop_def etimer_lock_def etimer_signal_def etimer_unlock_def)
  moreover have "(\<forall>l li. sy_pc s \<noteq> RFire l li) \<longrightarrow> et_lists ?t = ls"
    using at by (cases "sy_pc s") auto
  ultimately show ?thesis using ok timer_ok_queue etimer_insert_None_iff [OF ok] by blast
qed

text \<open>With room in the pipe nothing hangs.\<close>

theorem etimer_reachable_safe_witness:
  "etimer_cancel timer2 (Some 99) \<noteq> None \<and> etimer_stop 10 timer2 \<noteq> None \<and>
   etimer_deadline 10 unused_addr timer2 \<lparr>tv_sec = 1, tv_usec = 0\<rparr> 9 None \<noteq> None"
  using etimer_reachable_safe [OF unused_addr_ok lowest_unused_ok no_lists_fin sample_sys_reach sample_times(1),
      of _ _ "Some 99" "\<lparr>tv_sec = 1, tv_usec = 0\<rparr>" 9 None] sample_times
  by (simp add: timer2_facts)

text \<open>
  C22: No wakeup is lost. Whenever the runner is in its wait and its pipe is empty, it has not been
  stopped, and if events are pending, it sleeps for a timeout that was computed for a deadline not later
  than any of theirs. Events are added and cancelled, and the runner is stopped, at any time before.
\<close>

theorem etimer_no_lost_wakeup:
  assumes "emalloc_ok malloc" and "lmalloc_ok lmalloc" and "lstore_fin ls"
    and "etimer_reach cap malloc lmalloc ls s"
    and "sy_pc s = RWait n" and "et_pipe (sy_timer s) = 0"
  shows "et_run (sy_timer s) \<and> (et_pending (sy_timer s) \<noteq> {#} \<longrightarrow>
    (\<exists>d. timeout_of d (sy_since s) = Some n \<and>
      (\<forall>e \<in># et_pending (sy_timer s). \<not> timer_less (ee_deadline e) d)))"
proof -
  have "awake s" using assms(4)
  proof (induction rule: etimer_reach.induct)
    case init
    then show ?case by (simp add: awake_def sys_init_def)
  next
    case (step s s')
    then show ?case using awake_step [OF _ assms(1,2)] reach_inv [OF assms(1-3)] by blast
  qed
  then show ?thesis using assms(5,6) by (simp add: awake_def)
qed

lemma sys_run_added:
  "sys_run lmalloc now1 now2 ready s = Some s' \<Longrightarrow> sy_added s' = sy_added s \<and> sy_taken s' = sy_taken s"
  by (auto simp: sys_run_def split: bind_splits)

lemma sys_inv_pending:
  "sys_inv ls s zs [] \<Longrightarrow> sy_calls s = [] \<Longrightarrow> sy_taken s = {#} \<Longrightarrow> et_pending (sy_timer s) = sy_added s"
  by (simp add: sys_inv_def)

text \<open>From the top of its loop, at one second, the sample runner goes to wait for four seconds.\<close>

abbreviation now1s :: timeval where
  "now1s \<equiv> \<lparr>tv_sec = 1, tv_usec = 0\<rparr>"

lemma sample_top:
  assumes "sys_inv no_lists s zs xs" and "sy_pc s = RTop" and "et_pending (sy_timer s) = {#event1, event2#}"
  shows "\<exists>s'. sys_run lowest_unused now1s now1s ready s = Some s' \<and> sys_inv no_lists s' [] [] \<and>
    sy_pc s' = RWait 4000 \<and> et_pipe (sy_timer s') = et_pipe (sy_timer s) \<and>
    et_run (sy_timer s') = et_run (sy_timer s) \<and> sy_calls s' = sy_calls s \<and>
    et_pending (sy_timer s') = {#event1, event2#}"
proof -
  let ?t = "(sy_timer s)\<lparr>et_locked := True\<rparr>"
  have ok: "timer_ok ?t" using assms(1) by (simp add: sys_inv_def)
  have "etimer_calc_timeout ?t now1s = Some (max 0 (to_int (wait_ms (ee_deadline event2) now1s)))"
    by (rule etimer_calc_timeout_exact [OF ok])
      (use assms(3) in \<open>auto simp: event1_def event2_def tv_small_def tv_normal_def is_due_def timer_less_def\<close>)
  moreover have "wait_ms (ee_deadline event2) now1s = 4000"
    by (simp add: wait_ms_def micros_def event2_def)
  ultimately have n: "etimer_calc_timeout ?t now1s = Some 4000" by simp
  obtain s' ds where s': "sys_run lowest_unused now1s now1s ready s = Some s'" "sys_inv no_lists s' [] ds"
    "sy_pc s' = RWait 4000" "et_pipe (sy_timer s') = et_pipe (sy_timer s)"
    "et_run (sy_timer s') = et_run (sy_timer s)" "sy_calls s' = sy_calls s"
    "et_pending (sy_timer s') = {#event1, event2#}"
    using sys_run_top [OF assms(1) lowest_unused_ok assms(2) n, of now1s ready] assms(3) by auto
  moreover have "ds = []" using s'(2,3) by (simp add: sys_inv_def)
  ultimately show ?thesis by blast
qed

lemma sample_waits:
  "\<exists>s. etimer_reach 10 unused_addr lowest_unused no_lists s \<and> sy_pc s = RWait 4000 \<and>
    et_pipe (sy_timer s) = 0 \<and> et_pending (sy_timer s) = {#event1, event2#}"
proof -
  note step = etimer_reach.step [OF _ etimer_step.run]
  obtain zs xs where inv: "sys_inv no_lists sample_sys zs xs"
    using reach_inv [OF unused_addr_ok lowest_unused_ok no_lists_fin sample_sys_reach] by blast
  obtain s1 where s1: "sys_run lowest_unused now1s now1s True sample_sys = Some s1"
    "sys_inv no_lists s1 [] []" "sy_pc s1 = RTop" "et_run (sy_timer s1)"
    "et_pending (sy_timer s1) = {#event1, event2#}" "sy_calls s1 = []"
    using sys_run_start [OF inv, of lowest_unused now1s now1s True] by (auto simp: timer2_facts)
  obtain s2 where s2: "sys_run lowest_unused now1s now1s True s1 = Some s2" "sys_inv no_lists s2 [] []"
    "sy_pc s2 = RWait 4000" "et_run (sy_timer s2)" "sy_calls s2 = []"
    "et_pending (sy_timer s2) = {#event1, event2#}"
    using sample_top [OF s1(2,3,5)] s1(4,6) by auto
  obtain s3 ds l li where s3: "sys_run lowest_unused now1s now1s True s2 = Some s3"
    "sys_inv no_lists s3 [] ds" "sy_pc s3 = RFire l li" "et_pipe (sy_timer s3) = 0" "sy_calls s3 = []"
    "mset ds = filter_mset (is_due now1s) {#event1, event2#}"
    using sys_run_wait [OF s2(2) lowest_unused_ok s2(3), of now1s now1s True] s2(4-6) by auto
  have "ds = []" using s3(6) by (simp add: is_due_def timer_less_def event1_def event2_def)
  then have inv3: "sys_inv no_lists s3 [] []" using s3(2) by simp
  have pend: "et_pending (sy_timer s3) = {#event1, event2#}"
    using sys_inv_pending [OF inv3 s3(5)] sys_run_added [OF s1(1)] sys_run_added [OF s2(1)]
      sys_run_added [OF s3(1)] by simp
  obtain s4 where s4: "sys_run lowest_unused now1s now1s True s3 = Some s4" "sys_inv no_lists s4 [] []"
    "sy_pc s4 = RTop" "et_pending (sy_timer s4) = {#event1, event2#}" "et_pipe (sy_timer s4) = 0"
    using sys_run_end [OF inv3 s3(3), of lowest_unused now1s now1s True] pend s3(4) by auto
  obtain s5 where "sys_run lowest_unused now1s now1s True s4 = Some s5" "sy_pc s5 = RWait 4000"
    "et_pipe (sy_timer s5) = 0" "et_pending (sy_timer s5) = {#event1, event2#}"
    using sample_top [OF s4(2-4)] s4(5) by auto
  moreover from this(1) have "etimer_reach 10 unused_addr lowest_unused no_lists s5"
    by (rule step [OF step [OF step [OF step [OF step [OF sample_sys_reach s1(1)] s2(1)] s3(1)] s4(1)]])
  ultimately show ?thesis by blast
qed

theorem etimer_no_lost_wakeup_witness:
  "\<exists>(s :: etimer_sys) d. sy_pc s = RWait 4000 \<and> et_pending (sy_timer s) = {#event1, event2#} \<and> et_run (sy_timer s) \<and>
     timeout_of d (sy_since s) = Some 4000 \<and> \<not> timer_less (ee_deadline event2) d"
proof -
  obtain s where s: "etimer_reach 10 unused_addr lowest_unused no_lists s" "sy_pc s = RWait 4000"
    "et_pipe (sy_timer s) = 0" "et_pending (sy_timer s) = {#event1, event2#}"
    using sample_waits by blast
  from etimer_no_lost_wakeup [OF unused_addr_ok lowest_unused_ok no_lists_fin s(1-3)] s(4) obtain d where
    "et_run (sy_timer s)" "timeout_of d (sy_since s) = Some 4000" "\<not> timer_less (ee_deadline event2) d"
    by auto
  then show ?thesis using s by (intro exI [of _ s] exI [of _ d]) simp
qed

text \<open>
  C23: Liveness. Let the runner not be stopped, wherever it is in its loop, with the clock at \<open>now\<close>. In
  at most four steps more than there are events it has called every event whose deadline has passed,
  first what is left in its list and then the due events of the queue in the order of their
  deadlines, each once, and is back at the top of its loop.
\<close>

theorem etimer_calls_due_events:
  assumes "emalloc_ok malloc" and "lmalloc_ok lmalloc" and "lstore_fin ls"
    and "etimer_reach cap malloc lmalloc ls s"
    and "sy_pc s \<noteq> RDone" and "sy_pc s = RStart \<or> et_run (sy_timer s)"
    and "tv_small now" and "\<forall>e \<in># sy_added s. tv_small (ee_deadline e)"
  shows "\<exists>n s' ds. n \<le> size (et_pending (sy_timer s)) + length (sys_to_fire s) + 4 \<and>
    sys_runs lmalloc now ready n s = Some s' \<and> sy_pc s' = RTop \<and>
    mset ds = filter_mset (is_due now) (et_pending (sy_timer s)) \<and> by_deadline ds \<and>
    sy_calls s' = sy_calls s @ map (\<lambda>e. (e, False)) (sys_to_fire s @ ds)"
proof -
  obtain zs xs where inv: "sys_inv ls s zs xs" using reach_inv [OF assms(1-3) assms(4)] by blast
  have "\<forall>e \<in># et_pending (sy_timer s). tv_small (ee_deadline e)"
    using assms(8) inv by (auto simp: sys_inv_def)
  from round_any [OF inv assms(2,5,6,7) this, of ready] obtain n s' ds where
    "n \<le> length (sys_to_fire s) + 4 + size (et_pending (sy_timer s))"
    "sys_runs lmalloc now ready n s = Some s'" "sy_pc s' = RTop" "by_deadline ds"
    "mset ds = filter_mset (is_due now) (et_pending (sy_timer s))"
    "sy_calls s' = sy_calls s @ calls_of (sys_to_fire s @ ds)"
    unfolding round_done_def by blast
  then show ?thesis by (intro exI [of _ n] exI [of _ s'] exI [of _ ds]) simp
qed

theorem etimer_calls_due_events_witness:
  "\<exists>n s'. sys_runs lowest_unused \<lparr>tv_sec = 7, tv_usec = 3\<rparr> False n sample_sys = Some s' \<and>
    sy_calls s' = [(event2, False)]"
proof -
  have "filter_mset (is_due \<lparr>tv_sec = 7, tv_usec = 3\<rparr>) {#event1, event2#} = {#event2#}"
    by (simp add: is_due_def timer_less_def event1_def event2_def)
  then show ?thesis
    using etimer_calls_due_events [OF unused_addr_ok lowest_unused_ok no_lists_fin sample_sys_reach _ _
        sample_times(1), of False] sample_times
    by (fastforce simp: timer2_facts)
qed

subsection \<open>Single operations\<close>

text \<open>
  C24: The operations of the clients on a well-formed timer. Adding an event adds exactly it, at a
  fresh address that is its reference, and writes to the pipe exactly when no pending event is as
  early; cancelling a reference takes exactly that event out, calls it with the flag
  \<open>canceled\<close> and frees it; a reference that is not pending gives \<open>NULL\<close> and changes nothing;
  \<open>etimer_empty\<close> answers whether events are pending; \<open>etimer_stop\<close> clears the flag and writes to the
  pipe. \<open>etimer_after\<close> adds the event for exactly \<open>sec\<close> seconds later.
\<close>

theorem etimer_clients_correct:
  assumes "emalloc_ok malloc" and "timer_ok t" and "\<not> et_locked t"
    and "refs_exact (et_pending t + M) (et_events t)" and "et_pipe t < cap"
    and "tv_small now" and "tv_normal now" and "\<bar>sec\<bar> \<le> 1000000000000000"
  shows "(\<exists>t'. etimer_deadline cap malloc t d cb ud = Some (Some (malloc (et_events t)), t') \<and>
      added t \<lparr>ee_ref = malloc (et_events t), ee_deadline = d, ee_cb = cb, ee_userdata = ud\<rparr> t') \<and>
    (\<forall>e \<in># et_pending t. \<exists>t'. etimer_cancel t (Some (ee_ref e)) = Some (Some (ee_ref e), t', [(e, True)]) \<and>
      timer_ok t' \<and> et_pending t = add_mset e (et_pending t') \<and> et_events t' = et_events t - {ee_ref e}) \<and>
    (\<forall>ref. (\<forall>e \<in># et_pending t. Some (ee_ref e) \<noteq> ref) \<longrightarrow> etimer_cancel t ref = Some (None, t, [])) \<and>
    etimer_empty t = Some (et_pending t = {#}, t) \<and>
    etimer_stop cap t = Some (t\<lparr>et_run := False, et_pipe := et_pipe t + 1\<rparr>) \<and>
    (\<exists>d'. etimer_after cap malloc now t sec cb ud = etimer_deadline cap malloc t d' cb ud \<and>
      tv_normal d' \<and> micros d' = micros now + sec * 1000000)"
proof -
  have "tv_small \<lparr>tv_sec = sec, tv_usec = 0\<rparr>" using assms(8) by (simp add: tv_small_def)
  from timer_plus_ok [OF assms(6) this] obtain d' where
    "timer_plus now \<lparr>tv_sec = sec, tv_usec = 0\<rparr> = Some d'" "micros d' = micros now + sec * 1000000"
    "tv_normal d'"
    using assms(7) by (auto simp: micros_def tv_normal_def)
  moreover have "\<exists>t'. etimer_cancel t (Some (ee_ref e)) = Some (Some (ee_ref e), t', [(e, True)]) \<and>
      timer_ok t' \<and> et_pending t = add_mset e (et_pending t') \<and> et_events t' = et_events t - {ee_ref e}"
    if "e \<in># et_pending t" for e
    using etimer_cancel_found [OF assms(2,3) that assms(4)] by auto
  ultimately show ?thesis
    using etimer_deadline_ok [OF assms(1-3), of d cap cb ud] etimer_cancel_none [OF assms(2,3)] etimer_empty_ok [OF assms(2,3)] etimer_stop_ok [OF assms(3,5)]
      assms(5)
    unfolding new_event_def by (auto simp: etimer_after_eq)
qed

theorem etimer_clients_correct_witness:
  "(\<exists>t'. etimer_cancel timer2 (Some 0) = Some (Some 0, t', [(event1, True)]) \<and> et_pending t' = {#event2#}) \<and>
   etimer_cancel timer2 (Some 2) = Some (None, timer2, [])"
proof -
  have "refs_exact (et_pending timer2 + {#}) (et_events timer2)" using timer2_refs by simp
  from etimer_clients_correct [OF unused_addr_ok timer2_facts(1,5) this, of 10 now1s 3 now1s 7 None]
  have c: "(\<forall>e \<in># et_pending timer2. \<exists>t'. etimer_cancel timer2 (Some (ee_ref e)) = Some (Some (ee_ref e), t', [(e, True)]) \<and>
      timer_ok t' \<and> et_pending timer2 = add_mset e (et_pending t') \<and> et_events t' = et_events timer2 - {ee_ref e}) \<and>
    (\<forall>ref. (\<forall>e \<in># et_pending timer2. Some (ee_ref e) \<noteq> ref) \<longrightarrow> etimer_cancel timer2 ref = Some (None, timer2, []))"
    by (simp add: timer2_facts tv_small_def tv_normal_def)
  have "ee_ref event1 = 0" "ee_ref event2 = 1" by (simp_all add: event1_def event2_def)
  then show ?thesis using c by (auto simp: timer2_facts)
qed

text \<open>
  C25: \<open>etimer_destroy\<close> calls every pending event, in the order of the deadlines, with the flag
  \<open>canceled\<close>, frees all of them and leaves the memory of the lists as it was: nothing is leaked.
\<close>

theorem etimer_destroy_releases_all:
  assumes "lmalloc_ok lmalloc" and "timer_ok t" and "\<not> et_locked t"
    and "refs_exact (et_pending t) (et_events t)"
  shows "\<exists>es. etimer_destroy lmalloc t = Some ({}, et_lists t, map (\<lambda>e. (e, True)) es) \<and>
    mset es = et_pending t \<and> by_deadline es"
  by (rule etimer_destroy_ok [OF assms])

theorem etimer_destroy_releases_all_witness:
  "etimer_destroy lowest_unused timer2 = Some ({}, no_lists, [(event2, True), (event1, True)])"
proof -
  obtain es where es: "etimer_destroy lowest_unused timer2 = Some ({}, no_lists, map (\<lambda>e. (e, True)) es)"
    "mset es = {#event1, event2#}" "by_deadline es"
    using etimer_destroy_releases_all [OF lowest_unused_ok timer2_facts(1,5) timer2_refs]
    by (auto simp: timer2_facts)
  then have "length es = 2" by (metis size_mset size_add_mset size_single one_add_one Suc_1)
  then obtain a b where ab: "es = [a, b]" by (auto simp: length_Suc_conv numeral_2_eq_2)
  have "set es = {event1, event2}" using es(2) by (metis set_mset_mset set_mset_add_mset_insert set_mset_single)
  moreover have "\<not> by_deadline [event1, event2]" "event1 \<noteq> event2"
    by (simp_all add: by_deadline_def less_eq_timeval_ext_def event1_def event2_def)
  ultimately have "es = [event2, event1]"
    using es(3) ab by (auto simp: doubleton_eq_iff)
  then show ?thesis using es(1) by simp
qed

text \<open>
  C26: The timeout of the wait. For a next deadline less than \<open>2 ^ 31\<close> milliseconds away it is the
  remaining time, rounded up by less than a millisecond, so the runner does not wake up too early or more than
  a millisecond late. Between \<open>2 ^ 31\<close> and \<open>2 ^ 32\<close> milliseconds (25 to 50 days) the conversion to
  \<open>int\<close> makes it zero, and the runner spins.
\<close>

theorem etimer_timeout_bounds:
  assumes "timer_ok t" and "tv_small now" and "tv_normal now"
    and "e \<in># et_pending t" and "\<forall>x \<in># et_pending t. \<not> timer_less (ee_deadline x) (ee_deadline e)"
    and "tv_small (ee_deadline e)" and "tv_normal (ee_deadline e)" and "\<not> timer_less (ee_deadline e) now"
    and "micros (ee_deadline e) - micros now \<le> 4294967296000"
  shows "\<exists>n. etimer_calc_timeout t now = Some n \<and>
    (if micros (ee_deadline e) - micros now \<le> 2147483647000
     then micros (ee_deadline e) \<le> micros now + n * 1000 \<and> micros now + n * 1000 < micros (ee_deadline e) + 1000
     else n = 0)"
proof -
  let ?w = "wait_ms (ee_deadline e) now"
  have eq: "etimer_calc_timeout t now = Some (max 0 (to_int ?w))"
    by (rule etimer_calc_timeout_exact [OF assms(1-7)]) (use assms(8) in \<open>simp add: is_due_def\<close>)
  have pos: "micros now \<le> micros (ee_deadline e)"
    using assms(3,7,8) by (simp add: timer_less_micros)
  note w = wait_ms_bounds [of "ee_deadline e" now]
  show ?thesis
  proof (cases "micros (ee_deadline e) - micros now \<le> 2147483647000")
    case True
    then have "0 \<le> ?w" "?w < 2147483648" using w pos by linarith+
    then show ?thesis using eq True w by (simp add: max_def)
  next
    case False
    then have b: "2147483648 \<le> ?w" "?w \<le> 4294967296" using w assms(9) by linarith+
    have "to_int ?w \<le> 0"
    proof -
      have "(?w + 2147483648) mod 4294967296 = ?w - 2147483648 \<or> ?w = 4294967296"
        using b mod_pos_pos_trivial [of "?w - 2147483648" 4294967296] minus_mod_self2 [of "?w + 2147483648" 4294967296]
        by (cases "?w = 4294967296") simp_all
      then show ?thesis using b unfolding to_int_def by auto
    qed
    then show ?thesis using eq False by (simp add: max_def)
  qed
qed

theorem etimer_timeout_bounds_witness: "etimer_calc_timeout timer1 now1s = Some 9500"
proof -
  from etimer_timeout_bounds [of timer1 now1s event1] obtain n where n: "etimer_calc_timeout timer1 now1s = Some n"
    "10500000 \<le> 1000000 + n * 1000" "1000000 + n * 1000 < 10501000"
    by (auto simp: timer1_facts tv_small_def tv_normal_def event1_def timer_less_def micros_def)
  then have "n = 9500" by linarith
  then show ?thesis using n by simp
qed

text \<open>
  C27: \<open>etimer_mafter\<close> does not keep the microseconds of a deadline below a million, so the
  comparison of deadlines, seconds first, puts the event too early: although its fields add up to the
  right instant, for any number of milliseconds the event counts as due as soon as the seconds of
  the clock have advanced by two.
\<close>

theorem etimer_mafter_fires_early:
  assumes "emalloc_ok malloc" and "timer_ok t" and "\<not> et_locked t" and "et_pipe t < cap"
    and "tv_small now" and "tv_normal now" and "0 \<le> msec" and "msec \<le> 1000000000000000"
    and "tv_sec now + 2 \<le> tv_sec later"
  shows "\<exists>ref e t'. etimer_mafter cap malloc now t msec cb ud = Some (Some ref, t') \<and>
    e \<in># et_pending t' \<and> ee_ref e = ref \<and> micros (ee_deadline e) = micros now + msec * 1000 \<and>
    is_due later e"
proof -
  have u: "c_long (msec * 1000) = Some (msec * 1000)" by (rule c_long_id) (use assms(7,8) in linarith)+
  have "tv_small \<lparr>tv_sec = 0, tv_usec = msec * 1000\<rparr>" using assms(7,8) by (simp add: tv_small_def)
  from timer_plus_ok [OF assms(5) this] obtain d where d:
    "timer_plus now \<lparr>tv_sec = 0, tv_usec = msec * 1000\<rparr> = Some d" "micros d = micros now + msec * 1000"
    "tv_sec d \<le> tv_sec now + 1"
    by (auto simp: micros_def)
  obtain t' where t': "etimer_deadline cap malloc t d cb ud = Some (Some (malloc (et_events t)), t')"
    "added t (new_event malloc t d cb ud) t'"
    using etimer_deadline_ok [OF assms(1-3), of d cap cb ud] assms(4) by blast
  have "timer_less d later" using d(3) assms(9) by (simp add: timer_less_def)
  then show ?thesis
    using t' d u
    by (intro exI [of _ "malloc (et_events t)"] exI [of _ "new_event malloc t d cb ud"] exI [of _ t'])
      (simp add: etimer_mafter_eq added_def is_due_def)
qed

theorem etimer_mafter_fires_early_witness:
  "\<exists>ref e t'. etimer_mafter 10 unused_addr now1s timer2 3600000 7 None = Some (Some ref, t') \<and>
    e \<in># et_pending t' \<and> micros (ee_deadline e) = 3601000000 \<and>
    is_due \<lparr>tv_sec = 3, tv_usec = 0\<rparr> e"
  using etimer_mafter_fires_early [OF unused_addr_ok timer2_facts(1,5), of 10 now1s 3600000
      "\<lparr>tv_sec = 3, tv_usec = 0\<rparr>" 7 None]
  by (fastforce simp: timer2_facts tv_small_def tv_normal_def micros_def)

end
