(* ===== verification/AddrWatch.thy ===== *)
theory AddrWatch
  imports TailQueueSeq SysTime
begin

section \<open>The address watcher (addrwatch.c)\<close>

text \<open>
  A watcher keeps the addresses it watches in a list of list.c, as pointers to items that hold the address
  and the state it was last seen in. The model holds the items, the memory of the lists and the open
  sockets in one record. The socket calls, the times of \<open>gettimeofday\<close>, the allocators and the
  callback are arguments; the callback may do anything to the watcher. \<open>aw_calls\<close> and \<open>aw_sleeps\<close>
  record the calls of the callback and of \<open>usleep\<close>.
\<close>

subsection \<open>State\<close>

datatype addr_state = ST_NULL | ST_UP | ST_DOWN

record addr_item =
  ai_addr :: string
  ai_state :: addr_state

record addr_watcher =
  aw_timeout :: int
  aw_addrs :: addr
  aw_ud :: ptr
  aw_loop :: bool
  aw_items :: "addr \<rightharpoonup> addr_item"
  aw_lists :: "addr lstore"
  aw_fds :: "int set"
  aw_calls :: "(string \<times> int) list"
  aw_sleeps :: "int list"

text \<open>\<open>addr_watcher_cb_t\<close>: the address, the flag and the watcher; \<open>None\<close> is undefined behaviour.\<close>

type_synonym addr_cb = "string \<Rightarrow> int \<Rightarrow> addr_watcher \<Rightarrow> addr_watcher option"

text \<open>
  What the system answers in one probe: a new socket or \<open>-1\<close>, the result of \<open>setsockopt\<close> on it, the
  result of \<open>inet_pton\<close> with the address, and the result of \<open>bind\<close> with \<open>errno\<close>. The answers of a
  round are a function \<open>nets\<close> from the number of the probe in the round.
\<close>

record net =
  net_socket :: int
  net_setsockopt :: "int \<Rightarrow> int"
  net_pton :: "string \<Rightarrow> int \<times> u32"
  net_bind :: "int \<Rightarrow> u32 \<Rightarrow> int \<times> int"

definition EADDRNOTAVAIL :: int where
  [c_sem]: "EADDRNOTAVAIL = 99"

subsection \<open>The probe\<close>

text \<open>The second result are the open descriptors.\<close>

definition addrwatch :: "net \<Rightarrow> int set \<Rightarrow> string \<Rightarrow> int \<times> int set" where
  [c_sem]: "addrwatch net fds addr =
     (let sock = net_socket net in
      if sock = - 1 then (- 1, fds)
      else
        let fds = insert sock fds in
        if net_setsockopt net sock = - 1 then (- 1, fds - {sock})
        else
          let (ok, sa) = net_pton net addr in
          if ok \<noteq> 1 then (- 1, fds - {sock})
          else
            let (b, errno) = net_bind net sock sa;
                r = (if b = 0 then 1 else if errno = EADDRNOTAVAIL then 0 else - 1)
            in (r, fds - {sock}))"

subsection \<open>Items\<close>

definition addr_item_create ::
  "(addr set \<Rightarrow> addr) \<Rightarrow> addr_watcher \<Rightarrow> string \<Rightarrow> (addr \<times> addr_watcher) option" where
  [c_sem]: "addr_item_create malloc w addr = do {
     let a = malloc (dom (aw_items w));
     c_require (aw_items w a = None);
     Some (a, w\<lparr>aw_items := (aw_items w)(a \<mapsto> \<lparr>ai_addr = addr, ai_state = ST_NULL\<rparr>)\<rparr>) }"

definition addr_item_destructor :: "addr_watcher \<Rightarrow> addr \<Rightarrow> addr_watcher option" where
  [c_sem]: "addr_item_destructor w a = do {
     c_require (aw_items w a \<noteq> None);
     Some (w\<lparr>aw_items := (aw_items w)(a := None)\<rparr>) }"

fun addr_item_destroy_all :: "addr_watcher \<Rightarrow> addr list \<Rightarrow> addr_watcher option" where
  "addr_item_destroy_all w [] = Some w"
| "addr_item_destroy_all w (a # as) = do {
     w \<leftarrow> addr_item_destructor w a;
     addr_item_destroy_all w as }"

text \<open>
  \<open>strcmp\<close> gives zero exactly for equal strings. The test reads the item; on a freed one it is
  undefined.
\<close>

definition addr_item_match_addr :: "(addr \<rightharpoonup> addr_item) \<Rightarrow> addr \<Rightarrow> string \<Rightarrow> bool option" where
  [c_sem]: "addr_item_match_addr items a addr = do { item \<leftarrow> items a; Some (ai_addr item = addr) }"

text \<open>
  The searches of list.c take a test that is always defined. \<open>addr_matches\<close> is the test where it is
  defined; \<open>addr_search_ok\<close> requires that it is, for every item the search looks at: the ones in front
  of the first match and the match.
\<close>

definition addr_matches :: "(addr \<rightharpoonup> addr_item) \<Rightarrow> addr \<Rightarrow> string \<Rightarrow> bool" where
  [c_sem]: "addr_matches items a addr \<longleftrightarrow> addr_item_match_addr items a addr = Some True"

definition addr_search_ok :: "addr_watcher \<Rightarrow> string \<Rightarrow> unit option" where
  [c_sem]: "addr_search_ok w addr = do {
     as \<leftarrow> list_foreach (aw_lists w) (aw_addrs w);
     c_require (\<forall>a \<in> set (takeWhile (\<lambda>a. \<not> addr_matches (aw_items w) a addr) as).
       addr_item_match_addr (aw_items w) a addr \<noteq> None) }"

subsection \<open>The operations\<close>

definition addr_watcher_create ::
  "(addr lstore \<Rightarrow> addr) \<Rightarrow> addr lstore \<Rightarrow> ptr \<Rightarrow> int \<Rightarrow> addr_watcher option" where
  [c_sem]: "addr_watcher_create lmalloc ls userdata timeout = do {
     (l, ls) \<leftarrow> list_create lmalloc ls;
     Some \<lparr>aw_timeout = timeout, aw_addrs = l, aw_ud = userdata, aw_loop = False,
       aw_items = Map.empty, aw_lists = ls, aw_fds = {}, aw_calls = [], aw_sleeps = []\<rparr> }"

definition addr_watcher_destroy :: "addr_watcher \<Rightarrow> addr_watcher option" where
  [c_sem]: "addr_watcher_destroy w = do {
     (ls, as) \<leftarrow> list_destroy (aw_lists w) (aw_addrs w);
     addr_item_destroy_all (w\<lparr>aw_lists := ls\<rparr>) as }"

definition addr_watcher_add_addr ::
  "(addr set \<Rightarrow> addr) \<Rightarrow> (addr lstore \<Rightarrow> addr) \<Rightarrow> addr_watcher \<Rightarrow> string \<Rightarrow> (int \<times> addr_watcher) option" where
  [c_sem]: "addr_watcher_add_addr malloc lmalloc w addr = do {
     addr_search_ok w addr;
     found \<leftarrow> list_find (aw_lists w) (aw_addrs w) (addr_matches (aw_items w)) addr;
     w \<leftarrow> (if found = None then do {
           (item, w) \<leftarrow> addr_item_create malloc w addr;
           (_, ls) \<leftarrow> list_append lmalloc (aw_lists w) (aw_addrs w) item;
           Some (w\<lparr>aw_lists := ls\<rparr>) }
         else Some w);
     n \<leftarrow> list_size (aw_lists w) (aw_addrs w);
     Some (n, w) }"

definition addr_watcher_del_addr :: "addr_watcher \<Rightarrow> string \<Rightarrow> (int \<times> addr_watcher) option" where
  [c_sem]: "addr_watcher_del_addr w addr = do {
     addr_search_ok w addr;
     (item, ls) \<leftarrow> list_remove_first_match (aw_lists w) (aw_addrs w) (addr_matches (aw_items w)) addr;
     let w = w\<lparr>aw_lists := ls\<rparr>;
     w \<leftarrow> (case item of None \<Rightarrow> Some w | Some a \<Rightarrow> addr_item_destructor w a);
     n \<leftarrow> list_size (aw_lists w) (aw_addrs w);
     Some (n, w) }"

text \<open>
  The loop of \<open>addr_watcher_watch\<close>, before its \<open>k\<close>-th probe; the callback may change the list and the
  items.
\<close>

partial_function (option) watch_loop ::
  "addr_cb \<Rightarrow> (nat \<Rightarrow> net) \<Rightarrow> nat \<Rightarrow> addr_watcher \<Rightarrow> ptr \<Rightarrow> int \<Rightarrow> (int \<times> addr_watcher) option" where
  "watch_loop cb nets k w li n =
     (if li \<noteq> None then do {
        a \<leftarrow> list_iter_value (aw_lists w) li;
        item \<leftarrow> aw_items w a;
        let (up, fds) = addrwatch (nets k) (aw_fds w) (ai_addr item);
        let w = w\<lparr>aw_fds := fds\<rparr>;
        if up = - 1 then Some (- 1, w)
        else do {
          let state = (if up \<noteq> 0 then ST_UP else ST_DOWN);
          (n, w) \<leftarrow> (if state \<noteq> ai_state item then do {
               let w = w\<lparr>aw_items := (aw_items w)(a \<mapsto> item\<lparr>ai_state := state\<rparr>),
                   aw_calls := aw_calls w @ [(ai_addr item, up)]\<rparr>;
               w \<leftarrow> cb (ai_addr item) up w;
               n \<leftarrow> c_int (n + 1);
               Some (n, w) }
             else Some (n, w));
          li \<leftarrow> list_next (aw_lists w) li;
          watch_loop cb nets (Suc k) w li n } }
      else Some (n, w))"

definition addr_watcher_watch :: "addr_cb \<Rightarrow> (nat \<Rightarrow> net) \<Rightarrow> addr_watcher \<Rightarrow> (int \<times> addr_watcher) option" where
  [c_sem]: "addr_watcher_watch cb nets w = do {
     li \<leftarrow> list_first (aw_lists w) (aw_addrs w);
     watch_loop cb nets 0 w li 0 }"

definition addr_watcher_breakloop :: "addr_watcher \<Rightarrow> addr_watcher" where
  [c_sem]: "addr_watcher_breakloop w = w\<lparr>aw_loop := False\<rparr>"

text \<open>
  One pass through the body of \<open>addr_watcher_watchloop\<close>: the first call of \<open>gettimeofday\<close> gives
  \<open>now1\<close>, the second \<open>now2\<close>. \<open>usleep\<close> takes an unsigned \<open>int\<close>.
\<close>

definition watchloop_pass ::
  "addr_cb \<Rightarrow> (nat \<Rightarrow> net) \<Rightarrow> timeval \<Rightarrow> timeval \<Rightarrow> addr_watcher \<Rightarrow> timeval \<Rightarrow> int \<Rightarrow>
   (addr_watcher \<times> timeval \<times> int) option" where
  [c_sem]: "watchloop_pass cb nets now1 now2 w next n0 = do {
     (w, next, n0) \<leftarrow> (if timer_greater now1 next then do {
          (n, w) \<leftarrow> addr_watcher_watch cb nets w;
          if n = - 1 then Some (w\<lparr>aw_loop := False\<rparr>, next, - 1)
          else do {
            n0 \<leftarrow> c_int (n0 + n);
            next \<leftarrow> timer_plus now1 \<lparr>tv_sec = c_div (aw_timeout w) 1000,
              tv_usec = c_mod (aw_timeout w) 1000 * 1000\<rparr>;
            Some (w, next, n0) } }
        else Some (w, next, n0));
     if aw_loop w \<and> timer_greater next now2 then do {
       sub \<leftarrow> timer_minus next now2;
       us \<leftarrow> c_long (tv_sec sub * 1000000);
       us \<leftarrow> c_long (us + tv_usec sub);
       Some (w\<lparr>aw_sleeps := aw_sleeps w @ [us mod 2 ^ 32]\<rparr>, next, n0) }
     else Some (w, next, n0) }"

text \<open>
  The loop on the answers of the system in its passes. The first result is \<open>None\<close> if it is still
  running when they are used up.
\<close>

fun watchloop_loop ::
  "addr_cb \<Rightarrow> ((nat \<Rightarrow> net) \<times> timeval \<times> timeval) list \<Rightarrow> addr_watcher \<Rightarrow> timeval \<Rightarrow> int \<Rightarrow>
   (int option \<times> addr_watcher) option" where
  "watchloop_loop cb [] w next n0 = Some (if aw_loop w then None else Some n0, w)"
| "watchloop_loop cb ((nets, now1, now2) # ins) w next n0 =
     (if aw_loop w then do {
        (w, next, n0) \<leftarrow> watchloop_pass cb nets now1 now2 w next n0;
        watchloop_loop cb ins w next n0 }
      else Some (Some n0, w))"

definition addr_watcher_watchloop ::
  "addr_cb \<Rightarrow> timeval \<Rightarrow> ((nat \<Rightarrow> net) \<times> timeval \<times> timeval) list \<Rightarrow> addr_watcher \<Rightarrow>
   (int option \<times> addr_watcher) option" where
  [c_sem]: "addr_watcher_watchloop cb start ins w =
     watchloop_loop cb ins (w\<lparr>aw_loop := True\<rparr>) start 0"

end
