(* ===== verification/AddrWatchProps.thy ===== *)
theory AddrWatchProps
  imports AddrWatch
begin

section \<open>What the address watcher does\<close>

text \<open>
  \<open>watcher_at w es\<close>: the watcher holds the items \<open>es\<close>, pairs of address in memory and content, in this
  order, and no other item is allocated. On the sequence of pairs of address and state the
  operations are simple functions; \<open>watch_spec\<close> is the one of a round of probes.
\<close>

subsection \<open>Well-formed watchers\<close>

definition items_are :: "(addr \<rightharpoonup> addr_item) \<Rightarrow> (addr \<times> addr_item) list \<Rightarrow> bool" where
  "items_are m es \<longleftrightarrow> dom m = fst ` set es \<and> distinct (map fst es) \<and> (\<forall>e \<in> set es. m (fst e) = Some (snd e))"

definition watcher_at :: "addr_watcher \<Rightarrow> (addr \<times> addr_item) list \<Rightarrow> bool" where
  "watcher_at w es \<longleftrightarrow> lstore_fin (aw_lists w) \<and> items_are (aw_items w) es \<and>
     list_vals (aw_lists w) (aw_addrs w) (map fst es) \<and> distinct (map (\<lambda>e. ai_addr (snd e)) es)"

definition watched :: "(addr \<times> addr_item) list \<Rightarrow> (string \<times> addr_state) list" where
  "watched es = map (\<lambda>(a, it). (ai_addr it, ai_state it)) es"

text \<open>What the code relies on in \<open>malloc\<close> for the items.\<close>

definition imalloc_ok :: "(addr set \<Rightarrow> addr) \<Rightarrow> bool" where
  "imalloc_ok malloc \<longleftrightarrow> (\<forall>S. finite S \<longrightarrow> malloc S \<notin> S)"

lemma items_areD: "items_are m es \<Longrightarrow> (a, it) \<in> set es \<Longrightarrow> m a = Some it"
  by (auto simp: items_are_def)

lemma items_are_snoc:
  assumes "items_are m es" and "m a = None"
  shows "items_are (m(a \<mapsto> it)) (es @ [(a, it)])"
proof -
  have "a \<notin> fst ` set es" using assms by (metis domIff items_are_def)
  then show ?thesis using assms(1) by (auto simp: items_are_def)
qed

lemma items_are_update:
  "items_are m (xs @ (a, it) # ys) \<Longrightarrow> items_are (m(a \<mapsto> it')) (xs @ (a, it') # ys)"
  by (auto simp: items_are_def)

lemma items_are_delete:
  "items_are m (xs @ (a, it) # ys) \<Longrightarrow> items_are (m(a := None)) (xs @ ys)"
  by (auto simp: items_are_def)

lemma addr_match_item: "m a = Some it \<Longrightarrow> addr_item_match_addr m a s = Some (ai_addr it = s)"
  by (simp add: addr_item_match_addr_def)

lemma items_find:
  "items_are m es \<Longrightarrow> List.find (\<lambda>a. addr_matches m a s) (map fst es) =
   map_option fst (List.find (\<lambda>e. ai_addr (snd e) = s) es)"
proof -
  assume it: "items_are m es"
  have "set ys \<subseteq> set es \<Longrightarrow> List.find (\<lambda>a. addr_matches m a s) (map fst ys) =
      map_option fst (List.find (\<lambda>e. ai_addr (snd e) = s) ys)" for ys
    by (induction ys) (auto simp: addr_matches_def addr_match_item [OF items_areD [OF it]])
  then show ?thesis by blast
qed

lemma items_del_first:
  "items_are m es \<Longrightarrow> del_first (\<lambda>a. addr_matches m a s) (map fst es) =
   map fst (del_first (\<lambda>e. ai_addr (snd e) = s) es)"
proof -
  assume it: "items_are m es"
  have "set ys \<subseteq> set es \<Longrightarrow> del_first (\<lambda>a. addr_matches m a s) (map fst ys) =
      map fst (del_first (\<lambda>e. ai_addr (snd e) = s) ys)" for ys
    by (induction ys) (auto simp: addr_matches_def addr_match_item [OF items_areD [OF it]])
  then show ?thesis by blast
qed

text \<open>A well-formed watcher holds no freed item, so its searches are defined.\<close>

lemma search_ok:
  assumes "items_are (aw_items w) es" and "list_vals (aw_lists w) (aw_addrs w) (map fst es)"
  shows "addr_search_ok w s = Some ()"
proof -
  have "list_foreach (aw_lists w) (aw_addrs w) = Some (map fst es)"
    using assms(2) list_foreach_ok by (fastforce simp: list_vals_def)
  moreover have "addr_item_match_addr (aw_items w) a s \<noteq> None" if "a \<in> set (map fst es)" for a
    using that assms(1) by (auto simp: items_are_def addr_item_match_addr_def)
  ultimately show ?thesis
    using set_takeWhileD by (fastforce simp: addr_search_ok_def)
qed

lemma watched_names: "map fst (watched es) = map (\<lambda>e. ai_addr (snd e)) es"
  by (simp add: watched_def case_prod_beta)

lemma watcher_size:
  "list_vals s l vs \<Longrightarrow> list_size s l = Some (int (length vs))"
  using list_size_ok by (fastforce simp: list_vals_def)

subsection \<open>The operations\<close>

lemma addr_watcher_create_ok:
  assumes "lmalloc_ok lmalloc" and "lstore_fin ls"
  shows "\<exists>w. addr_watcher_create lmalloc ls ud timeout = Some w \<and> watcher_at w [] \<and> aw_timeout w = timeout \<and>
    aw_calls w = []"
proof -
  obtain ls' where "list_create lmalloc ls = Some (lmalloc ls, ls')" "list_at ls' (lmalloc ls) []"
    "lstore_fin ls'"
    using list_create_seq [OF assms] by blast
  then show ?thesis
    using list_valsI [of ls' "lmalloc ls" "[]"]
    by (simp add: addr_watcher_create_def watcher_at_def items_are_def)
qed

lemma addr_watcher_add_ok:
  assumes malloc: "imalloc_ok malloc" and lmalloc: "lmalloc_ok lmalloc" and at: "watcher_at w es"
  shows "\<exists>w' es'. addr_watcher_add_addr malloc lmalloc w s = Some (int (length es'), w') \<and> watcher_at w' es' \<and>
    watched es' = (if s \<in> fst ` set (watched es) then watched es else watched es @ [(s, ST_NULL)])"
proof -
  have fin: "lstore_fin (aw_lists w)" and it: "items_are (aw_items w) es"
    and vals: "list_vals (aw_lists w) (aw_addrs w) (map fst es)"
    and dist: "distinct (map (\<lambda>e. ai_addr (snd e)) es)"
    using at by (simp_all add: watcher_at_def)
  note fnd = find_vals [OF vals, of "addr_matches (aw_items w)" s, unfolded items_find [OF it]]
  have mem: "s \<in> fst ` set (watched es) \<longleftrightarrow> (\<exists>e \<in> set es. ai_addr (snd e) = s)"
    by (force simp: watched_def)
  show ?thesis
  proof (cases "s \<in> fst ` set (watched es)")
    case True
    then have "List.find (\<lambda>e. ai_addr (snd e) = s) es \<noteq> None"
      unfolding mem find_None_iff by blast
    then show ?thesis
      using True fnd at watcher_size [OF vals] search_ok [OF it vals]
      by (auto simp: addr_watcher_add_addr_def)
  next
    case False
    then have none: "List.find (\<lambda>e. ai_addr (snd e) = s) es = None" unfolding mem find_None_iff by blast
    define a where "a = malloc (dom (aw_items w))"
    have "finite (dom (aw_items w))" using it by (simp add: items_are_def)
    then have a: "aw_items w a = None" using malloc by (auto simp: imalloc_ok_def a_def)
    obtain p ls where ls: "list_append lmalloc (aw_lists w) (aw_addrs w) a = Some (p, ls)" "lstore_fin ls"
      "list_vals ls (aw_addrs w) (map fst es @ [a])"
      using list_alloc.append_vals [OF list_alloc.intro [OF lmalloc] fin vals, of a] by blast
    let ?it = "\<lparr>ai_addr = s, ai_state = ST_NULL\<rparr>"
    let ?w = "w\<lparr>aw_items := (aw_items w)(a \<mapsto> ?it), aw_lists := ls\<rparr>"
    have "addr_item_create malloc w s = Some (a, w\<lparr>aw_items := (aw_items w)(a \<mapsto> ?it)\<rparr>)"
      using a by (simp add: addr_item_create_def a_def Let_def)
    then have "addr_watcher_add_addr malloc lmalloc w s = Some (int (length (es @ [(a, ?it)])), ?w)"
      using fnd none ls(1) watcher_size [OF ls(3)] search_ok [OF it vals]
      by (simp add: addr_watcher_add_addr_def)
    moreover have "watcher_at ?w (es @ [(a, ?it)])"
      using ls(2,3) items_are_snoc [OF it a, of ?it] dist False mem
      by (auto simp: watcher_at_def)
    ultimately show ?thesis using False by (intro exI [of _ ?w] exI [of _ "es @ [(a, ?it)]"]) (simp add: watched_def)
  qed
qed

lemma del_first_cases:
  obtains (none) "List.find P xs = None" "del_first P xs = xs" "\<forall>x \<in> set xs. \<not> P x"
  | (some) ys x zs where "xs = ys @ x # zs" "P x" "\<forall>y \<in> set ys. \<not> P y"
      "List.find P xs = Some x" "del_first P xs = ys @ zs"
proof (cases "\<exists>x \<in> set xs. P x")
  case True
  then obtain ys x zs where s: "xs = ys @ x # zs" "P x" "\<forall>y \<in> set ys. \<not> P y"
    using split_list_first_prop by metis
  then show ?thesis using some find_split [of ys P x zs] del_first_split [of ys P x zs] by auto
next
  case False
  then show ?thesis using none del_first_none [of xs P] by (auto simp: find_None_iff)
qed

lemma addr_watcher_del_ok:
  assumes at: "watcher_at w es"
  shows "\<exists>w' es'. addr_watcher_del_addr w s = Some (int (length es'), w') \<and> watcher_at w' es' \<and>
    watched es' = filter (\<lambda>p. fst p \<noteq> s) (watched es)"
proof -
  have fin: "lstore_fin (aw_lists w)" and it: "items_are (aw_items w) es"
    and vals: "list_vals (aw_lists w) (aw_addrs w) (map fst es)"
    and dist: "distinct (map (\<lambda>e. ai_addr (snd e)) es)"
    using at by (simp_all add: watcher_at_def)
  let ?P = "\<lambda>e :: addr \<times> addr_item. ai_addr (snd e) = s"
  obtain ls where ls: "list_remove_first_match (aw_lists w) (aw_addrs w) (addr_matches (aw_items w)) s =
      Some (map_option fst (List.find ?P es), ls)" "lstore_fin ls"
    "list_vals ls (aw_addrs w) (map fst (del_first ?P es))"
    using remove_vals [OF fin vals, of "addr_matches (aw_items w)" s]
    unfolding items_find [OF it] items_del_first [OF it] by blast
  show ?thesis
  proof (cases es ?P rule: del_first_cases)
    case none
    then have "filter (\<lambda>p. fst p \<noteq> s) (watched es) = watched es"
      by (auto simp: watched_def filter_id_conv)
    moreover have "watcher_at (w\<lparr>aw_lists := ls\<rparr>) es"
      using at ls(2,3) none(2) by (simp add: watcher_at_def)
    moreover have "addr_watcher_del_addr w s = Some (int (length es), w\<lparr>aw_lists := ls\<rparr>)"
      using ls(1,3) none watcher_size [of ls "aw_addrs w"] search_ok [OF it vals]
      by (simp add: addr_watcher_del_addr_def Let_def)
    ultimately show ?thesis by (intro exI [of _ "w\<lparr>aw_lists := ls\<rparr>"] exI [of _ es]) simp
  next
    case (some ys x zs)
    obtain a i where x: "x = (a, i)" by (cases x)
    let ?w = "w\<lparr>aw_lists := ls, aw_items := (aw_items w)(a := None)\<rparr>"
    have "aw_items w a \<noteq> None" using items_areD [OF it, of a i] some(1) x by simp
    then have "addr_watcher_del_addr w s = Some (int (length (ys @ zs)), ?w)"
      using ls(1,3) some(4,5) x watcher_size [OF ls(3)] search_ok [OF it vals]
      by (simp add: addr_watcher_del_addr_def addr_item_destructor_def Let_def)
    moreover have "watcher_at ?w (ys @ zs)"
      using ls(2,3) some(1,5) x it dist items_are_delete [of "aw_items w" ys a i zs]
      by (auto simp: watcher_at_def)
    moreover have "filter (\<lambda>p. fst p \<noteq> s) (watched es) = watched (ys @ zs)"
    proof -
      have "s \<notin> (\<lambda>e. ai_addr (snd e)) ` set zs" using dist some(1,2) by auto
      then have "\<forall>z \<in> set zs. ai_addr (snd z) \<noteq> s" by blast
      then have "filter (\<lambda>p. fst p \<noteq> s) (watched zs) = watched zs"
        "filter (\<lambda>p. fst p \<noteq> s) (watched ys) = watched ys"
        using some(3) by (auto simp: watched_def filter_id_conv)
      then show ?thesis using some(1,2) x by (simp add: watched_def)
    qed
    ultimately show ?thesis by (intro exI [of _ ?w] exI [of _ "ys @ zs"]) simp
  qed
qed

lemma addr_item_destroy_all_ok:
  "items_are (aw_items w) es \<Longrightarrow>
   addr_item_destroy_all w (map fst es) = Some (w\<lparr>aw_items := Map.empty\<rparr>)"
proof (induction es arbitrary: w)
  case Nil
  then show ?case by (simp add: items_are_def)
next
  case (Cons e es)
  obtain a i where e: "e = (a, i)" by (cases e)
  have "aw_items w a = Some i" using items_areD [OF Cons.prems, of a i] e by simp
  have "items_are ((aw_items w)(a := None)) es"
    using items_are_delete [of "aw_items w" "[]" a i es] Cons.prems e by simp
  define w1 where "w1 = w\<lparr>aw_items := (aw_items w)(a := None)\<rparr>"
  have "aw_items w1 = (aw_items w)(a := None)" by (simp add: w1_def)
  with \<open>items_are ((aw_items w)(a := None)) es\<close> have "items_are (aw_items w1) es" by (simp only:)
  from Cons.IH [OF this] have "addr_item_destroy_all w1 (map fst es) = Some (w\<lparr>aw_items := Map.empty\<rparr>)"
    by (simp add: w1_def)
  then show ?case using e \<open>aw_items w a = Some i\<close> by (simp add: addr_item_destructor_def w1_def)
qed

lemma addr_watcher_destroy_ok:
  assumes "watcher_at w es"
  shows "\<exists>w'. addr_watcher_destroy w = Some w' \<and> aw_items w' = Map.empty \<and>
    ls_heads (aw_lists w') (aw_addrs w) = None"
proof -
  obtain xs where xs: "list_at (aw_lists w) (aw_addrs w) xs" "map snd xs = map fst es"
    using assms by (auto simp: watcher_at_def list_vals_def)
  obtain ls where ls: "list_destroy (aw_lists w) (aw_addrs w) = Some (ls, map fst es)"
    "ls_heads ls (aw_addrs w) = None"
    using list_destroy_ok [OF xs(1)] xs(2) by auto
  have "items_are (aw_items (w\<lparr>aw_lists := ls\<rparr>)) es" using assms by (simp add: watcher_at_def)
  from addr_item_destroy_all_ok [OF this] show ?thesis using ls by (simp add: addr_watcher_destroy_def)
qed

subsection \<open>A round of probes\<close>

text \<open>The answer for an address: \<open>1\<close> up, \<open>0\<close> down, \<open>-1\<close> failure.\<close>

definition probe :: "net \<Rightarrow> string \<Rightarrow> int" where
  "probe net a = fst (addrwatch net {} a)"

lemma addrwatch_probe:
  "net_socket net \<notin> fds \<Longrightarrow> addrwatch net fds a = (probe net a, fds)"
  by (auto simp: probe_def addrwatch_def Let_def split: prod.splits)

text \<open>No probe of a round is given a descriptor that is already open.\<close>

definition fresh_sockets :: "(nat \<Rightarrow> net) \<Rightarrow> int set \<Rightarrow> bool" where
  "fresh_sockets nets F \<longleftrightarrow> (\<forall>k. net_socket (nets k) \<notin> F)"

text \<open>The state an answer stands for.\<close>

definition state_of :: "int \<Rightarrow> addr_state" where
  "state_of up = (if up \<noteq> 0 then ST_UP else ST_DOWN)"

text \<open>
  The round on pairs of address and state, from its \<open>k\<close>-th probe on: the result, the calls of the
  callback and the pairs afterwards.
\<close>

fun watch_spec :: "(nat \<Rightarrow> string \<Rightarrow> int) \<Rightarrow> nat \<Rightarrow> int \<Rightarrow> (string \<times> addr_state) list \<Rightarrow>
    int \<times> (string \<times> int) list \<times> (string \<times> addr_state) list" where
  "watch_spec pr k n [] = (n, [], [])"
| "watch_spec pr k n ((a, st) # ps) =
     (if pr k a = - 1 then (- 1, [], (a, st) # ps)
      else let st' = state_of (pr k a);
               (r, calls, ps') = watch_spec pr (Suc k) (if st' \<noteq> st then n + 1 else n) ps
           in (r, (if st' \<noteq> st then (a, pr k a) # calls else calls), (a, st') # ps'))"

definition probes :: "(nat \<Rightarrow> net) \<Rightarrow> nat \<Rightarrow> string \<Rightarrow> int" where
  "probes nets k a = probe (nets k) a"

text \<open>A callback that does nothing to the watcher but, perhaps, break its loop.\<close>

definition quiet :: "addr_cb \<Rightarrow> bool" where
  "quiet cb \<longleftrightarrow> (\<forall>a up w. cb a up w = Some w \<or> cb a up w = Some (addr_watcher_breakloop w))"

lemma quiet_cases:
  assumes "quiet cb"
  obtains b where "cb a up w = Some (w\<lparr>aw_loop := b\<rparr>)"
proof -
  have "cb a up w = Some (w\<lparr>aw_loop := aw_loop w\<rparr>) \<or> cb a up w = Some (w\<lparr>aw_loop := False\<rparr>)"
    using assms by (simp add: quiet_def addr_watcher_breakloop_def)
  then show thesis using that by blast
qed

text \<open>A callback that breaks the loop for the reports that satisfy \<open>brk\<close> and does nothing else.\<close>

definition breaking :: "(string \<Rightarrow> int \<Rightarrow> bool) \<Rightarrow> addr_cb" where
  "breaking brk a up w = Some (if brk a up then addr_watcher_breakloop w else w)"

definition broken :: "(string \<Rightarrow> int \<Rightarrow> bool) \<Rightarrow> (string \<times> int) list \<Rightarrow> bool" where
  "broken brk calls \<longleftrightarrow> (\<exists>(a, up) \<in> set calls. brk a up)"

lemma breaking_quiet: "quiet (breaking brk)"
  by (simp add: quiet_def breaking_def)

lemma broken_simps [simp]:
  "\<not> broken brk []"
  "broken brk ((a, up) # calls) \<longleftrightarrow> brk a up \<or> broken brk calls"
  "broken brk (calls @ calls') \<longleftrightarrow> broken brk calls \<or> broken brk calls'"
  by (auto simp: broken_def)

definition same_watcher :: "addr_watcher \<Rightarrow> addr_watcher \<Rightarrow> bool" where
  "same_watcher w w' \<longleftrightarrow> aw_addrs w' = aw_addrs w \<and> aw_lists w' = aw_lists w \<and> aw_fds w' = aw_fds w \<and>
     aw_timeout w' = aw_timeout w \<and> aw_sleeps w' = aw_sleeps w"

lemma watch_loop_ok:
  assumes cb: "quiet cb" and sock: "fresh_sockets nets F"
  shows "list_at (aw_lists w) (aw_addrs w) (zs @ xs) \<Longrightarrow> map snd xs = map fst es \<Longrightarrow>
    items_are (aw_items w) (ds @ es) \<Longrightarrow> aw_fds w = F \<Longrightarrow> 0 \<le> n \<Longrightarrow> n + int (length es) < 2147483648 \<Longrightarrow>
    \<exists>w' es'. watch_loop cb nets k w (next_of xs None) n =
        Some (fst (watch_spec (probes nets) k n (watched es)), w') \<and>
      items_are (aw_items w') (ds @ es') \<and> map fst es' = map fst es \<and>
      watched es' = snd (snd (watch_spec (probes nets) k n (watched es))) \<and>
      aw_calls w' = aw_calls w @ fst (snd (watch_spec (probes nets) k n (watched es))) \<and> same_watcher w w' \<and>
      (cb = breaking brk \<longrightarrow> aw_loop w' =
        (aw_loop w \<and> \<not> broken brk (fst (snd (watch_spec (probes nets) k n (watched es))))))"
proof (induction es arbitrary: k w zs xs ds n)
  case Nil
  then show ?case by (subst watch_loop.simps) (auto simp: watched_def same_watcher_def)
next
  case (Cons e es)
  obtain a i where e: "e = (a, i)" by (cases e)
  obtain b xs' where xs: "xs = (b, a) # xs'" "map snd xs' = map fst es"
    using Cons.prems(2) e by (cases xs) auto
  have at: "list_at (aw_lists w) (aw_addrs w) (zs @ (b, a) # xs')" using Cons.prems(1) xs by simp
  have item: "aw_items w a = Some i" using items_areD [OF Cons.prems(3), of a i] e by simp
  have val: "list_iter_value (aw_lists w) (Some b) = Some a"
    using list_value_ok [OF at] by (simp add: list_iter_value_def list_iterator_get_value_def)
  note nxt = list_next_ok [OF at]
  have fds: "addrwatch (nets k) (aw_fds w) s = (probes nets k s, aw_fds w)" for s
    using addrwatch_probe sock Cons.prems(4) by (simp add: probes_def fresh_sockets_def)
  let ?up = "probes nets k (ai_addr i)"
  let ?st = "state_of ?up"
  show ?case
  proof (cases "?up = - 1")
    case True
    then have "watch_loop cb nets k w (next_of xs None) n = Some (- 1, w)"
      using xs val item fds by (subst watch_loop.simps) simp
    then show ?thesis
      using True Cons.prems(3) e
      by (intro exI [of _ w] exI [of _ "e # es"]) (simp add: watched_def same_watcher_def)
  next
    case False
    define m where "m = (if ?st \<noteq> ai_state i then n + 1 else n)"
    define i' where "i' = i\<lparr>ai_state := ?st\<rparr>"
    obtain w1 where w1: "watch_loop cb nets k w (next_of xs None) n = watch_loop cb nets (Suc k) w1 (next_of xs' None) m"
      "aw_items w1 = (aw_items w)(a \<mapsto> i')" "same_watcher w w1"
      "aw_calls w1 = aw_calls w @ (if ?st \<noteq> ai_state i then [(ai_addr i, ?up)] else [])"
      "cb = breaking brk \<longrightarrow> aw_loop w1 = (aw_loop w \<and> \<not> (?st \<noteq> ai_state i \<and> brk (ai_addr i) ?up))"
    proof (cases "?st = ai_state i")
      case True
      then have "i' = i" by (simp add: i'_def)
      then have "aw_items w = (aw_items w)(a \<mapsto> i')" using item by auto
      moreover have "watch_loop cb nets k w (next_of xs None) n = watch_loop cb nets (Suc k) w (next_of xs' None) m"
        using xs val item fds nxt False True
        by (subst watch_loop.simps) (simp add: Let_def m_def state_of_def)
      ultimately show ?thesis using that [of w] True by (simp add: same_watcher_def)
    next
      case st: False
      let ?w = "w\<lparr>aw_items := (aw_items w)(a \<mapsto> i'), aw_calls := aw_calls w @ [(ai_addr i, ?up)]\<rparr>"
      obtain l where l: "cb (ai_addr i) ?up ?w = Some (?w\<lparr>aw_loop := l\<rparr>)"
        using quiet_cases [OF cb] by blast
      have "c_int (n + 1) = Some (n + 1)" using Cons.prems(5,6) by simp
      then have "watch_loop cb nets k w (next_of xs None) n =
          watch_loop cb nets (Suc k) (?w\<lparr>aw_loop := l\<rparr>) (next_of xs' None) m"
        using xs val item fds nxt False st l
        by (subst watch_loop.simps) (simp add: Let_def m_def state_of_def i'_def)
      moreover have "cb = breaking brk \<longrightarrow> l = (aw_loop w \<and> \<not> brk (ai_addr i) ?up)"
        using arg_cong [OF l, of "map_option aw_loop"]
        by (auto simp: breaking_def addr_watcher_breakloop_def split: if_splits)
      ultimately show ?thesis using that [of "?w\<lparr>aw_loop := l\<rparr>"] st by (simp add: same_watcher_def)
    qed
    have "items_are (aw_items w1) ((ds @ [(a, i')]) @ es)"
      using items_are_update [of "aw_items w" ds a i es i'] Cons.prems(3) e w1(2) by simp
    moreover have "list_at (aw_lists w1) (aw_addrs w1) ((zs @ [(b, a)]) @ xs')"
      using at w1(3) by (simp add: same_watcher_def)
    moreover have "0 \<le> m" "m + int (length es) < 2147483648" using Cons.prems(5,6) by (auto simp: m_def)
    moreover have "aw_fds w1 = F" using w1(3) Cons.prems(4) by (simp add: same_watcher_def)
    ultimately obtain w' es' where ih: "watch_loop cb nets (Suc k) w1 (next_of xs' None) m =
        Some (fst (watch_spec (probes nets) (Suc k) m (watched es)), w')"
      "items_are (aw_items w') ((ds @ [(a, i')]) @ es')" "map fst es' = map fst es"
      "watched es' = snd (snd (watch_spec (probes nets) (Suc k) m (watched es)))"
      "aw_calls w' = aw_calls w1 @ fst (snd (watch_spec (probes nets) (Suc k) m (watched es)))" "same_watcher w1 w'"
      "cb = breaking brk \<longrightarrow> aw_loop w' = (aw_loop w1 \<and>
        \<not> broken brk (fst (snd (watch_spec (probes nets) (Suc k) m (watched es)))))"
      using Cons.IH [of w1 "zs @ [(b, a)]" xs' "ds @ [(a, i')]" m "Suc k"] xs(2)
      by blast
    have "watched (e # es) = (ai_addr i, ai_state i) # watched es" by (simp add: watched_def e)
    moreover have "watched ((a, i') # es') = (ai_addr i, ?st) # watched es'"
      by (simp add: watched_def i'_def)
    moreover have "same_watcher w w'" using w1(3) ih(6) by (simp add: same_watcher_def)
    ultimately show ?thesis
      using ih(1-5,7) w1(1,4,5) False e
      by (intro exI [of _ w'] exI [of _ "(a, i') # es'"]) (simp add: case_prod_beta Let_def m_def)
  qed
qed

lemma addr_watcher_watch_ok:
  assumes at: "watcher_at w es" and cb: "quiet cb" and sock: "fresh_sockets nets (aw_fds w)"
    and len: "length es < 2147483648"
  shows "\<exists>w' es'. addr_watcher_watch cb nets w = Some (fst (watch_spec (probes nets) 0 0 (watched es)), w') \<and>
    watcher_at w' es' \<and> watched es' = snd (snd (watch_spec (probes nets) 0 0 (watched es))) \<and>
    aw_calls w' = aw_calls w @ fst (snd (watch_spec (probes nets) 0 0 (watched es))) \<and> same_watcher w w' \<and>
    (cb = breaking brk \<longrightarrow> aw_loop w' =
      (aw_loop w \<and> \<not> broken brk (fst (snd (watch_spec (probes nets) 0 0 (watched es))))))"
proof -
  have fin: "lstore_fin (aw_lists w)" and it: "items_are (aw_items w) ([] @ es)"
    and vals: "list_vals (aw_lists w) (aw_addrs w) (map fst es)"
    and dist: "distinct (map fst (watched es))"
    using at by (simp_all add: watcher_at_def watched_names)
  obtain xs where xs: "list_at (aw_lists w) (aw_addrs w) ([] @ xs)" "map snd xs = map fst es"
    using vals by (auto simp: list_vals_def)
  obtain w' es' where w': "watch_loop cb nets 0 w (next_of xs None) 0 =
      Some (fst (watch_spec (probes nets) 0 0 (watched es)), w')"
    "items_are (aw_items w') es'" "map fst es' = map fst es"
    "watched es' = snd (snd (watch_spec (probes nets) 0 0 (watched es)))"
    "aw_calls w' = aw_calls w @ fst (snd (watch_spec (probes nets) 0 0 (watched es)))" "same_watcher w w'"
    "cb = breaking brk \<longrightarrow> aw_loop w' =
      (aw_loop w \<and> \<not> broken brk (fst (snd (watch_spec (probes nets) 0 0 (watched es)))))"
    using watch_loop_ok [OF cb sock xs it refl, where n = 0 and k = 0 and brk = brk] len by auto
  have "map fst (snd (snd (watch_spec pr k n ps))) = map fst ps" for pr k n ps
    by (induction pr k n ps rule: watch_spec.induct) (auto simp: case_prod_beta Let_def)
  then have "distinct (map fst (watched es'))" using dist w'(4) by simp
  then have "watcher_at w' es'"
    using w'(2,3,6) fin vals by (simp add: watcher_at_def same_watcher_def watched_names)
  then show ?thesis
    using w' list_first_ok [of "aw_lists w" "aw_addrs w" xs] xs(1) by (auto simp: addr_watcher_watch_def)
qed

subsection \<open>A pass of the loop\<close>

lemma timer_greater_less: "timer_greater a b = timer_less b a"
  by (simp add: timer_greater_iff timer_less_iff)

lemma timeout_timeval:
  assumes "0 \<le> ms" and "ms < 2147483648"
  shows "tv_small \<lparr>tv_sec = c_div ms 1000, tv_usec = c_mod ms 1000 * 1000\<rparr>"
    and "tv_normal \<lparr>tv_sec = c_div ms 1000, tv_usec = c_mod ms 1000 * 1000\<rparr>"
    and "micros \<lparr>tv_sec = c_div ms 1000, tv_usec = c_mod ms 1000 * 1000\<rparr> = ms * 1000"
proof -
  have "0 \<le> ms div 1000" "ms div 1000 \<le> ms" "0 \<le> ms mod 1000" "ms mod 1000 < 1000"
    using assms(1) by linarith+
  then show "tv_small \<lparr>tv_sec = c_div ms 1000, tv_usec = c_mod ms 1000 * 1000\<rparr>"
    and "tv_normal \<lparr>tv_sec = c_div ms 1000, tv_usec = c_mod ms 1000 * 1000\<rparr>"
    using assms by (simp_all add: tv_small_def tv_normal_def)
  show "micros \<lparr>tv_sec = c_div ms 1000, tv_usec = c_mod ms 1000 * 1000\<rparr> = ms * 1000"
  proof -
    have "ms div 1000 * 1000000 + ms mod 1000 * 1000 = (1000 * (ms div 1000) + ms mod 1000) * 1000"
      by (simp only: distrib_right)
    then show ?thesis using assms(1) by (simp add: micros_def)
  qed
qed

text \<open>The sleep at the end of a pass.\<close>

definition loop_sleep :: "timeval \<Rightarrow> addr_watcher \<Rightarrow> timeval \<Rightarrow> addr_watcher" where
  "loop_sleep now w next =
     (if aw_loop w \<and> timer_less now next
      then w\<lparr>aw_sleeps := aw_sleeps w @ [(micros next - micros now) mod 2 ^ 32]\<rparr> else w)"

lemma loop_sleep_ok:
  assumes "tv_small now" and "tv_normal now" and "\<bar>tv_sec next\<bar> \<le> 1000000000001 " and "tv_normal next"
    and "\<bar>tv_sec now\<bar> \<le> 1000000000000"
  shows "(if aw_loop w \<and> timer_greater next now then do {
       sub \<leftarrow> timer_minus next now;
       us \<leftarrow> c_long (tv_sec sub * 1000000);
       us \<leftarrow> c_long (us + tv_usec sub);
       Some (w\<lparr>aw_sleeps := aw_sleeps w @ [us mod 2 ^ 32]\<rparr>, next, n0) }
     else Some (w, next, n0)) = Some (loop_sleep now w next, next, n0)"
proof -
  have small: "tv_small next" using assms(3,4) by (simp add: tv_small_def tv_normal_def)
  obtain d where d: "timer_minus next now = Some d" "micros d = micros next - micros now" "tv_normal d"
    using timer_minus_ok [OF small assms(1)] assms(2,4) by blast
  have "\<bar>micros d\<bar> \<le> 2000000000003000000"
    using d(2) assms(2-5) unfolding micros_def tv_normal_def by linarith
  then have sec: "\<bar>tv_sec d * 1000000\<bar> \<le> 2000000000004000000"
    using d(3) unfolding micros_def tv_normal_def by linarith
  have "c_long (tv_sec d * 1000000) = Some (tv_sec d * 1000000)"
    by (rule c_long_id) (use sec in linarith)+
  moreover have "c_long (tv_sec d * 1000000 + tv_usec d) = Some (micros next - micros now)"
    unfolding d(2) [symmetric] unfolding micros_def
    by (rule c_long_id) (use sec d(3) in \<open>unfold tv_normal_def, linarith\<close>)+
  ultimately show ?thesis using d(1) by (simp add: loop_sleep_def timer_greater_less)
qed

lemma loop_sleep_simps [simp]:
  "watcher_at (loop_sleep now w next) es = watcher_at w es"
  "aw_calls (loop_sleep now w next) = aw_calls w"
  "aw_loop (loop_sleep now w next) = aw_loop w"
  by (simp_all add: loop_sleep_def watcher_at_def)

lemma watch_spec_range:
  "0 \<le> n \<Longrightarrow> fst (watch_spec pr k n ps) = - 1 \<or>
   n \<le> fst (watch_spec pr k n ps) \<and> fst (watch_spec pr k n ps) \<le> n + int (length ps) \<and>
   fst (watch_spec pr k n ps) = n + int (length (fst (snd (watch_spec pr k n ps))))"
  by (induction pr k n ps rule: watch_spec.induct) (auto simp: case_prod_beta Let_def split: if_splits)

lemma watchloop_pass_ok:
  assumes "watcher_at w es" and "quiet cb" and "fresh_sockets nets (aw_fds w)"
    and "length es < 2147483648" and "0 \<le> n0" and "n0 + int (length es) < 2147483648"
    and "0 \<le> aw_timeout w" and "aw_timeout w < 2147483648"
    and "tv_normal now1" and "\<bar>tv_sec now1\<bar> \<le> 100000000000"
    and "tv_normal now2" and "\<bar>tv_sec now2\<bar> \<le> 100000000000"
    and "tv_normal next" and "\<bar>tv_sec next\<bar> \<le> 1000000000000"
  shows "\<exists>w1 es' next' n0'. watchloop_pass cb nets now1 now2 w next n0 = Some (loop_sleep now2 w1 next', next', n0') \<and>
    watcher_at w1 es' \<and> same_watcher w w1 \<and>
    (if timer_less next now1
     then watched es' = snd (snd (watch_spec (probes nets) 0 0 (watched es))) \<and>
       aw_calls w1 = aw_calls w @ fst (snd (watch_spec (probes nets) 0 0 (watched es))) \<and>
       (if fst (watch_spec (probes nets) 0 0 (watched es)) = - 1
        then n0' = - 1 \<and> \<not> aw_loop w1 \<and> next' = next
        else n0' = n0 + fst (watch_spec (probes nets) 0 0 (watched es)) \<and>
          tv_normal next' \<and> micros next' = micros now1 + aw_timeout w * 1000)
     else w1 = w \<and> es' = es \<and> next' = next \<and> n0' = n0) \<and>
    (timer_less next now1 \<longrightarrow> fst (watch_spec (probes nets) 0 0 (watched es)) \<noteq> - 1 \<longrightarrow>
       cb = breaking brk \<longrightarrow> aw_loop w1 =
         (aw_loop w \<and> \<not> broken brk (fst (snd (watch_spec (probes nets) 0 0 (watched es))))))"
proof (cases "timer_less next now1")
  case False
  have "watchloop_pass cb nets now1 now2 w next n0 = Some (loop_sleep now2 w next, next, n0)"
    unfolding watchloop_pass_def
    using False assms(9-14) loop_sleep_ok [of now2 "next" w n0] by (simp add: timer_greater_less tv_small_def tv_normal_def)
  then show ?thesis using False assms(1) by (auto simp: same_watcher_def)
next
  case True
  obtain w' es' where w': "addr_watcher_watch cb nets w = Some (fst (watch_spec (probes nets) 0 0 (watched es)), w')"
    "watcher_at w' es'" "watched es' = snd (snd (watch_spec (probes nets) 0 0 (watched es)))"
    "aw_calls w' = aw_calls w @ fst (snd (watch_spec (probes nets) 0 0 (watched es)))" "same_watcher w w'"
    "cb = breaking brk \<longrightarrow> aw_loop w' =
      (aw_loop w \<and> \<not> broken brk (fst (snd (watch_spec (probes nets) 0 0 (watched es)))))"
    using addr_watcher_watch_ok [OF assms(1-4)] by blast
  let ?r = "fst (watch_spec (probes nets) 0 0 (watched es))"
  show ?thesis
  proof (cases "?r = - 1")
    case r: True
    have "watchloop_pass cb nets now1 now2 w next n0 = Some (w'\<lparr>aw_loop := False\<rparr>, next, - 1)"
      using True r w'(1) by (simp add: watchloop_pass_def timer_greater_less)
    moreover have "loop_sleep now2 (w'\<lparr>aw_loop := False\<rparr>) next = w'\<lparr>aw_loop := False\<rparr>"
      by (simp add: loop_sleep_def)
    moreover have "watcher_at (w'\<lparr>aw_loop := False\<rparr>) es'" "same_watcher w (w'\<lparr>aw_loop := False\<rparr>)"
      using w'(2,5) by (simp_all add: watcher_at_def same_watcher_def)
    ultimately show ?thesis using True r w'(3,4)
      by (intro exI [of _ "w'\<lparr>aw_loop := False\<rparr>"] exI [of _ es'] exI [of _ "next"] exI [of _ "- 1"]) simp
  next
    case r: False
    have "0 \<le> ?r" "?r \<le> int (length es)"
      using watch_spec_range [of 0 "probes nets" 0 "watched es"] r by (auto simp: watched_def)
    then have int: "c_int (n0 + ?r) = Some (n0 + ?r)" using assms(5,6) by simp
    have timeout: "aw_timeout w' = aw_timeout w" using w'(5) by (simp add: same_watcher_def)
    let ?d = "\<lparr>tv_sec = c_div (aw_timeout w) 1000, tv_usec = c_mod (aw_timeout w) 1000 * 1000\<rparr>"
    note d = timeout_timeval [OF assms(7,8)]
    have small: "tv_small now1" using assms(9,10) by (simp add: tv_small_def tv_normal_def)
    obtain next' where n: "timer_plus now1 ?d = Some next'" "micros next' = micros now1 + aw_timeout w * 1000"
      "tv_normal next'" "tv_sec next' \<le> tv_sec now1 + tv_sec ?d + 1"
      using timer_plus_ok [OF small d(1)] d assms(9) by auto
    have "\<bar>tv_sec next'\<bar> \<le> 1000000000001"
      using n(2,3) assms(7-10) unfolding micros_def tv_normal_def by linarith
    then have "watchloop_pass cb nets now1 now2 w next n0 = Some (loop_sleep now2 w' next', next', n0 + ?r)"
      unfolding watchloop_pass_def
      using True r w'(1) int timeout n(1,3) assms(11,12) loop_sleep_ok [of now2 next' w' "n0 + ?r"]
      by (simp add: timer_greater_less tv_small_def tv_normal_def)
    then show ?thesis using True r w'(2-6) n(2,3)
      by (intro exI [of _ w'] exI [of _ es'] exI [of _ next'] exI [of _ "n0 + ?r"]) simp
  qed
qed

subsection \<open>The loop\<close>

text \<open>The answers of the system in the passes: free sockets, and times far from the limits.\<close>

definition answers_ok :: "int set \<Rightarrow> ((nat \<Rightarrow> net) \<times> timeval \<times> timeval) list \<Rightarrow> bool" where
  "answers_ok F ins \<longleftrightarrow> (\<forall>(nets, now1, now2) \<in> set ins. fresh_sockets nets F \<and>
     tv_normal now1 \<and> \<bar>tv_sec now1\<bar> \<le> 100000000000 \<and> tv_normal now2 \<and> \<bar>tv_sec now2\<bar> \<le> 100000000000)"

lemma next_bound:
  assumes "tv_normal now" "\<bar>tv_sec now\<bar> \<le> 100000000000" and "tv_normal d"
    and "micros d = micros now + ms * 1000" and "0 \<le> ms" "ms < 2147483648"
  shows "\<bar>tv_sec d\<bar> \<le> 1000000000000"
  using assms unfolding micros_def tv_normal_def by linarith

lemma same_watcher_trans: "same_watcher w1 w2 \<Longrightarrow> same_watcher w2 w3 \<Longrightarrow>
    aw_addrs w3 = aw_addrs w1 \<and> aw_fds w3 = aw_fds w1 \<and> aw_timeout w3 = aw_timeout w1"
  by (simp add: same_watcher_def)

lemma loop_sleep_same [simp]:
  "aw_fds (loop_sleep now w next) = aw_fds w"
  "aw_timeout (loop_sleep now w next) = aw_timeout w"
  by (simp_all add: loop_sleep_def)

lemma watch_spec_names: "map fst (snd (snd (watch_spec pr k n ps))) = map fst ps"
  by (induction pr k n ps rule: watch_spec.induct) (auto simp: case_prod_beta Let_def)

text \<open>
  What the loop does, on pairs of address and state and times in microseconds: a pass in which the
  next round is not due does nothing but sleep; a due round is \<open>watch_spec\<close>. A failed round ends the
  loop with \<open>-1\<close>, one with a report that breaks the loop ends it with the total, any other one
  sets the next round \<open>ms\<close> milliseconds after its time. The results: the value returned, if the loop
  has ended within the passes, the calls of the callback and the pairs.
\<close>

fun loop_spec :: "(string \<Rightarrow> int \<Rightarrow> bool) \<Rightarrow> int \<Rightarrow> ((nat \<Rightarrow> net) \<times> timeval \<times> timeval) list \<Rightarrow> int \<Rightarrow>
    (string \<times> addr_state) list \<Rightarrow> int \<Rightarrow>
    int option \<times> (string \<times> int) list \<times> (string \<times> addr_state) list" where
  "loop_spec brk ms [] nxt ps n0 = (None, [], ps)"
| "loop_spec brk ms ((nets, now1, now2) # ins) nxt ps n0 =
     (if nxt < micros now1 then
        let (n, calls, ps') = watch_spec (probes nets) 0 0 ps in
        if n = - 1 then (Some (- 1), calls, ps')
        else if broken brk calls then (Some (n0 + n), calls, ps')
        else let (r, calls', ps'') = loop_spec brk ms ins (micros now1 + ms * 1000) ps' (n0 + n)
             in (r, calls @ calls', ps'')
      else loop_spec brk ms ins nxt ps n0)"

lemma loop_spec_names: "map fst (snd (snd (loop_spec brk ms ins nxt ps n0))) = map fst ps"
proof (induction brk ms ins nxt ps n0 rule: loop_spec.induct)
  case (2 brk ms nets now1 now2 ins nxt ps n0)
  obtain n calls ps' where w: "watch_spec (probes nets) 0 0 ps = (n, calls, ps')"
    by (cases "watch_spec (probes nets) 0 0 ps")
  have "map fst ps' = map fst ps" using watch_spec_names [of "probes nets" 0 0 ps] w by simp
  then show ?case using 2 w by (auto simp: case_prod_beta Let_def)
qed simp

text \<open>A value other than \<open>-1\<close> is the number of reports.\<close>

lemma loop_spec_count:
  "fst (loop_spec brk ms ins nxt ps n0) = Some m \<Longrightarrow>
   m = - 1 \<or> m = n0 + int (length (fst (snd (loop_spec brk ms ins nxt ps n0))))"
proof (induction brk ms ins nxt ps n0 rule: loop_spec.induct)
  case (2 brk ms nets now1 now2 ins nxt ps n0)
  obtain n calls ps' where w: "watch_spec (probes nets) 0 0 ps = (n, calls, ps')"
    by (cases "watch_spec (probes nets) 0 0 ps")
  have "n = - 1 \<or> n = int (length calls)" using watch_spec_range [of 0 "probes nets" 0 ps] w by auto
  then show ?case using 2 w by (auto simp: case_prod_beta Let_def split: if_splits)
qed simp

lemma loop_ended: "\<not> aw_loop w \<Longrightarrow> watchloop_loop cb ins w next n0 = Some (Some n0, w)"
  by (cases ins) auto

text \<open>The loop does exactly that, with the total within an \<open>int\<close>.\<close>

lemma watchloop_loop_ok:
  assumes timeout: "0 \<le> ms" "ms < 2147483648"
  shows "answers_ok F ins \<Longrightarrow> watcher_at w es \<Longrightarrow> aw_fds w = F \<Longrightarrow> aw_timeout w = ms \<Longrightarrow> aw_loop w \<Longrightarrow>
    0 \<le> n0 \<Longrightarrow> n0 + int (length es) * (int (length ins) + 1) < 2147483648 \<Longrightarrow>
    tv_normal next \<Longrightarrow> \<bar>tv_sec next\<bar> \<le> 1000000000000 \<Longrightarrow>
    loop_spec brk ms ins (micros next) (watched es) n0 = (r, calls, ps) \<Longrightarrow>
    \<exists>w' es'. watchloop_loop (breaking brk) ins w next n0 = Some (r, w') \<and> watcher_at w' es' \<and>
      watched es' = ps \<and> aw_calls w' = aw_calls w @ calls \<and> (aw_loop w' \<longleftrightarrow> r = None)"
proof (induction ins arbitrary: w es n0 "next" calls)
  case Nil
  then show ?case by auto
next
  case (Cons x ins)
  obtain nets now1 now2 where x: "x = (nets, now1, now2)" by (cases x)
  have ans: "fresh_sockets nets (aw_fds w)" "tv_normal now1" "\<bar>tv_sec now1\<bar> \<le> 100000000000"
    "tv_normal now2" "\<bar>tv_sec now2\<bar> \<le> 100000000000" "answers_ok F ins"
    using Cons.prems(1,3) x by (auto simp: answers_ok_def)
  define p l where "p = int (length es) * int (length ins)" and "l = int (length es)"
  have ms: "0 \<le> aw_timeout w" "aw_timeout w < 2147483648" using timeout Cons.prems(4) by simp_all
  have len: "0 \<le> p" "0 \<le> l" by (simp_all add: p_def l_def)
  have "l * (int (length (x # ins)) + 1) = p + l + l" by (simp add: p_def l_def algebra_simps)
  then have "n0 + (p + l + l) < 2147483648" using Cons.prems(7) by (simp only: l_def)
  then have sum: "n0 + l < 2147483648" "l < 2147483648" "n0 + l + (p + l) < 2147483648"
    using len Cons.prems(6) by linarith+
  then have bound: "n0 + int (length es) < 2147483648" "length es < 2147483648"
    by (simp_all add: l_def)
  obtain n cs qs where round: "watch_spec (probes nets) 0 0 (watched es) = (n, cs, qs)"
    by (cases "watch_spec (probes nets) 0 0 (watched es)")
  obtain w1 es1 next1 n1 where pass: "watchloop_pass (breaking brk) nets now1 now2 w next n0 =
      Some (loop_sleep now2 w1 next1, next1, n1)" "watcher_at w1 es1" "same_watcher w w1"
    "if timer_less next now1
     then watched es1 = qs \<and> aw_calls w1 = aw_calls w @ cs \<and>
       (if n = - 1 then n1 = - 1 \<and> \<not> aw_loop w1 \<and> next1 = next
        else n1 = n0 + n \<and> tv_normal next1 \<and> micros next1 = micros now1 + aw_timeout w * 1000)
     else w1 = w \<and> es1 = es \<and> next1 = next \<and> n1 = n0"
    "timer_less next now1 \<longrightarrow> n \<noteq> - 1 \<longrightarrow> breaking brk = breaking brk \<longrightarrow>
       aw_loop w1 = (aw_loop w \<and> \<not> broken brk cs)"
    using watchloop_pass_ok [where brk = brk, OF Cons.prems(2) breaking_quiet [of brk] ans(1) bound(2) Cons.prems(6) bound(1) ms ans(2-5)
      Cons.prems(8,9)] unfolding round fst_conv snd_conv
    by (elim exE conjE) (rule that)
  let ?w = "loop_sleep now2 w1 next1"
  have step: "watchloop_loop (breaking brk) (x # ins) w next n0 = watchloop_loop (breaking brk) ins ?w next1 n1"
    using Cons.prems(5) x pass(1) by simp
  have w: "watcher_at ?w es1" "aw_fds ?w = F" "aw_timeout ?w = ms" "aw_calls ?w = aw_calls w1"
    "aw_loop ?w = aw_loop w1"
    using pass(2,3) Cons.prems(3,4) by (simp_all add: same_watcher_def)
  have due: "timer_less next now1 \<longleftrightarrow> micros next < micros now1"
    by (rule timer_less_micros [OF Cons.prems(8) ans(2)])
  have names: "map fst qs = map fst (watched es)"
    using watch_spec_names [of "probes nets" 0 0 "watched es"] round by simp
  have "length qs = length es" using arg_cong [OF names, of length] by (simp add: watched_def)
  then have len1: "length es1 = length es"
    using pass(4) by (auto simp: watched_def split: if_splits)
  consider (idle) "\<not> timer_less next now1" | (failed) "timer_less next now1" "n = - 1"
    | (broken) "timer_less next now1" "n \<noteq> - 1" "broken brk cs"
    | (on) "timer_less next now1" "n \<noteq> - 1" "\<not> broken brk cs" by blast
  then show ?case
  proof cases
    case idle
    have "n0 + int (length es) * (int (length ins) + 1) < 2147483648"
      using sum len by (simp add: p_def l_def algebra_simps)
    then show ?thesis
      using Cons.IH [of ?w es1 n0 next1 calls] idle pass(4) ans(6) w Cons.prems(5,6,8-10) step due x by auto
  next
    case failed
    then have "watchloop_loop (breaking brk) (x # ins) w next n0 = Some (Some (- 1), ?w)"
      unfolding step using pass(4) w(5) by (simp add: loop_ended)
    then show ?thesis using failed pass(4) w Cons.prems(10) due round x by auto
  next
    case broken
    then have "watchloop_loop (breaking brk) (x # ins) w next n0 = Some (Some (n0 + n), ?w)"
      unfolding step using pass(4,5) w(5) by (simp add: loop_ended)
    then show ?thesis using broken pass(4,5) w Cons.prems(10) due round x by auto
  next
    case on
    have n: "0 \<le> n" "n \<le> int (length es)"
      using watch_spec_range [of 0 "probes nets" 0 "watched es"] round on(2) by (auto simp: watched_def)
    have nxt: "tv_normal next1" "micros next1 = micros now1 + ms * 1000" "n1 = n0 + n" "aw_loop ?w"
      "watched es1 = qs" "aw_calls w1 = aw_calls w @ cs"
      using on pass(4,5) w(5) Cons.prems(4,5) by auto
    have "\<bar>tv_sec next1\<bar> \<le> 1000000000000" by (rule next_bound [OF ans(2,3) nxt(1,2) timeout])
    moreover have "n1 + int (length es1) * (int (length ins) + 1) < 2147483648"
      using n sum nxt(3) by (simp add: len1 p_def l_def algebra_simps)
    moreover obtain cs' where cs': "loop_spec brk ms ins (micros next1) (watched es1) n1 = (r, cs', ps)"
      "calls = cs @ cs'"
      using Cons.prems(10) on due round x nxt(2,3,5)
      by (cases "loop_spec brk ms ins (micros next1) (watched es1) n1") auto
    moreover have "0 \<le> n1" using nxt(3) n(1) Cons.prems(6) by simp
    ultimately show ?thesis
      using Cons.IH [OF ans(6) w(1-3) nxt(4) _ _ nxt(1), of n1 cs'] nxt(6) w(4) step by auto
  qed
qed

subsection \<open>Properties\<close>

text \<open>
  C28: Refinement of a sequence of addresses with the states they were last seen in. Adding an
  address appends it as not yet seen unless it is there, deleting one removes it, both return how many
  there are; a round of probes goes through them in order, stores every answer, calls the callback
  exactly for the addresses whose state has changed, stops at the first failure and otherwise returns how
  many have changed, with no socket left open; destroying the watcher frees all items and the list.
\<close>

theorem addr_watcher_refines:
  assumes "imalloc_ok malloc" and "lmalloc_ok lmalloc" and "watcher_at w es"
    and "quiet cb" and "fresh_sockets nets (aw_fds w)" and "length es < 2147483648"
  shows "(\<exists>w' es'. addr_watcher_add_addr malloc lmalloc w s = Some (int (length es'), w') \<and> watcher_at w' es' \<and>
      watched es' = (if s \<in> fst ` set (watched es) then watched es else watched es @ [(s, ST_NULL)])) \<and>
    (\<exists>w' es'. addr_watcher_del_addr w s = Some (int (length es'), w') \<and> watcher_at w' es' \<and>
      watched es' = filter (\<lambda>p. fst p \<noteq> s) (watched es)) \<and>
    (\<exists>w' es' r calls. watch_spec (probes nets) 0 0 (watched es) = (r, calls, watched es') \<and>
      addr_watcher_watch cb nets w = Some (r, w') \<and> watcher_at w' es' \<and>
      aw_calls w' = aw_calls w @ calls \<and> aw_fds w' = aw_fds w \<and> (r = - 1 \<or> r = int (length calls))) \<and>
    (\<exists>w'. addr_watcher_destroy w = Some w' \<and> aw_items w' = Map.empty \<and>
      ls_heads (aw_lists w') (aw_addrs w) = None)"
proof -
  obtain w' es' where "addr_watcher_watch cb nets w = Some (fst (watch_spec (probes nets) 0 0 (watched es)), w')"
    "watcher_at w' es'" "watched es' = snd (snd (watch_spec (probes nets) 0 0 (watched es)))"
    "aw_calls w' = aw_calls w @ fst (snd (watch_spec (probes nets) 0 0 (watched es)))" "same_watcher w w'"
    using addr_watcher_watch_ok [OF assms(3-6)] by blast
  then have "\<exists>w' es' r calls. watch_spec (probes nets) 0 0 (watched es) = (r, calls, watched es') \<and>
      addr_watcher_watch cb nets w = Some (r, w') \<and> watcher_at w' es' \<and>
      aw_calls w' = aw_calls w @ calls \<and> aw_fds w' = aw_fds w \<and> (r = - 1 \<or> r = int (length calls))"
    using watch_spec_range [of 0 "probes nets" 0 "watched es"] unfolding same_watcher_def
    by (intro exI [of _ w'] exI [of _ es'] exI [of _ "fst (watch_spec (probes nets) 0 0 (watched es))"]
        exI [of _ "fst (snd (watch_spec (probes nets) 0 0 (watched es)))"]) auto
  then show ?thesis
    using addr_watcher_add_ok [OF assms(1-3)] addr_watcher_del_ok [OF assms(3)]
      addr_watcher_destroy_ok [OF assms(3)] by blast
qed

definition free_addr :: "addr set \<Rightarrow> addr" where
  "free_addr S = (LEAST a. a \<notin> S)"

lemma free_addr_ok: "imalloc_ok free_addr"
  unfolding imalloc_ok_def free_addr_def
  by (metis LeastI ex_new_if_finite infinite_UNIV_nat)

definition sample_watcher :: addr_watcher where
  "sample_watcher = \<lparr>aw_timeout = 1500, aw_addrs = 1, aw_ud = None, aw_loop = True,
     aw_items = [5 \<mapsto> \<lparr>ai_addr = ''a'', ai_state = ST_NULL\<rparr>, 6 \<mapsto> \<lparr>ai_addr = ''b'', ai_state = ST_UP\<rparr>],
     aw_lists = \<lparr>ls_heads = [1 \<mapsto> mk_head (Some 2) (ItemSlot 3) False],
       ls_items = [2 \<mapsto> mk_item 5 1 (Some 3) (HeadSlot 1), 3 \<mapsto> mk_item 6 1 None (ItemSlot 2)]\<rparr>,
     aw_fds = {0}, aw_calls = [], aw_sleeps = []\<rparr>"

definition sample_items :: "(addr \<times> addr_item) list" where
  "sample_items = [(5, \<lparr>ai_addr = ''a'', ai_state = ST_NULL\<rparr>), (6, \<lparr>ai_addr = ''b'', ai_state = ST_UP\<rparr>)]"

definition sample_net :: net where
  "sample_net = \<lparr>net_socket = 4, net_setsockopt = (\<lambda>_. 0), net_pton = (\<lambda>s. (1, if s = ''a'' then 1 else 2)),
     net_bind = (\<lambda>_ sa. if sa = 1 then (0, 0) else (- 1, 99))\<rparr>"

lemma sample_watcher_at: "watcher_at sample_watcher sample_items"
proof -
  have "list_at (aw_lists sample_watcher) 1 [(2, 5), (3, 6)]"
    by (auto simp: sample_watcher_def list_at_def)
  from list_valsI [OF this] show ?thesis
    by (auto simp: watcher_at_def sample_watcher_def sample_items_def items_are_def lstore_fin_def)
qed

lemma sample_probes: "probe sample_net ''a'' = 1" "probe sample_net ''b'' = 0"
  by (simp_all add: probe_def addrwatch_def sample_net_def EADDRNOTAVAIL_def)

lemma sample_watched: "watched sample_items = [(''a'', ST_NULL), (''b'', ST_UP)]"
  by (simp add: watched_def sample_items_def)

lemma sample_watcher_sides:
  "fresh_sockets (\<lambda>_. sample_net) (aw_fds sample_watcher)" "length sample_items < 2147483648"
  by (simp_all add: fresh_sockets_def sample_net_def sample_watcher_def sample_items_def)

lemma quiet_Some: "quiet (\<lambda>_ _ w. Some w)"
  by (simp add: quiet_def)

theorem addr_watcher_refines_witness:
  "\<exists>w'. addr_watcher_watch (\<lambda>_ _ w. Some w) (\<lambda>_. sample_net) sample_watcher = Some (2, w') \<and>
     aw_calls w' = [(''a'', 1), (''b'', 0)]"
proof -
  have "aw_calls sample_watcher = []" by (simp add: sample_watcher_def)
  moreover have "watch_spec (probes (\<lambda>_. sample_net)) 0 0 (watched sample_items) =
      (2, [(''a'', 1), (''b'', 0)], [(''a'', ST_UP), (''b'', ST_DOWN)])"
    by (simp add: sample_watched sample_probes state_of_def probes_def)
  ultimately show ?thesis
    using addr_watcher_refines [OF free_addr_ok lowest_unused_ok sample_watcher_at quiet_Some
        sample_watcher_sides, of undefined]
    by auto
qed

text \<open>
  C31: A callback must not delete the address it is called for: \<open>addr_watcher_watch\<close> then reads the
  next pointer of the list item that has been freed.
\<close>

theorem addr_watch_del_in_callback:
  assumes "watcher_at w (e # es)" and "net_socket (nets 0) \<notin> aw_fds w"
    and "probe (nets 0) (ai_addr (snd e)) \<noteq> - 1" and "state_of (probe (nets 0) (ai_addr (snd e))) \<noteq> ai_state (snd e)"
  shows "addr_watcher_watch (\<lambda>a up w. do { (_, w) \<leftarrow> addr_watcher_del_addr w a; Some w }) nets w = None"
proof -
  obtain a i where e: "e = (a, i)" by (cases e)
  have it: "items_are (aw_items w) (e # es)" using assms(1) by (simp add: watcher_at_def)
  obtain xs where xs: "list_at (aw_lists w) (aw_addrs w) xs" "map snd xs = map fst (e # es)"
    using assms(1) by (auto simp: watcher_at_def list_vals_def)
  then obtain b ys where b: "xs = (b, a) # ys" using e by (cases xs) auto
  have at: "list_at (aw_lists w) (aw_addrs w) ([] @ (b, a) # ys)" using xs(1) b by simp
  have item: "aw_items w a = Some i" using items_areD [OF it, of a i] e by simp
  have val: "list_iter_value (aw_lists w) (Some b) = Some a"
    using list_value_ok [OF at] by (simp add: list_iter_value_def list_iterator_get_value_def)
  have fds: "addrwatch (nets 0) (aw_fds w) s = (probe (nets 0) s, aw_fds w)" for s
    using addrwatch_probe assms(2) by simp
  define up where "up = probe (nets 0) (ai_addr i)"
  have up: "up \<noteq> - 1" "(if up \<noteq> 0 then ST_UP else ST_DOWN) \<noteq> ai_state i"
    using assms(3,4) e by (simp_all add: up_def state_of_def)
  define w1 where "w1 = w\<lparr>aw_items := (aw_items w)(a \<mapsto> i\<lparr>ai_state := if up \<noteq> 0 then ST_UP else ST_DOWN\<rparr>),
      aw_calls := aw_calls w @ [(ai_addr i, up)]\<rparr>"
  have w1: "aw_lists w1 = aw_lists w" "aw_addrs w1 = aw_addrs w" by (simp_all add: w1_def)
  have "addr_matches (aw_items w1) a (ai_addr i)"
    by (simp add: w1_def addr_matches_def addr_item_match_addr_def)
  then have find: "list_find_iterator (aw_lists w1) (aw_addrs w1) (addr_matches (aw_items w1)) (ai_addr i) =
      Some (Some b)"
    using list_find_iterator_ok [of "aw_lists w1" "aw_addrs w1" xs "addr_matches (aw_items w1)" "ai_addr i"]
      xs(1) b w1 by (simp add: first_match_def)
  obtain ls where ls: "list_remove (aw_lists w) (aw_addrs w) (Some b) = Some (a, ls)" "ls_items ls b = None"
    using list_remove_ok [OF at] by blast
  have dead: "aw_lists w2 = ls" if "addr_watcher_del_addr w1 (ai_addr i) = Some (n, w2)" for n w2
    using that find ls(1) w1
    by (auto simp: addr_watcher_del_addr_def list_remove_first_match_def addr_item_destructor_def Let_def
        split: bind_splits)
  have "list_next ls (Some b) = None"
    using ls(2) by (simp add: list_next_def TAILQ_NEXT_def item_at_def)
  then have "watch_loop (\<lambda>a up w. do { (_, w) \<leftarrow> addr_watcher_del_addr w a; Some w }) nets 0 w (Some b) 0 = None"
    using val item fds up dead
    by (subst watch_loop.simps)
      (auto simp: Let_def up_def [symmetric] w1_def [symmetric] split: bind_splits)
  then show ?thesis
    using list_first_ok [OF xs(1)] b by (simp add: addr_watcher_watch_def)
qed

theorem addr_watch_del_in_callback_witness:
  "addr_watcher_watch (\<lambda>a up w. do { (_, w) \<leftarrow> addr_watcher_del_addr w a; Some w }) (\<lambda>_. sample_net) sample_watcher = None"
  using addr_watch_del_in_callback [of sample_watcher "hd sample_items" "tl sample_items" "\<lambda>_. sample_net"]
    sample_watcher_at sample_watcher_sides sample_probes fresh_sockets_def
  by (simp add: sample_items_def state_of_def)

text \<open>
  C29: A pass of \<open>addr_watcher_watchloop\<close> does a round of probes exactly if the time has come. If a
  probe fails, the loop ends with \<open>-1\<close>; otherwise the changes are added to the total, and the next
  round is due exactly \<open>timeout\<close> milliseconds after the time of this one. Then, if the loop was not
  broken, it sleeps for the rest of the time, in microseconds modulo \<open>2 ^ 32\<close>.
\<close>

theorem watchloop_pass_correct:
  assumes "watcher_at w es" and "quiet cb" and "fresh_sockets nets (aw_fds w)"
    and "length es < 2147483648" and "0 \<le> n0" and "n0 + int (length es) < 2147483648"
    and "0 \<le> aw_timeout w" and "aw_timeout w < 2147483648"
    and "tv_normal now1" and "\<bar>tv_sec now1\<bar> \<le> 100000000000"
    and "tv_normal now2" and "\<bar>tv_sec now2\<bar> \<le> 100000000000"
    and "tv_normal next" and "\<bar>tv_sec next\<bar> \<le> 1000000000000"
  shows "\<exists>w1 es' next' n0'. watchloop_pass cb nets now1 now2 w next n0 = Some (loop_sleep now2 w1 next', next', n0') \<and>
    watcher_at w1 es' \<and> same_watcher w w1 \<and>
    (if timer_less next now1
     then watched es' = snd (snd (watch_spec (probes nets) 0 0 (watched es))) \<and>
       aw_calls w1 = aw_calls w @ fst (snd (watch_spec (probes nets) 0 0 (watched es))) \<and>
       (if fst (watch_spec (probes nets) 0 0 (watched es)) = - 1
        then n0' = - 1 \<and> \<not> aw_loop w1 \<and> next' = next
        else n0' = n0 + fst (watch_spec (probes nets) 0 0 (watched es)) \<and>
          tv_normal next' \<and> micros next' = micros now1 + aw_timeout w * 1000)
     else w1 = w \<and> es' = es \<and> next' = next \<and> n0' = n0)"
  using watchloop_pass_ok [OF assms, where brk = "\<lambda>_ _. True"]
  by (elim exE conjE) (intro exI conjI; assumption)

theorem watchloop_pass_correct_witness:
  "\<exists>w1 next'. watchloop_pass (\<lambda>_ _ w. Some w) (\<lambda>_. sample_net) \<lparr>tv_sec = 10, tv_usec = 5\<rparr> \<lparr>tv_sec = 10, tv_usec = 900\<rparr>
      sample_watcher \<lparr>tv_sec = 10, tv_usec = 0\<rparr> 7 = Some (loop_sleep \<lparr>tv_sec = 10, tv_usec = 900\<rparr> w1 next', next', 9) \<and>
    micros next' = 11500005"
proof -
  have "watch_spec (probes (\<lambda>_. sample_net)) 0 0 (watched sample_items) =
      (2, [(''a'', 1), (''b'', 0)], [(''a'', ST_UP), (''b'', ST_DOWN)])"
    by (simp add: sample_watched sample_probes state_of_def probes_def)
  moreover have "aw_timeout sample_watcher = 1500" "length sample_items = 2"
    by (simp_all add: sample_watcher_def sample_items_def)
  ultimately show ?thesis
    using watchloop_pass_correct [OF sample_watcher_at quiet_Some sample_watcher_sides, of 7
        "\<lparr>tv_sec = 10, tv_usec = 5\<rparr>" "\<lparr>tv_sec = 10, tv_usec = 900\<rparr>" "\<lparr>tv_sec = 10, tv_usec = 0\<rparr>"]
    by (fastforce simp: tv_normal_def timer_less_def micros_def)
qed

text \<open>
  C30: For a callback that breaks the loop at the reports satisfying \<open>brk\<close> and leaves the watcher alone
  otherwise (C31 shows what another one can do), and as many passes as keep the total within an
  \<open>int\<close> (addresses times passes below 2 to the 31): whatever the system answers in each probe,
  \<open>addr_watcher_watchloop\<close> is defined and does exactly what \<open>loop_spec\<close> says. It returns \<open>-1\<close> exactly when
  a round fails, the total exactly when a round reports a change that breaks the loop, and otherwise
  is still running with its flag set; the calls of the callback and the states are those of the
  rounds that were due. A returned value other than \<open>-1\<close> is the number of changes reported, and the
  watched addresses are the same, in the same order.
\<close>

theorem watchloop_counts_changes:
  assumes "watcher_at w es" and "answers_ok (aw_fds w) ins"
    and "0 \<le> aw_timeout w" and "aw_timeout w < 2147483648"
    and "int (length es) * (int (length ins) + 1) < 2147483648"
    and "tv_normal start" and "\<bar>tv_sec start\<bar> \<le> 1000000000000"
  shows "\<exists>r calls w' es'.
    loop_spec brk (aw_timeout w) ins (micros start) (watched es) 0 = (r, calls, watched es') \<and>
    addr_watcher_watchloop (breaking brk) start ins w = Some (r, w') \<and> watcher_at w' es' \<and>
    aw_calls w' = aw_calls w @ calls \<and> (aw_loop w' \<longleftrightarrow> r = None) \<and>
    (\<forall>m. r = Some m \<longrightarrow> m = - 1 \<or> m = int (length calls)) \<and>
    map fst (watched es') = map fst (watched es)"
proof -
  obtain r calls ps where spec:
    "loop_spec brk (aw_timeout w) ins (micros start) (watched es) 0 = (r, calls, ps)"
    by (cases "loop_spec brk (aw_timeout w) ins (micros start) (watched es) 0")
  have "watcher_at (w\<lparr>aw_loop := True\<rparr>) es" using assms(1) by (simp add: watcher_at_def)
  from watchloop_loop_ok [OF assms(3,4,2) this _ _ _ order_refl _ assms(6,7) spec] assms(5)
  obtain w' es' where "watchloop_loop (breaking brk) ins (w\<lparr>aw_loop := True\<rparr>) start 0 = Some (r, w')"
    "watcher_at w' es'" "watched es' = ps" "aw_calls w' = aw_calls w @ calls" "aw_loop w' \<longleftrightarrow> r = None"
    by auto
  then show ?thesis
    using spec loop_spec_names [of brk "aw_timeout w" ins "micros start" "watched es" 0]
      loop_spec_count [of brk "aw_timeout w" ins "micros start" "watched es" 0]
    by (intro exI [of _ r] exI [of _ calls] exI [of _ w'] exI [of _ es'])
      (simp add: addr_watcher_watchloop_def)
qed

text \<open>
  Three passes: the first is too early, in the second both addresses change and the report of the
  second one breaks the loop, the third is not reached. Without the break the loop is still running.
\<close>

definition sample_passes :: "((nat \<Rightarrow> net) \<times> timeval \<times> timeval) list" where
  "sample_passes =
     [(\<lambda>_. sample_net, \<lparr>tv_sec = 9, tv_usec = 5\<rparr>, \<lparr>tv_sec = 9, tv_usec = 9\<rparr>),
      (\<lambda>_. sample_net, \<lparr>tv_sec = 10, tv_usec = 5\<rparr>, \<lparr>tv_sec = 10, tv_usec = 9\<rparr>),
      (\<lambda>_. sample_net, \<lparr>tv_sec = 20, tv_usec = 5\<rparr>, \<lparr>tv_sec = 20, tv_usec = 9\<rparr>)]"

theorem watchloop_counts_changes_witness:
  "(\<exists>w'. addr_watcher_watchloop (breaking (\<lambda>a up. a = ''b'')) \<lparr>tv_sec = 10, tv_usec = 0\<rparr> sample_passes
      sample_watcher = Some (Some 2, w') \<and> aw_calls w' = [(''a'', 1), (''b'', 0)]) \<and>
   (\<exists>w'. addr_watcher_watchloop (breaking (\<lambda>a up. False)) \<lparr>tv_sec = 10, tv_usec = 0\<rparr> sample_passes
      sample_watcher = Some (None, w') \<and> aw_calls w' = [(''a'', 1), (''b'', 0)])"
proof -
  have ans: "answers_ok (aw_fds sample_watcher) sample_passes"
    using sample_watcher_sides by (simp add: answers_ok_def tv_normal_def sample_passes_def)
  have w: "aw_timeout sample_watcher = 1500" "aw_calls sample_watcher = []" "length sample_items = 2"
    by (simp_all add: sample_watcher_def sample_items_def)
  have spec: "loop_spec (\<lambda>a up. a = ''b'') 1500 sample_passes 10000000 (watched sample_items) 0 =
      (Some 2, [(''a'', 1), (''b'', 0)], [(''a'', ST_UP), (''b'', ST_DOWN)])"
    "loop_spec (\<lambda>a up. False) 1500 sample_passes 10000000 (watched sample_items) 0 =
      (None, [(''a'', 1), (''b'', 0)], [(''a'', ST_UP), (''b'', ST_DOWN)])"
    by (simp_all add: sample_passes_def micros_def sample_watched sample_probes state_of_def probes_def)
  have "micros \<lparr>tv_sec = 10, tv_usec = 0\<rparr> = 10000000" "length sample_passes = 3"
    by (simp_all add: micros_def sample_passes_def)
  then show ?thesis
    using watchloop_counts_changes [OF sample_watcher_at ans, of "\<lparr>tv_sec = 10, tv_usec = 0\<rparr>" "\<lambda>a up. a = ''b''"]
      watchloop_counts_changes [OF sample_watcher_at ans, of "\<lparr>tv_sec = 10, tv_usec = 0\<rparr>" "\<lambda>a up. False"]
      w spec by (auto simp: tv_normal_def)
qed

end
