(* ===== verification/OctStr.thy ===== *)
theory OctStr
  imports Bits Uintvar Netint
begin

section \<open>Octet strings (octstr.c)\<close>

text \<open>
  An octet string owns a buffer of \<open>size\<close> bytes, of which the first \<open>len\<close> are its octets; the code
  tries to keep a zero byte behind them. The model keeps the whole buffer. A cell that \<open>malloc\<close> or
  \<open>realloc\<close> has added and nothing has been written to holds an unspecified value: it is given by the
  argument \<open>junk\<close>, by the position of the cell. Allocation succeeds up to \<open>PTRDIFF_MAX\<close> bytes and
  returns \<open>NULL\<close> beyond. Lengths and positions are integers with the conversions of C between \<open>int\<close>,
  \<open>long\<close> and \<open>size_t\<close> written out; signed overflow is undefined.
\<close>

subsection \<open>State\<close>

record octstr =
  os_s :: "u8 list option"
  os_len :: int
  os_size :: int

text \<open>
  Where bytes are copied from: \<open>NULL\<close>, memory apart from the buffer that is written, or the buffer
  itself at an offset (the calls \<open>octstr_append(s, s)\<close> and \<open>octstr_replace(s, s)\<close>).
\<close>

datatype csrc = NoSrc | Ext "u8 list" | Own int

datatype oarg = Same | Other octstr

definition octstr_rd :: "octstr \<Rightarrow> int \<Rightarrow> u8 option" where
  [c_sem]: "octstr_rd s i = do { b \<leftarrow> os_s s; c_read b i }"

definition octstr_wr :: "octstr \<Rightarrow> int \<Rightarrow> u8 \<Rightarrow> octstr option" where
  [c_sem]: "octstr_wr s i v = do {
     b \<leftarrow> os_s s;
     b \<leftarrow> c_write b i v;
     Some (s\<lparr>os_s := Some b\<rparr>) }"

text \<open>A block of bytes stored at \<open>s->s + pos\<close>.\<close>

definition octstr_put :: "octstr \<Rightarrow> int \<Rightarrow> u8 list \<Rightarrow> octstr option" where
  [c_sem]: "octstr_put s pos bs = do {
     b \<leftarrow> os_s s;
     c_require (0 \<le> pos \<and> pos + int (length bs) \<le> int (length b));
     Some (s\<lparr>os_s := Some (take (nat pos) b @ bs @ drop (nat pos + length bs) b)\<rparr>) }"

text \<open>
  \<open>memcpy(s->s + pos, src, n)\<close>: the areas must not overlap, and a pointer into the buffer is dead
  once the buffer was reallocated (\<open>moved\<close>).
\<close>

definition octstr_memcpy :: "octstr \<Rightarrow> int \<Rightarrow> csrc \<Rightarrow> int \<Rightarrow> bool \<Rightarrow> octstr option" where
  [c_sem]: "octstr_memcpy s pos src n moved =
     (case src of
        NoSrc \<Rightarrow> None
      | Ext bs \<Rightarrow> do {
          c_require (0 \<le> n \<and> n \<le> int (length bs));
          octstr_put s pos (take (nat n) bs) }
      | Own k \<Rightarrow> do {
          b \<leftarrow> os_s s;
          c_require (\<not> moved \<and> 0 \<le> k \<and> 0 \<le> n \<and> k + n \<le> int (length b) \<and>
            (k + n \<le> pos \<or> pos + n \<le> k));
          octstr_put s pos (take (nat n) (drop (nat k) b)) })"

text \<open>The pointer \<open>s->s + pos\<close> as a source for another string.\<close>

definition octstr_ptr :: "octstr \<Rightarrow> int \<Rightarrow> csrc" where
  [c_sem]: "octstr_ptr s pos =
     (case os_s s of None \<Rightarrow> NoSrc
      | Some b \<Rightarrow> if 0 \<le> pos \<and> pos \<le> int (length b) then Ext (drop (nat pos) b) else NoSrc)"

definition arg_ptr :: "octstr \<Rightarrow> oarg \<Rightarrow> int \<Rightarrow> csrc" where
  [c_sem]: "arg_ptr dst a pos =
     (case a of Other t \<Rightarrow> octstr_ptr t pos
      | Same \<Rightarrow> (case os_s dst of None \<Rightarrow> NoSrc | Some _ \<Rightarrow> Own pos))"

definition arg_len :: "octstr \<Rightarrow> oarg \<Rightarrow> int" where
  [c_sem]: "arg_len dst a = (case a of Same \<Rightarrow> os_len dst | Other t \<Rightarrow> os_len t)"

subsection \<open>Allocation\<close>

definition octstr_alloc :: "(nat \<Rightarrow> u8) \<Rightarrow> u8 list option \<Rightarrow> int \<Rightarrow> u8 list option" where
  [c_sem]: "octstr_alloc junk old n =
     (if n < 2 ^ 63
      then let b = (case old of None \<Rightarrow> [] | Some b \<Rightarrow> b)
           in Some (take (nat n) b @ map junk [length b..<nat n])
      else None)"

definition octstr_calc_size :: "int \<Rightarrow> int" where
  [c_sem]: "octstr_calc_size len = to_size (len + 1024 - len mod 1024)"

text \<open>The test of \<open>octstr_grow\<close>: \<open>size\<close> is an \<open>int\<close> and is compared as a \<open>size_t\<close>.\<close>

definition octstr_new_size :: "int \<Rightarrow> int" where
  [c_sem]: "octstr_new_size len = to_int (octstr_calc_size (to_size (len + 1)))"

definition octstr_grows :: "octstr \<Rightarrow> int \<Rightarrow> bool" where
  [c_sem]: "octstr_grows s len \<longleftrightarrow> to_size (octstr_new_size len) > os_size s"

definition octstr_grow :: "(nat \<Rightarrow> u8) \<Rightarrow> octstr \<Rightarrow> int \<Rightarrow> octstr" where
  [c_sem]: "octstr_grow junk s len =
     (let size = octstr_new_size len
      in if octstr_grows s len
         then s\<lparr>os_s := octstr_alloc junk (os_s s) (to_size size), os_size := to_size size\<rparr>
         else s)"

definition octstr_resize :: "(nat \<Rightarrow> u8) \<Rightarrow> octstr \<Rightarrow> int \<Rightarrow> octstr option" where
  [c_sem]: "octstr_resize junk s len = do {
     let len = octstr_calc_size (to_size (len + 1));
     let s = s\<lparr>os_s := (if len = 0 then None else octstr_alloc junk (os_s s) len)\<rparr>;
     s \<leftarrow> (if os_s s \<noteq> None then octstr_wr s (to_size (len - 1)) 0 else Some s);
     let s = s\<lparr>os_size := len\<rparr>;
     Some (s\<lparr>os_len := (if len < os_len s then len else os_len s)\<rparr>) }"

text \<open>\<open>octstr_destroy\<close> frees the object, and its buffer if this is true.\<close>

definition octstr_destroy :: "octstr \<Rightarrow> bool" where
  [c_sem]: "octstr_destroy s = (os_s s \<noteq> None \<and> os_size s > 0)"

definition octstr_destructor :: "octstr \<Rightarrow> bool" where
  [c_sem]: "octstr_destructor s = octstr_destroy s"

definition octstr_len :: "octstr \<Rightarrow> int" where
  [c_sem]: "octstr_len s = os_len s"

definition octstr_get_cstr :: "octstr \<Rightarrow> csrc" where
  [c_sem]: "octstr_get_cstr s = octstr_ptr s 0"

subsection \<open>Building strings\<close>

definition octstr_str_replace :: "(nat \<Rightarrow> u8) \<Rightarrow> octstr \<Rightarrow> csrc \<Rightarrow> int \<Rightarrow> octstr option" where
  [c_sem]: "octstr_str_replace junk dst src len = do {
     let moved = octstr_grows dst len;
     let dst = octstr_grow junk dst len;
     if len > 0 then do {
       dst \<leftarrow> octstr_memcpy dst 0 src len moved;
       dst \<leftarrow> octstr_wr dst len 0;
       Some (dst\<lparr>os_len := len\<rparr>) }
     else Some (dst\<lparr>os_len := 0\<rparr>) }"

definition octstr_create :: "(nat \<Rightarrow> u8) \<Rightarrow> csrc \<Rightarrow> int \<Rightarrow> octstr option" where
  [c_sem]: "octstr_create junk src len =
     octstr_str_replace junk \<lparr>os_s = None, os_len = 0, os_size = 0\<rparr> src len"

text \<open>A C string argument is the list of its bytes without the zero at the end.\<close>

definition octstr_create_from_str :: "(nat \<Rightarrow> u8) \<Rightarrow> u8 list \<Rightarrow> octstr option" where
  [c_sem]: "octstr_create_from_str junk str = octstr_create junk (Ext (str @ [0])) (int (length str))"

definition octstr_erase :: "(nat \<Rightarrow> u8) \<Rightarrow> octstr \<Rightarrow> octstr option" where
  [c_sem]: "octstr_erase junk s = octstr_str_replace junk s NoSrc 0"

definition octstr_copy :: "(nat \<Rightarrow> u8) \<Rightarrow> octstr \<Rightarrow> octstr option" where
  [c_sem]: "octstr_copy junk s = octstr_create junk (octstr_ptr s 0) (os_len s)"

definition octstr_replace :: "(nat \<Rightarrow> u8) \<Rightarrow> octstr \<Rightarrow> oarg \<Rightarrow> octstr option" where
  [c_sem]: "octstr_replace junk dst src =
     octstr_str_replace junk dst (arg_ptr dst src 0) (arg_len dst src)"

definition octstr_str_append :: "(nat \<Rightarrow> u8) \<Rightarrow> octstr \<Rightarrow> csrc \<Rightarrow> int \<Rightarrow> octstr option" where
  [c_sem]: "octstr_str_append junk dst src len =
     (if len > 0 then do {
        let new_len = to_int (to_size (os_len dst + len));
        let moved = octstr_grows dst (to_size new_len);
        let dst = octstr_grow junk dst (to_size new_len);
        dst \<leftarrow> octstr_memcpy dst (os_len dst) src len moved;
        dst \<leftarrow> octstr_wr dst new_len 0;
        Some (dst\<lparr>os_len := to_size new_len\<rparr>) }
      else Some dst)"

definition octstr_append :: "(nat \<Rightarrow> u8) \<Rightarrow> octstr \<Rightarrow> oarg \<Rightarrow> octstr option" where
  [c_sem]: "octstr_append junk dst src =
     octstr_str_append junk dst (arg_ptr dst src 0) (arg_len dst src)"

definition octstr_append_str :: "(nat \<Rightarrow> u8) \<Rightarrow> octstr \<Rightarrow> u8 list \<Rightarrow> octstr option" where
  [c_sem]: "octstr_append_str junk dst str =
     octstr_str_append junk dst (Ext (str @ [0])) (int (length str))"

definition octstr_append_oct :: "(nat \<Rightarrow> u8) \<Rightarrow> octstr \<Rightarrow> u32 \<Rightarrow> octstr option" where
  [c_sem]: "octstr_append_oct junk s oct = do {
     let s = octstr_grow junk s (to_size (os_len s + 1));
     s \<leftarrow> octstr_wr s (os_len s) (ucast oct);
     let s = s\<lparr>os_len := to_size (os_len s + 1)\<rparr>;
     octstr_wr s (os_len s) 0 }"

definition octstr_fill :: "(nat \<Rightarrow> u8) \<Rightarrow> octstr \<Rightarrow> int \<Rightarrow> int \<Rightarrow> int \<Rightarrow> octstr option" where
  [c_sem]: "octstr_fill junk s c pos n = do {
     len \<leftarrow> c_int (pos + n);
     if len > 0 then do {
       let s = octstr_grow junk s len;
       c_require (0 \<le> n);
       s \<leftarrow> octstr_put s pos (replicate (nat n) (word_of_int c));
       s \<leftarrow> octstr_wr s len 0;
       Some (s\<lparr>os_len := (if len > os_len s then len else os_len s)\<rparr>) }
     else Some s }"

subsection \<open>Parts of a string\<close>

definition octstr_substr :: "(nat \<Rightarrow> u8) \<Rightarrow> octstr \<Rightarrow> int \<Rightarrow> int \<Rightarrow> octstr option" where
  [c_sem]: "octstr_substr junk s pos n = do {
     let len = os_len s;
     if to_size pos \<ge> len then octstr_create junk NoSrc 0
     else do {
       e \<leftarrow> c_int (pos + n);
       let n = (if to_size e \<le> len then n else to_int (to_size (len - to_size pos)));
       octstr_create junk (octstr_ptr s pos) (to_size n) } }"

definition octstr_get_oct :: "octstr \<Rightarrow> int \<Rightarrow> u32 option" where
  [c_sem]: "octstr_get_oct s pos =
     (if to_size pos \<ge> os_len s then Some (- 1)
      else do { x \<leftarrow> octstr_rd s pos; Some (ucast x) })"

definition octstr_replace_substr ::
  "(nat \<Rightarrow> u8) \<Rightarrow> octstr \<Rightarrow> oarg \<Rightarrow> int \<Rightarrow> int \<Rightarrow> (int \<times> octstr) option" where
  [c_sem]: "octstr_replace_substr junk dst src pos n = do {
     let len = arg_len dst src;
     if to_size pos \<ge> len then do {
       dst \<leftarrow> octstr_str_replace junk dst NoSrc 0;
       Some (0, dst) }
     else do {
       e \<leftarrow> c_int (pos + n);
       let n = (if to_size e \<le> len then n else to_int (to_size (len - to_size pos)));
       dst \<leftarrow> octstr_str_replace junk dst (arg_ptr dst src pos) (to_size n);
       Some (to_size n, dst) } }"

definition octstr_delete :: "(nat \<Rightarrow> u8) \<Rightarrow> octstr \<Rightarrow> int \<Rightarrow> int \<Rightarrow> octstr option" where
  [c_sem]: "octstr_delete junk s pos n = do {
     substr1 \<leftarrow> octstr_substr junk s 0 pos;
     e \<leftarrow> c_int (pos + n);
     substr2 \<leftarrow> octstr_substr junk s e (to_int (to_size (os_len s - to_size e)));
     s \<leftarrow> octstr_replace junk s (Other substr1);
     octstr_append junk s (Other substr2) }"

end
