(* ===== verification/OctStrText.thy ===== *)
theory OctStrText
  imports OctStr
begin

section \<open>Octet strings: searching, comparing, encoding (octstr.c)\<close>

text \<open>
  The second half of octstr.c. The functions of the C library that it calls on strings are written
  out for the C locale; those with other side effects (\<open>open\<close>, \<open>read\<close>, \<open>write\<close>, \<open>iconv\<close>,
  \<open>vsnprintf\<close>) are arguments: the results of the successive calls.
\<close>

subsection \<open>Strings of the C library\<close>

text \<open>The string at \<open>s->s + pos\<close>: the bytes up to the next zero, which has to be in the buffer.\<close>

definition c_str :: "octstr \<Rightarrow> int \<Rightarrow> u8 list option" where
  [c_sem]: "c_str s pos = do {
     b \<leftarrow> os_s s;
     c_require (0 \<le> pos \<and> 0 \<in> set (drop (nat pos) b));
     Some (takeWhile (\<lambda>x. x \<noteq> 0) (drop (nat pos) b)) }"

definition c_tolower :: "u8 \<Rightarrow> u8" where
  [c_sem]: "c_tolower x = (if 0x41 \<le> x \<and> x \<le> 0x5a then x + 0x20 else x)"

fun c_strstr :: "u8 list \<Rightarrow> u8 list \<Rightarrow> nat option" where
  "c_strstr [] str = (if str = [] then Some 0 else None)"
| "c_strstr (x # xs) str =
     (if take (length str) (x # xs) = str then Some 0 else map_option Suc (c_strstr xs str))"

definition c_strcasestr :: "u8 list \<Rightarrow> u8 list \<Rightarrow> nat option" where
  [c_sem]: "c_strcasestr s str = c_strstr (map c_tolower s) (map c_tolower str)"

text \<open>The sign of the first difference, as \<open>memcmp\<close> and \<open>strcasecmp\<close> give it.\<close>

fun c_memcmp :: "u8 list \<Rightarrow> u8 list \<Rightarrow> int" where
  "c_memcmp (x # xs) (y # ys) = (if x < y then - 1 else if y < x then 1 else c_memcmp xs ys)"
| "c_memcmp [] [] = 0"
| "c_memcmp [] (y # ys) = - 1"
| "c_memcmp (x # xs) [] = 1"

definition c_strcasecmp :: "u8 list \<Rightarrow> u8 list \<Rightarrow> int" where
  [c_sem]: "c_strcasecmp s str = c_memcmp (map c_tolower s) (map c_tolower str)"

definition c_isspace :: "u8 \<Rightarrow> bool" where
  [c_sem]: "c_isspace x \<longleftrightarrow> x = 0x20 \<or> 9 \<le> x \<and> x \<le> 13"

definition c_isdigit :: "u8 \<Rightarrow> bool" where
  [c_sem]: "c_isdigit x \<longleftrightarrow> 0x30 \<le> x \<and> x \<le> 0x39"

text \<open>\<open>strtol(s, &end, 10)\<close>: the value, clipped to \<open>long\<close>, and the number of bytes used.\<close>

definition c_strtol :: "u8 list \<Rightarrow> int \<times> nat" where
  [c_sem]: "c_strtol s =
     (let sp = length (takeWhile c_isspace s);
          t = drop sp s;
          neg = (t \<noteq> [] \<and> hd t = 0x2d);
          sign = (if t \<noteq> [] \<and> (hd t = 0x2d \<or> hd t = 0x2b) then 1 else 0);
          ds = takeWhile c_isdigit (drop sign t);
          v = foldl (\<lambda>a d. a * 10 + (uint d - 0x30)) 0 ds
      in if ds = [] then (0, 0)
         else (if neg then max (- (2 ^ 63)) (- v) else min (2 ^ 63 - 1) v, sp + sign + length ds))"

subsection \<open>Searching\<close>

text \<open>The loop counter is an \<open>int\<close>, the length a \<open>long\<close>.\<close>

function oct_index_loop :: "octstr \<Rightarrow> u32 \<Rightarrow> int \<Rightarrow> int \<Rightarrow> int option" where
  "oct_index_loop s oct len i =
     (if i < len then do {
        x \<leftarrow> octstr_rd s i;
        if ucast x = oct then Some i
        else do {
          c_require (i + 1 < 2 ^ 31);
          oct_index_loop s oct len (i + 1) } }
      else Some (- 1))"
  by pat_completeness auto
termination
  by (relation "measure (\<lambda>(s, oct, len, i). nat (len - i))") auto

declare oct_index_loop.simps [simp del]

definition octstr_oct_index :: "octstr \<Rightarrow> int \<Rightarrow> u32 \<Rightarrow> int option" where
  [c_sem]: "octstr_oct_index s pos oct = oct_index_loop s oct (to_long (os_len s)) (to_int pos)"

definition octstr_str_index :: "octstr \<Rightarrow> int \<Rightarrow> u8 list \<Rightarrow> int option" where
  [c_sem]: "octstr_str_index s pos str =
     (if to_size pos \<ge> os_len s then Some (- 1)
      else do {
        p \<leftarrow> c_str s pos;
        Some (case c_strstr p str of Some i \<Rightarrow> pos + int i | None \<Rightarrow> - 1) })"

definition octstr_str_caseindex :: "octstr \<Rightarrow> int \<Rightarrow> u8 list \<Rightarrow> int option" where
  [c_sem]: "octstr_str_caseindex s pos str =
     (if to_size pos \<ge> os_len s then Some (- 1)
      else do {
        p \<leftarrow> c_str s pos;
        Some (case c_strcasestr p str of Some i \<Rightarrow> pos + int i | None \<Rightarrow> - 1) })"

text \<open>The pattern is read only if the position is inside of the string.\<close>

definition octstr_index :: "octstr \<Rightarrow> int \<Rightarrow> octstr \<Rightarrow> int option" where
  [c_sem]: "octstr_index s pos str =
     (if to_size pos \<ge> os_len s then octstr_str_index s pos []
      else do { p \<leftarrow> c_str str 0; octstr_str_index s pos p })"

definition octstr_caseindex :: "octstr \<Rightarrow> int \<Rightarrow> octstr \<Rightarrow> int option" where
  [c_sem]: "octstr_caseindex s pos str =
     (if to_size pos \<ge> os_len s then octstr_str_caseindex s pos []
      else do { p \<leftarrow> c_str str 0; octstr_str_caseindex s pos p })"

subsection \<open>Binary fields\<close>

text \<open>The length in bytes of the first \<open>e\<close> bits, stored in an \<open>int\<close>.\<close>

definition bytes_of_bits :: "int \<Rightarrow> int" where
  [c_sem]: "bytes_of_bits e = to_int (c_div e 8 + (if c_mod e 8 > 0 then 1 else 0))"

definition octstr_get_bits :: "octstr \<Rightarrow> int \<Rightarrow> int \<Rightarrow> u32 option" where
  [c_sem]: "octstr_get_bits s pos n = do {
     e \<leftarrow> c_long (pos + n);
     if os_len s \<ge> to_size (bytes_of_bits e) then do {
       b \<leftarrow> os_s s;
       r \<leftarrow> bits_get b pos n;
       Some (ucast r) }
     else Some 0 }"

definition octstr_set_bits :: "(nat \<Rightarrow> u8) \<Rightarrow> octstr \<Rightarrow> int \<Rightarrow> int \<Rightarrow> u64 \<Rightarrow> octstr option" where
  [c_sem]: "octstr_set_bits junk s pos n value = do {
     e \<leftarrow> c_long (pos + n);
     let len = to_size (bytes_of_bits e);
     let s = octstr_grow junk s len;
     b \<leftarrow> os_s s;
     b \<leftarrow> bits_set b pos n value;
     let s = s\<lparr>os_s := Some b, os_len := (if len > os_len s then len else os_len s)\<rparr>;
     octstr_wr s (os_len s) 0 }"

text \<open>\<open>tmp\<close> is the content of the local array before the call.\<close>

definition octstr_append_uintvar ::
  "(nat \<Rightarrow> u8) \<Rightarrow> u8 list \<Rightarrow> octstr \<Rightarrow> u64 \<Rightarrow> (int \<times> octstr) option" where
  [c_sem]: "octstr_append_uintvar junk tmp s value = do {
     c_require (length tmp = nat UINTVAR32_LEN);
     (len, buf) \<leftarrow> uintvar_pack tmp UINTVAR32_LEN value;
     s \<leftarrow> octstr_str_append junk s (Ext buf) (to_size len);
     Some (len, s) }"

definition octstr_unpack_uintvar :: "octstr \<Rightarrow> int \<Rightarrow> (int \<times> u64 option) option" where
  [c_sem]: "octstr_unpack_uintvar s pos =
     (if to_size pos \<ge> os_len s then Some (- 1, None)
      else do {
        b \<leftarrow> os_s s;
        c_require (0 \<le> pos);
        (len, value) \<leftarrow> uintvar_unpack (drop (nat pos) b) (to_long (os_len s - to_size pos));
        Some (if len \<noteq> - 1 then (pos + len, value) else (- 1, value)) })"

text \<open>The loop that appends zeros; it counts \<open>len\<close> one further than the last test.\<close>

function htonl_pad :: "(nat \<Rightarrow> u8) \<Rightarrow> octstr \<Rightarrow> int \<Rightarrow> (int \<times> octstr) option" where
  "htonl_pad junk s len =
     (if len < 4 then do {
        s \<leftarrow> octstr_append_oct junk s 0;
        htonl_pad junk s (len + 1) }
      else Some (len + 1, s))"
  by pat_completeness auto
termination
  by (relation "measure (\<lambda>(junk, s, len). nat (4 - len))") auto

declare htonl_pad.simps [simp del]

definition octstr_append_htonl ::
  "bool \<Rightarrow> (nat \<Rightarrow> u8) \<Rightarrow> u8 list \<Rightarrow> octstr \<Rightarrow> u64 \<Rightarrow> bool \<Rightarrow> (int \<times> octstr) option" where
  [c_sem]: "octstr_append_htonl le junk tmp s value minimal = do {
     c_require (length tmp = 4);
     (n, buf) \<leftarrow> data_htonl le tmp (ucast value);
     (len, s) \<leftarrow> (if \<not> minimal then htonl_pad junk s n else Some (n, s));
     s \<leftarrow> octstr_str_append junk s (Ext buf) (to_size n);
     Some (len, s) }"

definition octstr_unpack_ntohl :: "bool \<Rightarrow> octstr \<Rightarrow> int \<Rightarrow> int \<Rightarrow> (int \<times> u64 option) option" where
  [c_sem]: "octstr_unpack_ntohl le s pos len = do {
     e \<leftarrow> c_long (pos + len);
     if to_size e \<ge> os_len s then Some (- 1, None)
     else do {
       b \<leftarrow> os_s s;
       c_require (0 \<le> pos);
       v \<leftarrow> data_ntohl le (drop (nat pos) b) (nat (to_size len));
       Some (e, Some (ucast v)) } }"

definition octstr_tol :: "octstr \<Rightarrow> (int \<times> int option) option" where
  [c_sem]: "octstr_tol s =
     (if os_len s = 0 then Some (- 1, None)
      else do {
        p \<leftarrow> c_str s 0;
        let (v, n) = c_strtol p;
        if int n \<noteq> os_len s then Some (- 1, None) else Some (int n, Some v) })"

definition hex_digit :: "u8 \<Rightarrow> u8" where
  [c_sem]: "hex_digit d = (if d < 10 then 0x30 + d else 0x57 + d)"

text \<open>\<open>sprintf(buf, "%.2x", x)\<close>\<close>

definition c_hex2 :: "u8 \<Rightarrow> u8 list" where
  [c_sem]: "c_hex2 x = [hex_digit (drop_bit 4 x), hex_digit (x AND 0x0f), 0]"

function to_hex_loop :: "(nat \<Rightarrow> u8) \<Rightarrow> octstr \<Rightarrow> int \<Rightarrow> int \<Rightarrow> octstr \<Rightarrow> octstr option" where
  "to_hex_loop junk s len i hex =
     (if i < len then do {
        x \<leftarrow> octstr_rd s i;
        hex \<leftarrow> octstr_str_append junk hex (Ext (c_hex2 x)) 2;
        to_hex_loop junk s len (i + 1) hex }
      else Some hex)"
  by pat_completeness auto
termination
  by (relation "measure (\<lambda>(junk, s, len, i, hex). nat (len - i))") auto

declare to_hex_loop.simps [simp del]

definition octstr_to_hex :: "(nat \<Rightarrow> u8) \<Rightarrow> octstr \<Rightarrow> octstr option" where
  [c_sem]: "octstr_to_hex junk s = do {
     hex \<leftarrow> octstr_create junk NoSrc 0;
     to_hex_loop junk s (to_int (os_len s)) 0 hex }"

subsection \<open>Comparing\<close>

definition octstr_min :: "int \<Rightarrow> int \<Rightarrow> int" where
  [c_sem]: "octstr_min a b = (if a < b then a else b)"

text \<open>\<open>n\<close> bytes from the start of the buffer.\<close>

definition octstr_bytes :: "octstr \<Rightarrow> int \<Rightarrow> u8 list option" where
  [c_sem]: "octstr_bytes s n =
     (if n = 0 then Some []
      else do {
        b \<leftarrow> os_s s;
        c_require (0 \<le> n \<and> n \<le> int (length b));
        Some (take (nat n) b) })"

definition octstr_cmp :: "octstr \<Rightarrow> octstr \<Rightarrow> int option" where
  [c_sem]: "octstr_cmp s1 s2 = do {
     let len1 = to_long (os_len s1);
     let len2 = to_long (os_len s2);
     let n = octstr_min len1 len2;
     b1 \<leftarrow> octstr_bytes s1 n;
     b2 \<leftarrow> octstr_bytes s2 n;
     let cmp = c_memcmp b1 b2;
     Some (if cmp = 0 then (if len1 < len2 then - 1 else if len1 > len2 then 1 else cmp) else cmp) }"

definition octstr_casecmp :: "octstr \<Rightarrow> octstr \<Rightarrow> int option" where
  [c_sem]: "octstr_casecmp s1 s2 = do {
     p1 \<leftarrow> c_str s1 0;
     p2 \<leftarrow> c_str s2 0;
     Some (c_strcasecmp p1 p2) }"

definition octstr_str_cmp :: "(nat \<Rightarrow> u8) \<Rightarrow> octstr \<Rightarrow> u8 list \<Rightarrow> int option" where
  [c_sem]: "octstr_str_cmp junk s1 s2 = do {
     tmp \<leftarrow> octstr_create_from_str junk s2;
     octstr_cmp s1 tmp }"

definition octstr_str_casecmp :: "octstr \<Rightarrow> u8 list \<Rightarrow> int option" where
  [c_sem]: "octstr_str_casecmp s1 s2 = do {
     p1 \<leftarrow> c_str s1 0;
     Some (c_strcasecmp p1 s2) }"

subsection \<open>Stripping and replacing\<close>

text \<open>\<open>strchr(SPACE_CHARS, c) != NULL\<close> also holds for the zero at the end of \<open>SPACE_CHARS\<close>.\<close>

definition is_strip_char :: "u8 \<Rightarrow> bool" where
  [c_sem]: "is_strip_char x \<longleftrightarrow> x \<in> set [0x20, 0x0a, 0x0d, 0x09, 0]"

function strip_left :: "octstr \<Rightarrow> int \<Rightarrow> int \<Rightarrow> int option" where
  "strip_left s len pos =
     (if pos < len then do {
        x \<leftarrow> octstr_rd s pos;
        if is_strip_char x then strip_left s len (pos + 1) else Some pos }
      else Some pos)"
  by pat_completeness auto
termination
  by (relation "measure (\<lambda>(s, len, pos). nat (len - pos))") auto

function strip_right :: "octstr \<Rightarrow> int \<Rightarrow> int option" where
  "strip_right s pos =
     (if pos \<ge> 0 then do {
        x \<leftarrow> octstr_rd s pos;
        if is_strip_char x then strip_right s (pos - 1) else Some pos }
      else Some pos)"
  by pat_completeness auto
termination
  by (relation "measure (\<lambda>(s, pos). nat (pos + 1))") auto

declare strip_left.simps [simp del] strip_right.simps [simp del]

definition octstr_strip :: "(nat \<Rightarrow> u8) \<Rightarrow> octstr \<Rightarrow> octstr option" where
  [c_sem]: "octstr_strip junk s = do {
     let len = to_long (os_len s);
     if len = 0 then Some s
     else do {
       pos1 \<leftarrow> strip_left s len 0;
       if pos1 = len then octstr_erase junk s
       else do {
         pos2 \<leftarrow> strip_right s (len - 1);
         tmp \<leftarrow> octstr_substr junk s (to_int pos1) (to_int (pos2 + 1 - pos1));
         octstr_replace junk s (Other tmp) } } }"

text \<open>The loop of \<open>octstr_find_and_replace1\<close>; it may run forever.\<close>

partial_function (option) replace_loop ::
  "(nat \<Rightarrow> u8) \<Rightarrow> (octstr \<Rightarrow> int \<Rightarrow> octstr \<Rightarrow> int option) \<Rightarrow> octstr \<Rightarrow> octstr \<Rightarrow> octstr \<Rightarrow>
   octstr \<Rightarrow> int \<Rightarrow> (octstr \<times> int) option" where
  "replace_loop junk finder s what replace s1 pos = do {
     pos1 \<leftarrow> finder s pos what;
     if pos1 > 0 then do {
       tmp \<leftarrow> octstr_substr junk s (to_int pos) (to_int (pos1 - pos));
       s1 \<leftarrow> octstr_append junk s1 (Other tmp);
       s1 \<leftarrow> octstr_append junk s1 (Other replace);
       replace_loop junk finder s what replace s1 (to_long (to_size (pos1 + os_len what))) }
     else Some (s1, pos) }"

definition octstr_find_and_replace1 ::
  "(nat \<Rightarrow> u8) \<Rightarrow> octstr \<Rightarrow> octstr \<Rightarrow> octstr \<Rightarrow> (octstr \<Rightarrow> int \<Rightarrow> octstr \<Rightarrow> int option) \<Rightarrow>
   octstr option" where
  [c_sem]: "octstr_find_and_replace1 junk s what replace finder = do {
     s1 \<leftarrow> octstr_create junk NoSrc 0;
     (s1, pos) \<leftarrow> replace_loop junk finder s what replace s1 0;
     tmp \<leftarrow> octstr_substr junk s (to_int pos) (to_int (to_size (os_len s - to_size pos)));
     octstr_append junk s1 (Other tmp) }"

definition octstr_find_and_replace ::
  "(nat \<Rightarrow> u8) \<Rightarrow> octstr \<Rightarrow> octstr \<Rightarrow> octstr \<Rightarrow> octstr option" where
  [c_sem]: "octstr_find_and_replace junk s what replace =
     octstr_find_and_replace1 junk s what replace octstr_index"

definition octstr_case_find_and_replace ::
  "(nat \<Rightarrow> u8) \<Rightarrow> octstr \<Rightarrow> octstr \<Rightarrow> octstr \<Rightarrow> octstr option" where
  [c_sem]: "octstr_case_find_and_replace junk s what replace =
     octstr_find_and_replace1 junk s what replace octstr_caseindex"

subsection \<open>Formatting, conversion and files\<close>

text \<open>
  \<open>vsnprintf\<close> formats into at most \<open>size\<close> bytes and returns the length of the whole output
  \<open>out\<close>, which depends on the format and the arguments.
\<close>

definition c_vsnprintf :: "u8 list \<Rightarrow> octstr \<Rightarrow> (int \<times> octstr) option" where
  [c_sem]: "c_vsnprintf out s = do {
     s \<leftarrow> (if os_size s > 0 then octstr_put s 0 (take (nat (os_size s) - 1) out @ [0]) else Some s);
     n \<leftarrow> c_int (int (length out));
     Some (n, s) }"

partial_function (option) sprintf_loop ::
  "(nat \<Rightarrow> u8) \<Rightarrow> u8 list \<Rightarrow> octstr \<Rightarrow> int \<Rightarrow> (int \<times> octstr) option" where
  "sprintf_loop junk out s n =
     (if to_size n \<ge> os_size s then do {
        n1 \<leftarrow> c_int (n + 1);
        let s = octstr_grow junk s (to_size n1);
        (n, s) \<leftarrow> c_vsnprintf out s;
        sprintf_loop junk out s n }
      else Some (n, s))"

definition octstr_sprintf :: "(nat \<Rightarrow> u8) \<Rightarrow> u8 list option \<Rightarrow> u8 list \<Rightarrow> octstr option" where
  [c_sem]: "octstr_sprintf junk fmt out = do {
     s \<leftarrow> octstr_create_from_str junk [];
     case fmt of None \<Rightarrow> Some s
     | Some f \<Rightarrow> do {
         let s = octstr_grow junk s (int (length f));
         (n, s) \<leftarrow> c_vsnprintf out s;
         (n, s) \<leftarrow> sprintf_loop junk out s n;
         Some (s\<lparr>os_len := to_size n\<rparr>) } }"

text \<open>
  The results of the successive calls of \<open>read\<close>: the bytes it delivers, none at the end of the
  file, or an error. The function returns \<open>NULL\<close>, the inner \<open>None\<close>, on an error.
\<close>

datatype read_result = ReadBytes "u8 list" | ReadError

fun load_loop :: "(nat \<Rightarrow> u8) \<Rightarrow> octstr \<Rightarrow> read_result list \<Rightarrow> octstr option option" where
  "load_loop junk s [] = None"
| "load_loop junk s (ReadError # rs) = Some None"
| "load_loop junk s (ReadBytes bs # rs) =
     (if bs = [] then Some (Some s)
      else do {
        c_require (length bs \<le> 1024000);
        s \<leftarrow> octstr_str_append junk s (Ext bs) (int (length bs));
        load_loop junk s rs })"

definition octstr_load_from_file ::
  "(nat \<Rightarrow> u8) \<Rightarrow> bool \<Rightarrow> read_result list \<Rightarrow> octstr option option" where
  [c_sem]: "octstr_load_from_file junk opened reads =
     (if \<not> opened then Some None
      else do {
        s \<leftarrow> octstr_create junk NoSrc 0;
        load_loop junk s reads })"

text \<open>
  \<open>write\<close> at offset \<open>off\<close> of a file overlays what the file holds there and lengthens it if need be.
\<close>

definition file_write :: "u8 list \<Rightarrow> nat \<Rightarrow> u8 list \<Rightarrow> u8 list" where
  [c_sem]: "file_write file off bs = take off file @ bs @ drop (off + length bs) file"

text \<open>
  The list \<open>ns\<close> holds the results of the successive calls of \<open>write\<close>; the second result is the content
  of the file. The file is opened with \<open>O_CREAT|O_WRONLY\<close> and without \<open>O_TRUNC\<close>: a new file starts
  empty, an existing one keeps its old content until it is overwritten.
\<close>

fun save_loop :: "octstr \<Rightarrow> int \<Rightarrow> int list \<Rightarrow> u8 list \<Rightarrow> (int \<times> u8 list) option" where
  "save_loop s len ns file =
     (if to_size len < os_len s
      then (case ns of [] \<Rightarrow> None
        | n # ns \<Rightarrow>
          if n = - 1 then Some (- 1, file)
          else do {
            c_require (0 \<le> n \<and> n \<le> os_len s - len);
            b \<leftarrow> os_s s;
            c_require (len + n \<le> int (length b));
            len' \<leftarrow> c_int (len + n);
            save_loop s len' ns (file_write file (nat len) (take (nat n) (drop (nat len) b))) })
      else Some (len, file))"

declare save_loop.simps [simp del]

definition octstr_save_to_file ::
  "octstr \<Rightarrow> bool \<Rightarrow> u8 list \<Rightarrow> int list \<Rightarrow> (int \<times> u8 list) option" where
  [c_sem]: "octstr_save_to_file s opened old writes =
     (if \<not> opened then Some (- 1, old) else save_loop s 0 writes old)"

text \<open>
  \<open>iconv\<close>: from the rest of the input and the room in the output, the number of bytes used, the
  bytes produced and the error, if any; \<open>True\<close> is \<open>E2BIG\<close>.
\<close>

partial_function (option) iconv_loop ::
  "(nat \<Rightarrow> u8) \<Rightarrow> (u8 list \<Rightarrow> int \<Rightarrow> nat \<times> u8 list \<times> bool option) \<Rightarrow> u8 list \<Rightarrow> octstr \<Rightarrow>
   octstr option option" where
  "iconv_loop junk conv inp s1 =
     (if inp \<noteq> [] then
        (case conv inp 1024 of (used, out, err) \<Rightarrow> do {
           c_require (used \<le> length inp \<and> length out \<le> 1024);
           if err = Some False then Some None
           else do {
             s1 \<leftarrow> octstr_str_append junk s1 (Ext out) (int (length out));
             iconv_loop junk conv (drop used inp) s1 } })
      else Some (Some s1))"

definition octstr_iconv ::
  "(nat \<Rightarrow> u8) \<Rightarrow> bool \<Rightarrow> (u8 list \<Rightarrow> int \<Rightarrow> nat \<times> u8 list \<times> bool option) \<Rightarrow> octstr \<Rightarrow>
   octstr option option" where
  [c_sem]: "octstr_iconv junk opened conv s =
     (if \<not> opened then Some None
      else do {
        s1 \<leftarrow> octstr_create_from_str junk [];
        inp \<leftarrow> octstr_bytes s (os_len s);
        iconv_loop junk conv inp s1 })"

end
