(* ===== verification/OctStrOps.thy ===== *)
theory OctStrOps
  imports OctStrText
begin

section \<open>Octet strings as byte lists\<close>

text \<open>
  \<open>oct_rep s bs\<close>: the string \<open>s\<close> holds the octets \<open>bs\<close>, its buffer has room for a byte more, and
  that byte is zero unless \<open>s\<close> is empty. The operations are shown to keep this and to act on \<open>bs\<close>,
  whatever the fresh memory contains, while lengths stay below \<open>OCT_MAX\<close>.
\<close>

subsection \<open>Representation\<close>

definition mk_oct :: "u8 list \<Rightarrow> u8 list \<Rightarrow> octstr" where
  "mk_oct bs rest = \<lparr>os_s = Some (bs @ rest), os_len = int (length bs),
     os_size = int (length bs) + int (length rest)\<rparr>"

lemma mk_oct_simps [simp]:
  "os_s (mk_oct bs rest) = Some (bs @ rest)"
  "os_len (mk_oct bs rest) = int (length bs)"
  "os_size (mk_oct bs rest) = int (length bs) + int (length rest)"
  by (simp_all add: mk_oct_def)

definition oct_rep :: "octstr \<Rightarrow> u8 list \<Rightarrow> bool" where
  "oct_rep s bs \<longleftrightarrow> (\<exists>rest. s = mk_oct bs rest \<and> rest \<noteq> [] \<and>
     length bs + length rest < 2 ^ 31 \<and> (bs \<noteq> [] \<longrightarrow> hd rest = 0))"

definition OCT_MAX :: nat where
  "OCT_MAX = 2 ^ 31 - 2048"

lemma oct_repI:
  "length bs + length rest < 2147483648 \<Longrightarrow> rest \<noteq> [] \<Longrightarrow> (bs \<noteq> [] \<Longrightarrow> hd rest = 0) \<Longrightarrow>
   oct_rep (mk_oct bs rest) bs"
  by (auto simp: oct_rep_def)

lemma oct_repE:
  assumes "oct_rep s bs"
  obtains rest where "s = mk_oct bs rest" "rest \<noteq> []" "length bs + length rest < 2147483648"
    "bs \<noteq> [] \<Longrightarrow> hd rest = 0"
  using assms by (auto simp: oct_rep_def)

lemma oct_rep_len: "oct_rep s bs \<Longrightarrow> os_len s = int (length bs) \<and> octstr_len s = int (length bs)"
  by (auto simp: oct_rep_def octstr_len_def)

lemma oct_rep_bound: "oct_rep s bs \<Longrightarrow> length bs < 2147483647"
  by (auto simp: oct_rep_def neq_Nil_conv)

lemma oct_rep_unique: "oct_rep s bs \<Longrightarrow> oct_rep s cs \<Longrightarrow> bs = cs"
  by (auto simp: oct_rep_def mk_oct_def append_eq_append_conv)

subsection \<open>Growing\<close>

lemma new_size_ok:
  assumes "0 \<le> n" and "n \<le> 2147481600"
  shows "octstr_new_size n = n + 1 + 1024 - (n + 1) mod 1024"
    and "n + 1 < octstr_new_size n" and "octstr_new_size n \<le> n + 1025" "octstr_new_size n < 2147483648"
proof -
  have m: "0 \<le> (n + 1) mod 1024" "(n + 1) mod 1024 < 1024" by simp_all
  have "octstr_new_size n = n + 1 + 1024 - (n + 1) mod 1024"
    using assms m by (simp add: octstr_new_size_def octstr_calc_size_def)
  then show "octstr_new_size n = n + 1 + 1024 - (n + 1) mod 1024"
    "n + 1 < octstr_new_size n" "octstr_new_size n \<le> n + 1025" "octstr_new_size n < 2147483648"
    using assms m by linarith+
qed

lemma grow_ok:
  assumes "length bs + length rest < 2147483648" and "0 \<le> n" and "n \<le> 2147481600"
  obtains rest' where "octstr_grow junk (mk_oct bs rest) n = mk_oct bs rest'"
    "n < int (length bs) + int (length rest')" "length bs + length rest' < 2147483648"
    "take (length rest) rest' = rest"
proof -
  note sz = new_size_ok [OF assms(2,3)]
  show thesis
  proof (cases "octstr_grows (mk_oct bs rest) n")
    case False
    show thesis
    proof (rule that)
      show "octstr_grow junk (mk_oct bs rest) n = mk_oct bs rest"
        using False by (simp add: octstr_grow_def)
      show "n < int (length bs) + int (length rest)"
        using False sz assms(2) by (simp add: octstr_grows_def)
    qed (use assms(1) in auto)
  next
    case True
    then have size: "int (length bs) + int (length rest) < octstr_new_size n"
      using sz assms(2) by (simp add: octstr_grows_def)
    let ?rest = "rest @ map junk [length bs + length rest..<nat (octstr_new_size n)]"
    have le: "length bs + length rest \<le> nat (octstr_new_size n)" using size by linarith
    have len: "length bs + length ?rest = nat (octstr_new_size n)" using le by simp
    have "octstr_alloc junk (Some (bs @ rest)) (octstr_new_size n) = Some (bs @ ?rest)"
      using le sz(4) by (simp add: octstr_alloc_def)
    moreover have "to_size (octstr_new_size n) = octstr_new_size n" using sz assms(2) by simp
    moreover have "octstr_new_size n = int (length bs) + int (length ?rest)" using len size by linarith
    ultimately have "octstr_grow junk (mk_oct bs rest) n = mk_oct bs ?rest"
      using True by (simp add: octstr_grow_def mk_oct_def Let_def)
    moreover have "n < int (length bs) + int (length ?rest)" using len sz(2) assms(2) by linarith
    moreover have "length bs + length ?rest < 2147483648" using len sz(4) by linarith
    ultimately show thesis by (intro that [of ?rest]) auto
  qed
qed

text \<open>The first allocation, for a string just made.\<close>

definition null_oct :: octstr where
  "null_oct = \<lparr>os_s = None, os_len = 0, os_size = 0\<rparr>"

lemma grow_null:
  assumes "0 \<le> n" and "n \<le> 2147481600"
  obtains rest where "octstr_grow junk null_oct n = mk_oct [] rest"
    "n < int (length rest)" "length rest < 2147483648"
proof -
  note sz = new_size_ok [OF assms]
  let ?rest = "map junk [0..<nat (octstr_new_size n)]"
  have "octstr_grows null_oct n" using sz assms by (simp add: octstr_grows_def null_oct_def)
  then have "octstr_grow junk null_oct n = mk_oct [] ?rest"
    using sz assms by (simp add: octstr_grow_def octstr_alloc_def mk_oct_def null_oct_def Let_def)
  moreover have "n < int (length ?rest)" "length ?rest < 2147483648" using sz assms by auto
  ultimately show thesis by (rule that)
qed

subsection \<open>Storing\<close>

text \<open>Overwriting the octets from \<open>length bs\<close> on, with a zero behind, and the new length.\<close>

lemma put_raw:
  assumes "os_s s = Some (pre @ old)" and "os_size s = int (length pre) + int (length old)"
    and "length cs < length old"
  shows "do { s \<leftarrow> octstr_put s (int (length pre)) cs;
       s \<leftarrow> octstr_wr s (int (length (pre @ cs))) 0;
       Some (s\<lparr>os_len := int (length (pre @ cs))\<rparr>) } =
     Some (mk_oct (pre @ cs) (0 # drop (Suc (length cs)) old))"
proof -
  obtain r rs where rs: "drop (length cs) old = r # rs"
    using assms(3) by (cases "drop (length cs) old") auto
  then have d: "drop (Suc (length cs)) old = rs" by (metis drop_Suc drop_tl list.sel(3))
  have l: "length old = length cs + Suc (length rs)"
    using rs assms(3) by (metis length_drop length_Cons le_add_diff_inverse less_imp_le)
  have u: "(pre @ cs @ r # rs)[length pre + length cs := 0] = pre @ cs @ 0 # rs"
    using list_update_length [of "pre @ cs" r rs 0] by simp
  show ?thesis
    using rs d l u assms
    by (cases s) (simp add: octstr_put_def octstr_wr_def c_write_def mk_oct_def nat_add_distrib)
qed

lemmas put_end = put_raw [of "mk_oct bs rest" for bs rest, OF mk_oct_simps(1,3)]

subsection \<open>Replacing and appending\<close>

text \<open>The bytes a source provides, and whether it may be used when the buffer of \<open>dst\<close> moves.\<close>

lemma memcpy_ext: "n \<le> length src \<Longrightarrow> octstr_memcpy s pos (Ext src) (int n) moved = octstr_put s pos (take n src)"
  by (simp add: octstr_memcpy_def)

lemma str_replace_start:
  assumes "length src < length bs + length rest"
  shows "do { s \<leftarrow> octstr_put (mk_oct bs rest) 0 src;
       s \<leftarrow> octstr_wr s (int (length src)) 0;
       Some (s\<lparr>os_len := int (length src)\<rparr>) } =
     Some (mk_oct src (0 # drop (Suc (length src)) (bs @ rest)))"
  using put_raw [of "mk_oct bs rest" "[]" "bs @ rest" src] assms by simp

lemma grow_any:
  assumes "s = null_oct \<or> oct_rep s bs" and "len \<le> OCT_MAX"
  shows "\<exists>cs rest. octstr_grow junk s (int len) = mk_oct cs rest \<and>
    len < length cs + length rest \<and> length cs + length rest < 2147483648"
proof -
  have len: "0 \<le> int len" "int len \<le> 2147481600" using assms(2) by (simp_all add: OCT_MAX_def)
  show ?thesis
  proof (cases "s = null_oct")
    case True
    obtain rest where "octstr_grow junk null_oct (int len) = mk_oct [] rest"
      "int len < int (length rest)" "length rest < 2147483648"
      using grow_null [OF len] by blast
    then show ?thesis using True by (intro exI [of _ "[]"] exI [of _ rest]) simp
  next
    case False
    then have "oct_rep s bs" using assms(1) by blast
    then obtain r where r: "s = mk_oct bs r" "length bs + length r < 2147483648"
      by (rule oct_repE)
    obtain rest where "octstr_grow junk (mk_oct bs r) (int len) = mk_oct bs rest"
      "int len < int (length bs) + int (length rest)" "length bs + length rest < 2147483648"
      using grow_ok [OF r(2) len] by blast
    then show ?thesis using r(1) by (intro exI [of _ bs] exI [of _ rest]) simp
  qed
qed

lemma str_replace_ok:
  assumes "s = null_oct \<or> oct_rep s bs" and "len \<le> length src" and "len \<le> OCT_MAX"
  shows "\<exists>s'. octstr_str_replace junk s (Ext src) (int len) = Some s' \<and> oct_rep s' (take len src)"
proof -
  obtain cs rest where grow: "octstr_grow junk s (int len) = mk_oct cs rest"
    "len < length cs + length rest" "length cs + length rest < 2147483648"
    using grow_any [OF assms(1,3)] by blast
  show ?thesis
  proof (cases "len = 0")
    case True
    have "octstr_str_replace junk s (Ext src) (int len) = Some ((mk_oct cs rest)\<lparr>os_len := 0\<rparr>)"
      using grow(1) True by (simp add: octstr_str_replace_def)
    moreover have "(mk_oct cs rest)\<lparr>os_len := 0\<rparr> = mk_oct [] (cs @ rest)" by (simp add: mk_oct_def)
    moreover have "oct_rep (mk_oct [] (cs @ rest)) []"
      by (rule oct_repI) (use grow(2,3) True in auto)
    ultimately show ?thesis using True by auto
  next
    case False
    let ?r = "0 # drop (Suc len) (cs @ rest)"
    have l: "length (take len src) = len" using assms(2) by simp
    have "octstr_str_replace junk s (Ext src) (int len) = Some (mk_oct (take len src) ?r)"
      using False str_replace_start [of "take len src" cs rest] grow(2) l
      unfolding octstr_str_replace_def grow(1) Let_def memcpy_ext [OF assms(2)] by simp
    moreover have "oct_rep (mk_oct (take len src) ?r) (take len src)"
      by (rule oct_repI) (use grow(2,3) l in auto)
    ultimately show ?thesis by blast
  qed
qed

lemma str_replace_null:
  "s = null_oct \<or> oct_rep s bs \<Longrightarrow> \<exists>s'. octstr_str_replace junk s NoSrc 0 = Some s' \<and> oct_rep s' []"
  using str_replace_ok [of s bs 0 "[]" junk] by (simp add: octstr_str_replace_def OCT_MAX_def)

lemma create_ok:
  "len \<le> length src \<Longrightarrow> len \<le> OCT_MAX \<Longrightarrow>
   \<exists>s. octstr_create junk (Ext src) (int len) = Some s \<and> oct_rep s (take len src)"
  using str_replace_ok [of null_oct _ len src junk] by (simp add: octstr_create_def null_oct_def)

lemma create_empty: "\<exists>s. octstr_create junk NoSrc 0 = Some s \<and> oct_rep s []"
  using str_replace_null [of null_oct _ junk] by (simp add: octstr_create_def null_oct_def)

lemma create_from_str_ok:
  "length str \<le> OCT_MAX \<Longrightarrow> \<exists>s. octstr_create_from_str junk str = Some s \<and> oct_rep s str"
  using create_ok [of "length str" "str @ [0]" junk] by (simp add: octstr_create_from_str_def)

lemma octstr_ptr_rep: "oct_rep s bs \<Longrightarrow> k \<le> length bs \<Longrightarrow>
    \<exists>rest. octstr_ptr s (int k) = Ext (drop k bs @ rest) \<and> rest \<noteq> [] \<and> (bs \<noteq> [] \<longrightarrow> hd rest = 0)"
  by (auto simp: oct_rep_def octstr_ptr_def)

lemma copy_ok:
  assumes "oct_rep s bs" and "length bs \<le> OCT_MAX"
  shows "\<exists>s'. octstr_copy junk s = Some s' \<and> oct_rep s' bs"
proof -
  obtain rest where "octstr_ptr s 0 = Ext (bs @ rest)" using octstr_ptr_rep [OF assms(1), of 0] by auto
  then show ?thesis
    using create_ok [of "length bs" "bs @ rest" junk] assms oct_rep_len [OF assms(1)]
    by (simp add: octstr_copy_def)
qed

lemma erase_ok: "oct_rep s bs \<Longrightarrow> \<exists>s'. octstr_erase junk s = Some s' \<and> oct_rep s' []"
  using str_replace_null [of s bs junk] by (simp add: octstr_erase_def)

lemma replace_ok:
  assumes "oct_rep s bs" and "oct_rep t cs" and "length cs \<le> OCT_MAX"
  shows "\<exists>s'. octstr_replace junk s (Other t) = Some s' \<and> oct_rep s' cs"
proof -
  obtain rest where "octstr_ptr t 0 = Ext (cs @ rest)" using octstr_ptr_rep [OF assms(2), of 0] by auto
  then show ?thesis
    using str_replace_ok [of s bs "length cs" "cs @ rest" junk] assms oct_rep_len [OF assms(2)]
    by (simp add: octstr_replace_def arg_ptr_def arg_len_def)
qed

lemma str_append_ok:
  assumes "oct_rep s bs" and "len \<le> length src" and "length bs + len \<le> OCT_MAX"
  shows "\<exists>s'. octstr_str_append junk s (Ext src) (int len) = Some s' \<and> oct_rep s' (bs @ take len src)"
proof (cases "len = 0")
  case True
  then show ?thesis using assms(1) by (simp add: octstr_str_append_def)
next
  case False
  obtain r where r: "s = mk_oct bs r" "length bs + length r < 2147483648"
    using assms(1) by (rule oct_repE)
  have n: "0 \<le> int (length bs + len)" "int (length bs + len) \<le> 2147481600"
    using assms(3) by (simp_all add: OCT_MAX_def)
  obtain rest where rest: "octstr_grow junk (mk_oct bs r) (int (length bs + len)) = mk_oct bs rest"
    "int (length bs + len) < int (length bs) + int (length rest)" "length bs + length rest < 2147483648"
    using grow_ok [OF r(2) n] by blast
  have e: "to_int (to_size (int (length bs) + int len)) = int (length bs + len)"
    "to_size (int (length bs + len)) = int (length bs + len)"
    using n by simp_all
  let ?r = "0 # drop (Suc len) rest"
  have "octstr_str_append junk s (Ext src) (int len) = Some (mk_oct (bs @ take len src) ?r)"
    using False rest(1,2) put_end [of "take len src" rest bs] assms(2) r(1)
    unfolding octstr_str_append_def mk_oct_simps
    by (simp add: e memcpy_ext Let_def del: of_nat_add)
  moreover have "oct_rep (mk_oct (bs @ take len src) ?r) (bs @ take len src)"
    by (rule oct_repI) (use rest(2,3) assms(2) in \<open>auto simp: min_def\<close>)
  ultimately show ?thesis by blast
qed

lemma append_ok:
  assumes "oct_rep s bs" and "oct_rep t cs" and "length bs + length cs \<le> OCT_MAX"
  shows "\<exists>s'. octstr_append junk s (Other t) = Some s' \<and> oct_rep s' (bs @ cs)"
proof -
  obtain rest where "octstr_ptr t 0 = Ext (cs @ rest)" using octstr_ptr_rep [OF assms(2), of 0] by auto
  then show ?thesis
    using str_append_ok [of s bs "length cs" "cs @ rest" junk] assms oct_rep_len [OF assms(2)]
    by (simp add: octstr_append_def arg_ptr_def arg_len_def)
qed

lemma append_str_ok:
  "oct_rep s bs \<Longrightarrow> length bs + length str \<le> OCT_MAX \<Longrightarrow>
   \<exists>s'. octstr_append_str junk s str = Some s' \<and> oct_rep s' (bs @ str)"
  using str_append_ok [of s bs "length str" "str @ [0]" junk] by (simp add: octstr_append_str_def)

lemma append_oct_ok:
  assumes "oct_rep s bs" and "length bs < OCT_MAX"
  shows "\<exists>s'. octstr_append_oct junk s oct = Some s' \<and> oct_rep s' (bs @ [ucast oct])"
proof -
  obtain r where r: "s = mk_oct bs r" "length bs + length r < 2147483648"
    using assms(1) by (rule oct_repE)
  have n: "0 \<le> int (length bs) + 1" "int (length bs) + 1 \<le> 2147481600"
    using assms(2) by (simp_all add: OCT_MAX_def)
  obtain rest where rest: "octstr_grow junk (mk_oct bs r) (int (length bs) + 1) = mk_oct bs rest"
    "int (length bs) + 1 < int (length bs) + int (length rest)" "length bs + length rest < 2147483648"
    using grow_ok [OF r(2) n] by blast
  obtain a b rs where rs: "rest = a # b # rs"
    using rest(2) by (cases rest; cases "tl rest") auto
  have "octstr_append_oct junk s oct = Some (mk_oct (bs @ [ucast oct]) (0 # rs))"
    using r(1) rest(1) rs n
    by (simp add: octstr_append_oct_def octstr_wr_def c_write_def mk_oct_def nat_add_distrib list_update_append)
  moreover have "oct_rep (mk_oct (bs @ [ucast oct]) (0 # rs)) (bs @ [ucast oct])"
    by (rule oct_repI) (use rest(3) rs in auto)
  ultimately show ?thesis by blast
qed

subsection \<open>Parts\<close>

lemma get_oct_ok:
  assumes "oct_rep s bs" and that: "- 2147483648 \<le> pos" "pos < 2147483648"
  shows "octstr_get_oct s pos = Some (if 0 \<le> pos \<and> pos < int (length bs) then ucast (bs ! nat pos) else - 1)"
proof -
  obtain rest where r: "s = mk_oct bs rest" "length bs + length rest < 2147483648"
    using assms(1) by (rule oct_repE)
  show ?thesis
  proof (cases "0 \<le> pos")
    case True
    then have "to_size pos = pos" using that by simp
    then show ?thesis
      using True r by (auto simp: octstr_get_oct_def octstr_rd_def c_read_def nth_append)
  next
    case False
    then have "to_size pos = pos + 18446744073709551616" using that by (simp add: to_size_neg)
    then show ?thesis using False r that by (simp add: octstr_get_oct_def)
  qed
qed

definition sub_octets :: "u8 list \<Rightarrow> int \<Rightarrow> int \<Rightarrow> u8 list" where
  "sub_octets bs pos n = take (nat n) (drop (nat pos) bs)"

text \<open>The length that \<open>octstr_substr\<close> and \<open>octstr_replace_substr\<close> work out.\<close>

lemma sub_length:
  assumes "0 \<le> pos" and "0 \<le> n" and "pos + n < 2147483648" and "pos < int l" and "l < 2147483648"
  shows "c_int (pos + n) = Some (pos + n)"
    and "(if to_size (pos + n) \<le> int l then n else to_int (to_size (int l - to_size pos))) =
      int (min (nat n) (l - nat pos))"
  using assms by auto

lemma substr_ok:
  assumes "oct_rep s bs" and "length bs \<le> OCT_MAX" and "0 \<le> pos" and "0 \<le> n" and "pos + n < 2147483648"
  shows "\<exists>s'. octstr_substr junk s pos n = Some s' \<and> oct_rep s' (sub_octets bs pos n)"
proof (cases "pos < int (length bs)")
  case False
  then have "octstr_substr junk s pos n = octstr_create junk NoSrc 0"
    using assms oct_rep_len [OF assms(1)] by (simp add: octstr_substr_def)
  moreover have "sub_octets bs pos n = []" using False assms(3) by (simp add: sub_octets_def)
  ultimately show ?thesis using create_empty [of junk] by simp
next
  case True
  have l: "length bs < 2147483648" using assms(2) by (simp add: OCT_MAX_def)
  note len = sub_length [OF assms(3-5) True l]
  have np: "\<not> int (length bs) \<le> to_size pos" using True assms(3) l by simp
  obtain rest where ptr: "octstr_ptr s pos = Ext (drop (nat pos) bs @ rest)"
    using octstr_ptr_rep [OF assms(1), of "nat pos"] True assms(3) by (auto simp: nat_le_iff)
  define m where "m = min (nat n) (length bs - nat pos)"
  have m: "m \<le> length (drop (nat pos) bs @ rest)" "m \<le> OCT_MAX"
    using assms(2) by (auto simp: m_def)
  have sz: "to_size (int m) = int m" using m(2) by (simp add: OCT_MAX_def)
  have tk: "take m (drop (nat pos) bs @ rest) = sub_octets bs pos n"
    using True by (simp add: m_def sub_octets_def min_def)
  have "octstr_substr junk s pos n = octstr_create junk (Ext (drop (nat pos) bs @ rest)) (int m)"
    using np len oct_rep_len [OF assms(1)] sz ptr unfolding octstr_substr_def m_def
    by (simp add: Let_def del: to_size_id)
  then show ?thesis using create_ok [OF m, of junk] tk by simp
qed

lemma replace_substr_ok:
  assumes "oct_rep s bs" and "oct_rep t cs" and "length cs \<le> OCT_MAX"
    and "0 \<le> pos" and "0 \<le> n" and "pos + n < 2147483648"
  shows "\<exists>s'. octstr_replace_substr junk s (Other t) pos n = Some (int (length (sub_octets cs pos n)), s') \<and>
    oct_rep s' (sub_octets cs pos n)"
proof (cases "pos < int (length cs)")
  case False
  moreover have "sub_octets cs pos n = []" using False assms(4) by (simp add: sub_octets_def)
  moreover have "length cs < 2147483648" using assms(3) by (simp add: OCT_MAX_def)
  ultimately show ?thesis
    using str_replace_null [of s bs junk] assms oct_rep_len [OF assms(2)]
    by (auto simp: octstr_replace_substr_def arg_len_def)
next
  case True
  have l: "length cs < 2147483648" using assms(3) by (simp add: OCT_MAX_def)
  note len = sub_length [OF assms(4-6) True l]
  have np: "\<not> int (length cs) \<le> to_size pos" using True assms(4) l by simp
  obtain rest where ptr: "octstr_ptr t pos = Ext (drop (nat pos) cs @ rest)"
    using octstr_ptr_rep [OF assms(2), of "nat pos"] True assms(4) by (auto simp: nat_le_iff)
  define m where "m = min (nat n) (length cs - nat pos)"
  have m: "m \<le> length (drop (nat pos) cs @ rest)" "m \<le> OCT_MAX"
    using assms(3) by (auto simp: m_def)
  have sz: "to_size (int m) = int m" using m(2) by (simp add: OCT_MAX_def)
  have tk: "take m (drop (nat pos) cs @ rest) = sub_octets cs pos n" "length (sub_octets cs pos n) = m"
    using True by (auto simp: m_def sub_octets_def min_def)
  obtain s' where "octstr_str_replace junk s (Ext (drop (nat pos) cs @ rest)) (int m) = Some s'"
    "oct_rep s' (sub_octets cs pos n)"
    using str_replace_ok [of s bs, OF _ m, of junk] assms(1) tk(1) by auto
  then show ?thesis
    using np len oct_rep_len [OF assms(2)] sz ptr tk(2)
    unfolding octstr_replace_substr_def m_def arg_ptr_def arg_len_def
    by (simp add: Let_def del: to_size_id)
qed

lemma delete_ok:
  assumes "oct_rep s bs" and "length bs \<le> OCT_MAX" and "0 \<le> pos" and "0 \<le> n" and "pos + n < 2147483648"
  shows "\<exists>s'. octstr_delete junk s pos n = Some s' \<and> oct_rep s' (take (nat pos) bs @ drop (nat (pos + n)) bs)"
proof -
  have l: "length bs < 2147483648" using assms(2) by (simp add: OCT_MAX_def)
  obtain s1 where s1: "octstr_substr junk s 0 pos = Some s1" "oct_rep s1 (take (nat pos) bs)"
    using substr_ok [OF assms(1,2), of 0 pos junk] assms(3-5) by (auto simp: sub_octets_def)
  define m where "m = to_int (to_size (int (length bs) - to_size (pos + n)))"
  have "\<exists>s2. octstr_substr junk s (pos + n) m = Some s2 \<and> oct_rep s2 (drop (nat (pos + n)) bs)"
  proof (cases "pos + n < int (length bs)")
    case True
    then have m: "m = int (length bs) - (pos + n)" using assms(3,4) l by (simp add: m_def)
    then have "sub_octets bs (pos + n) m = drop (nat (pos + n)) bs"
      using True assms(3,4) by (simp add: sub_octets_def)
    then show ?thesis
      using substr_ok [OF assms(1,2), of "pos + n" m junk] m True assms(3,4) l by simp
  next
    case False
    then have "octstr_substr junk s (pos + n) m = octstr_create junk NoSrc 0"
      using assms(3-5) oct_rep_len [OF assms(1)] by (simp add: octstr_substr_def)
    moreover have "drop (nat (pos + n)) bs = []" using False by simp
    ultimately show ?thesis using create_empty [of junk] by simp
  qed
  then obtain s2 where s2: "octstr_substr junk s (pos + n) m = Some s2" "oct_rep s2 (drop (nat (pos + n)) bs)"
    by blast
  obtain s3 where s3: "octstr_replace junk s (Other s1) = Some s3" "oct_rep s3 (take (nat pos) bs)"
    using replace_ok [OF assms(1) s1(2), of junk] assms(2) by (auto simp: min_le_iff_disj)
  have "nat pos \<le> nat (pos + n)" using assms(3,4) by simp
  then have "length (take (nat pos) bs) + length (drop (nat (pos + n)) bs) \<le> length bs" by simp
  then obtain s4 where "octstr_append junk s3 (Other s2) = Some s4"
    "oct_rep s4 (take (nat pos) bs @ drop (nat (pos + n)) bs)"
    using append_ok [OF s3(2) s2(2), of junk] assms(2) by auto
  then show ?thesis
    using s1(1) s2(1) s3(1) assms(3-5) oct_rep_len [OF assms(1)]
    by (simp add: octstr_delete_def m_def)
qed

subsection \<open>Operations on a string and itself\<close>

text \<open>
  \<open>octstr_append(s, s)\<close> passes the buffer's address before the buffer is reallocated: it is only
  defined if there is room. \<open>octstr_replace(s, s)\<close> copies a block onto itself.
\<close>

lemma append_same_ok:
  assumes "oct_rep s bs" and "bs \<noteq> []" and "2 * length bs \<le> OCT_MAX"
  shows "if octstr_grows s (int (2 * length bs)) then octstr_append junk s Same = None
    else \<exists>s'. octstr_append junk s Same = Some s' \<and> oct_rep s' (bs @ bs)"
proof -
  obtain r where r: "s = mk_oct bs r" "length bs + length r < 2147483648" "r \<noteq> []"
    using assms(1) by (rule oct_repE)
  have e: "to_int (to_size (int (length bs) + int (length bs))) = int (length (bs @ bs))"
    "to_size (int (length (bs @ bs))) = int (length (bs @ bs))"
    using assms(3) by (simp_all add: OCT_MAX_def)
  have two: "int (2 * length bs) = int (length (bs @ bs))" by simp
  show ?thesis
  proof (cases "octstr_grows s (int (length (bs @ bs)))")
    case True
    then have "octstr_append junk s Same = None"
      using assms(2) r(1) e unfolding octstr_append_def octstr_str_append_def arg_ptr_def arg_len_def
      by (auto simp: octstr_memcpy_def Let_def octstr_grow_def split: option.split bind_splits)
    then show ?thesis unfolding two using True by simp
  next
    case False
    have sz: "0 \<le> int (length (bs @ bs))" "int (length (bs @ bs)) \<le> 2147481600"
      using assms(3) by (simp_all add: OCT_MAX_def)
    have "length (bs @ bs) < length bs + length r"
      using False new_size_ok [OF sz] r(1) by (simp add: octstr_grows_def)
    then have lt: "length bs < length r" by simp
    let ?r = "0 # drop (Suc (length bs)) r"
    have "octstr_append junk s Same = Some (mk_oct (bs @ bs) ?r)"
      using False assms(2) r(1) e put_end [OF lt, of bs]
      unfolding octstr_append_def octstr_str_append_def arg_ptr_def arg_len_def
      by (simp add: octstr_memcpy_def Let_def octstr_grow_def del: length_append) simp
    moreover have "oct_rep (mk_oct (bs @ bs) ?r) (bs @ bs)"
      by (rule oct_repI) (use r(2) lt in auto)
    ultimately show ?thesis unfolding two using False by simp
  qed
qed

end
