(* ===== verification/OctStrCodec.thy ===== *)
theory OctStrCodec
  imports OctStrOps
begin

section \<open>Octet strings: filling, bit fields and encodings\<close>

text \<open>
  The operations of octet strings that rest on bits.c, uintvar.c and netint.c, the hexadecimal
  encoding, \<open>octstr_fill\<close> and \<open>octstr_resize\<close>. The lemmas of those components are lifted to the
  octets of the string.
\<close>

subsection \<open>Filling\<close>

text \<open>A zero is written behind the filled part even when that is in the middle of the string.\<close>

definition fill_octets :: "u8 list \<Rightarrow> nat \<Rightarrow> u8 list \<Rightarrow> u8 list" where
  "fill_octets bs pos cs = take pos bs @ cs @
     (if pos + length cs < length bs then 0 # drop (Suc (pos + length cs)) bs else [])"

lemma drop_split: "n < length xs \<Longrightarrow> drop n xs = xs ! n # drop (Suc n) xs"
  by (rule Cons_nth_drop_Suc [symmetric])

lemma put_mid:
  assumes "pos + length cs < length b"
  shows "(take pos b @ cs @ drop (pos + length cs) b)[pos + length cs := 0] =
    take pos b @ cs @ 0 # drop (Suc (pos + length cs)) b"
  using list_update_length [of "take pos b @ cs" "b ! (pos + length cs)"
      "drop (Suc (pos + length cs)) b" 0] assms
  by (simp add: drop_split)

text \<open>
  \<open>octstr_fill\<close> at any position. The octets between the old end and the filled range, if it starts
  behind the end, are not set: they are the \<open>gap\<close>, what the buffer happens to hold there.
\<close>

lemma fill_any:
  assumes "oct_rep s bs" and "0 < pos + n" and "pos + n \<le> OCT_MAX"
  shows "\<exists>s' gap. octstr_fill junk s c (int pos) (int n) = Some s' \<and> length gap = pos - length bs \<and>
    oct_rep s' (fill_octets (bs @ gap) pos (replicate n (word_of_int c)))"
proof -
  obtain r where r: "s = mk_oct bs r" "r \<noteq> []" "length bs + length r < 2147483648"
    "bs \<noteq> [] \<longrightarrow> hd r = 0"
    using assms(1) by (auto simp: oct_rep_def)
  have e: "0 \<le> int (pos + n)" "int (pos + n) \<le> 2147481600"
    using assms(3) by (simp_all add: OCT_MAX_def)
  obtain rest where rest: "octstr_grow junk (mk_oct bs r) (int (pos + n)) = mk_oct bs rest"
    "int (pos + n) < int (length bs) + int (length rest)" "length bs + length rest < 2147483648"
    "take (length r) rest = r"
    using grow_ok [OF r(3) e] by blast
  define cs b where "cs = replicate n (word_of_int c :: u8)" and "b = bs @ rest"
  define gap where "gap = take (pos - length bs) rest"
  have len: "length cs = n" "pos + length cs < length b" "length b < 2147483648"
    using rest(2,3) by (simp_all add: cs_def b_def)
  have gap: "length gap = pos - length bs" "take pos b = take pos (bs @ gap)"
    using rest(2) by (auto simp: gap_def b_def)
  let ?b = "take pos b @ cs @ 0 # drop (Suc (pos + length cs)) b"
  let ?f = "fill_octets (bs @ gap) pos cs"
  have blen: "length ?b = length b" using len(2) by (simp add: min_def)
  let ?s = "\<lambda>b'. (mk_oct bs rest)\<lparr>os_s := Some b'\<rparr>"
  have put: "octstr_put (mk_oct bs rest) (int pos) cs = Some (?s (take pos b @ cs @ drop (pos + length cs) b))"
    using len(2) by (simp add: octstr_put_def b_def)
  have wr: "octstr_wr (?s (take pos b @ cs @ drop (pos + length cs) b)) (int (pos + n)) 0 = Some (?s ?b)"
    using put_mid [OF len(2)] len by (simp add: octstr_wr_def c_write_def nat_add_distrib)
  have p: "0 < int pos + int n" using assms(2) by linarith
  have mx: "(if int (pos + n) > int (length bs) then int (pos + n) else int (length bs)) =
      max (int (length bs)) (int (pos + n))" by simp
  have "octstr_fill junk s c (int pos) (int n) =
      Some ((?s ?b)\<lparr>os_len := max (int (length bs)) (int (pos + n))\<rparr>)"
    using p e r(1) rest(1) put wr mx
    by (simp add: octstr_fill_def Let_def cs_def cong: if_cong split del: if_split)
  moreover have "(?s ?b)\<lparr>os_len := max (int (length bs)) (int (pos + n))\<rparr> =
      \<lparr>os_s = Some ?b, os_len = max (int (length bs)) (int (pos + n)), os_size = int (length b)\<rparr>"
    by (simp add: mk_oct_def b_def)
  ultimately have fill: "octstr_fill junk s c (int pos) (int n) =
      Some \<lparr>os_s = Some ?b, os_len = max (int (length bs)) (int (pos + n)),
            os_size = int (length b)\<rparr>" by simp
  have hd: "bs \<noteq> [] \<Longrightarrow> hd rest = 0 \<and> rest \<noteq> []" using r(2,4) rest(4) by (cases r; cases rest) auto
  show ?thesis
  proof (cases "pos + n < length bs")
    case True
    then have "gap = []" using gap(1) by simp
    then have "?b = ?f @ rest" "length ?f = length bs"
      using True len(1) by (simp_all add: b_def fill_octets_def min_def)
    then have "\<lparr>os_s = Some ?b, os_len = max (int (length bs)) (int (pos + n)), os_size = int (length b)\<rparr> =
        mk_oct ?f rest"
      using True by (simp add: mk_oct_def b_def max_def)
    moreover have "oct_rep (mk_oct ?f rest) ?f"
    proof (rule oct_repI)
      have "bs \<noteq> []" using True by auto
      then show "rest \<noteq> []" "hd rest = 0" using hd by auto
    qed (use len \<open>length ?f = length bs\<close> in \<open>simp add: b_def\<close>)
    ultimately show ?thesis using fill gap(1) by (auto simp: cs_def)
  next
    case False
    let ?r = "0 # drop (Suc (pos + length cs)) b"
    have new: "?b = ?f @ ?r" "length ?f = pos + n"
      unfolding gap(2) using False len(1) gap(1) by (simp_all add: fill_octets_def min_def)
    have lb: "length b = pos + n + length ?r" using len(1,2) unfolding list.size length_drop by linarith
    have mx: "max (int (length bs)) (int (pos + n)) = int (length ?f)"
      using False new(2) by simp
    have sz: "int (length b) = int (length ?f) + int (length ?r)"
      using lb new(2) by linarith
    have "\<lparr>os_s = Some ?b, os_len = max (int (length bs)) (int (pos + n)), os_size = int (length b)\<rparr> =
        mk_oct ?f ?r"
      unfolding new(1) mx mk_oct_def sz by (rule refl)
    moreover have "oct_rep (mk_oct ?f ?r) ?f"
    proof (rule oct_repI)
      show "length ?f + length ?r < 2147483648" using len(3) lb new(2) by linarith
    qed simp_all
    ultimately show ?thesis using fill gap(1) by (auto simp: cs_def)
  qed
qed

lemma fill_ok:
  assumes "oct_rep s bs" and "pos \<le> length bs" and "0 < pos + n" and "pos + n \<le> OCT_MAX"
  shows "\<exists>s'. octstr_fill junk s c (int pos) (int n) = Some s' \<and>
    oct_rep s' (fill_octets bs pos (replicate n (word_of_int c)))"
  using fill_any [OF assms(1,3,4), of junk c] assms(2) by simp

text \<open>A fill of a new string at position 2 makes two octets of uninitialised memory visible.\<close>

lemma fill_past_end_exposes:
  "\<exists>s s'. octstr_create junk NoSrc 0 = Some s \<and> octstr_fill junk' s c 2 1 = Some s' \<and>
     oct_rep s' [junk 0, junk 1, word_of_int c]"
proof -
  have size: "octstr_new_size 0 = 1024" "octstr_new_size 3 = 1024"
    by (simp_all add: octstr_new_size_def octstr_calc_size_def)
  define r where "r = map junk [3..<1024]"
  have three: "3 \<le> k \<Longrightarrow> [0..<k] = 0 # 1 # 2 # [3..<k]" for k
    by (simp add: upt_conv_Cons numeral_2_eq_2 numeral_3_eq_3)
  have alloc: "octstr_alloc junk None 1024 = Some (junk 0 # junk 1 # junk 2 # r)"
    using three [of 1024] by (simp add: octstr_alloc_def r_def del: upt_rec_numeral)
  let ?s = "mk_oct [] (junk 0 # junk 1 # junk 2 # r)"
  have len: "length r = 1021" by (simp add: r_def del: upt_rec_numeral)
  have create: "octstr_create junk NoSrc 0 = Some ?s"
    using len alloc by (simp add: octstr_create_def octstr_str_replace_def octstr_grow_def octstr_grows_def
        size mk_oct_def)
  then obtain b where b: "r = b # tl r" using len by (cases r) auto
  have "octstr_fill junk' ?s c 2 1 = Some (mk_oct [junk 0, junk 1, word_of_int c] (0 # tl r))"
    using len by (subst (1) b) (simp add: octstr_fill_def octstr_grow_def octstr_grows_def size mk_oct_def
        octstr_put_def octstr_wr_def c_write_def eval_nat_numeral)
  moreover have "oct_rep (mk_oct [junk 0, junk 1, word_of_int c] (0 # tl r)) [junk 0, junk 1, word_of_int c]"
    by (rule oct_repI) (use len in simp_all)
  ultimately show ?thesis using create by blast
qed

subsection \<open>Bit fields\<close>

lemma div_round_up: "e div 8 + (if e mod 8 > 0 then 1 else 0) = (e + 7) div (8 :: nat)"
proof -
  define q r where "q = e div 8" and "r = e mod 8"
  have e: "e = 8 * q + r" "r < 8" by (simp_all add: q_def r_def)
  have "(8 * q + r + 7) div 8 = q + (r + 7) div 8" by simp
  moreover have "(r + 7) div 8 = (if r > 0 then 1 else 0)" using e(2) by auto
  ultimately show ?thesis unfolding q_def [symmetric] r_def [symmetric] by (simp add: e(1))
qed

lemma bytes_of_bits_nat:
  assumes "e \<le> 8 * OCT_MAX"
  shows "bytes_of_bits (int e) = int ((e + 7) div 8)"
proof -
  have "int e div 8 + (if int e mod 8 > 0 then 1 else 0) =
      int (e div 8 + (if e mod 8 > 0 then 1 else 0))"
    by (simp add: zdiv_int zmod_int [of e 8, simplified, symmetric])
  also have "\<dots> = int ((e + 7) div 8)" unfolding div_round_up ..
  finally have *: "int e div 8 + (if int e mod 8 > 0 then 1 else 0) = int ((e + 7) div 8)" .
  have "(e + 7) div 8 \<le> OCT_MAX" using assms by linarith
  then have "int ((e + 7) div 8) < 2147483648" by (simp add: OCT_MAX_def)
  then show ?thesis unfolding bytes_of_bits_def using * by simp
qed

lemma bit_at_append: "i < 8 * length bs \<Longrightarrow> bit_at (bs @ rest) i = bit_at bs i"
  by (simp add: bit_at_def nth_append less_mult_imp_div_less mult.commute)

lemma get_bits_ok:
  assumes "oct_rep s bs" and "n \<le> 30" and "pos + n \<le> 8 * length bs" and "pos < 8 * length bs"
    and "length bs \<le> OCT_MAX"
  shows "\<exists>r. octstr_get_bits s (int pos) (int n) = Some r \<and>
    (\<forall>k. bit r k \<longleftrightarrow> k < n \<and> bit_at bs (pos + n - 1 - k))"
proof -
  obtain rest where s: "s = mk_oct bs rest" using assms(1) by (rule oct_repE)
  have b: "bytes_of_bits (int (pos + n)) = int ((pos + n + 7) div 8)"
    by (rule bytes_of_bits_nat) (use assms(3,5) in linarith)
  have e: "int (pos + n) < 9223372036854775808" using assms(3,5) by (simp add: OCT_MAX_def)
  have "(pos + n + 7) div 8 \<le> length bs" using assms(3) by linarith
  moreover have "to_size (int ((pos + n + 7) div 8)) = int ((pos + n + 7) div 8)"
    using calculation assms(5) by (simp add: OCT_MAX_def)
  moreover obtain r where r: "bits_get (bs @ rest) (int pos) (int n) = Some r"
    "\<And>k. bit r k \<longleftrightarrow> k < n \<and> bit_at (bs @ rest) (pos + n - 1 - k)"
    using bits_get_ok [of n pos "bs @ rest"] assms(2-4) by auto
  ultimately have "octstr_get_bits s (int pos) (int n) = Some (ucast r)"
    using b e s by (simp add: octstr_get_bits_def)
  moreover have "bit (ucast r :: u32) k \<longleftrightarrow> k < n \<and> bit_at bs (pos + n - 1 - k)" for k
  proof -
    have "pos + n - 1 - k < 8 * length bs" if "k < n" using that assms(3) by linarith
    then show ?thesis
      using r(2) [of k] assms(2) bit_at_append [of "pos + n - 1 - k" bs rest]
      by (auto simp: bit_simps)
  qed
  ultimately show ?thesis by blast
qed

text \<open>
  Bits of the field are set, the other bits of the string are kept; what the string grows by beyond
  the field is whatever the memory held.
\<close>

lemma set_bits_ok:
  assumes "oct_rep s bs" and "length bs \<le> OCT_MAX" and "n \<le> 30" and "0 < n" and "pos + n \<le> 8 * OCT_MAX"
  shows "\<exists>s' bs'. octstr_set_bits junk s (int pos) (int n) v = Some s' \<and> oct_rep s' bs' \<and>
    length bs' = max (length bs) ((pos + n + 7) div 8) \<and>
    (\<forall>i < 8 * length bs'. pos \<le> i \<and> i < pos + n \<longrightarrow> bit_at bs' i = bit v (pos + n - 1 - i)) \<and>
    (\<forall>i < 8 * length bs. \<not> (pos \<le> i \<and> i < pos + n) \<longrightarrow>
       (bit_at bs' i \<longleftrightarrow> bit_at bs i \<or> spill pos n v i))"
proof -
  obtain r where r: "s = mk_oct bs r" "r \<noteq> []" "length bs + length r < 2147483648"
    using assms(1) by (rule oct_repE)
  define l where "l = (pos + n + 7) div 8"
  have l: "l \<le> OCT_MAX" "pos + n \<le> 8 * l" "0 < l" using assms(4,5) by (auto simp: l_def)
  have b: "bytes_of_bits (int (pos + n)) = int l"
    unfolding l_def by (rule bytes_of_bits_nat [OF assms(5)])
  have e: "int (pos + n) < 9223372036854775808" using assms(5) by (simp add: OCT_MAX_def)
  have lsz: "0 \<le> int l" "int l \<le> 2147481600" using l(1) by (simp_all add: OCT_MAX_def)
  obtain rest where rest: "octstr_grow junk (mk_oct bs r) (int l) = mk_oct bs rest"
    "int l < int (length bs) + int (length rest)" "length bs + length rest < 2147483648"
    "take (length r) rest = r"
    using grow_ok [OF r(3) lsz] by blast
  have ne: "rest \<noteq> []" using rest(4) r(2) by auto
  obtain b' where b': "bits_set (bs @ rest) (int pos) (int n) v = Some b'"
    "set_result (bs @ rest) pos n v b'"
    using bits_set_any [of n pos "bs @ rest" v] assms(3) l(2) rest(2) assms(4) by auto
  define m where "m = max (length bs) l"
  have len: "length b' = length bs + length rest" using b'(2) by (simp add: set_result_def)
  have m: "m < length b'" using rest(2) len ne by (simp add: m_def)
  define bs' rest' where "bs' = take m b'" and "rest' = 0 # drop (Suc m) b'"
  have b'upd: "b'[m := 0] = bs' @ rest'"
    unfolding bs'_def rest'_def using m by (simp add: upd_conv_take_nth_drop)
  have lens: "length bs' = m" "length rest' = length b' - m"
    using m by (simp_all add: bs'_def rest'_def)
  have mi: "(if int l > int (length bs) then int l else int (length bs)) = int m"
    by (simp add: m_def max_def)
  have "octstr_wr ((mk_oct bs rest)\<lparr>os_s := Some b', os_len := int m\<rparr>) (int m) 0 = Some (mk_oct bs' rest')"
    using m len lens b'upd by (simp add: octstr_wr_def c_write_def mk_oct_def of_nat_diff)
  moreover have "octstr_grow junk s (to_size (int l)) = mk_oct bs rest" "to_size (int l) = int l"
    using r(1) rest(1) lsz by simp_all
  ultimately have "octstr_set_bits junk s (int pos) (int n) v = Some (mk_oct bs' rest')"
    using b e b'(1) mi by (simp add: octstr_set_bits_def Let_def cong: if_cong split del: if_split)
  have "oct_rep (mk_oct bs' rest') bs'"
    by (rule oct_repI) (use lens len m rest(3) in \<open>auto simp: rest'_def\<close>)
  have bit': "bit_at bs' i = (if pos \<le> i \<and> i < pos + n then bit v (pos + n - 1 - i)
      else bit_at (bs @ rest) i \<or> spill pos n v i)" if "i < 8 * m" for i
  proof -
    have "bit_at bs' i = bit_at (bs' @ drop m b') i" using that lens(1) by (simp add: bit_at_append)
    then show ?thesis using b'(2) by (simp add: bs'_def set_result_def)
  qed
  have new: "\<forall>i < 8 * length bs'. pos \<le> i \<and> i < pos + n \<longrightarrow> bit_at bs' i = bit v (pos + n - 1 - i)"
    using bit' lens(1) by simp
  have old: "\<forall>i < 8 * length bs. \<not> (pos \<le> i \<and> i < pos + n) \<longrightarrow>
      (bit_at bs' i \<longleftrightarrow> bit_at bs i \<or> spill pos n v i)"
    using bit' bit_at_append [of _ bs rest] by (simp add: m_def)
  show ?thesis
    using \<open>octstr_set_bits junk s (int pos) (int n) v = Some (mk_oct bs' rest')\<close>
      \<open>oct_rep (mk_oct bs' rest') bs'\<close> new old lens(1) unfolding m_def l_def by blast
qed

lemma set_get_bits_ok:
  assumes "oct_rep s bs" and "length bs \<le> OCT_MAX" and "n \<le> 30" and "0 < n" and "pos + n \<le> 8 * OCT_MAX"
  shows "\<exists>s' bs'. octstr_set_bits junk s (int pos) (int n) v = Some s' \<and> oct_rep s' bs' \<and>
    octstr_get_bits s' (int pos) (int n) = Some (ucast (take_bit n v)) \<and>
    length bs' = max (length bs) ((pos + n + 7) div 8) \<and>
    (\<forall>i < 8 * length bs. \<not> (pos \<le> i \<and> i < pos + n) \<longrightarrow>
       (bit_at bs' i \<longleftrightarrow> bit_at bs i \<or> spill pos n v i))"
proof -
  obtain s' bs' where s': "octstr_set_bits junk s (int pos) (int n) v = Some s'" "oct_rep s' bs'"
    "length bs' = max (length bs) ((pos + n + 7) div 8)"
    "\<forall>i < 8 * length bs'. pos \<le> i \<and> i < pos + n \<longrightarrow> bit_at bs' i = bit v (pos + n - 1 - i)"
    "\<forall>i < 8 * length bs. \<not> (pos \<le> i \<and> i < pos + n) \<longrightarrow>
       (bit_at bs' i \<longleftrightarrow> bit_at bs i \<or> spill pos n v i)"
    using set_bits_ok [OF assms, of junk] by blast
  have "(pos + n + 7) div 8 \<le> OCT_MAX" using assms(5) by linarith
  then have l: "pos + n \<le> 8 * length bs'" "length bs' \<le> OCT_MAX"
    using s'(3) assms(2) by (auto simp: max_def)
  then obtain r where r: "octstr_get_bits s' (int pos) (int n) = Some r"
    "\<And>k. bit r k \<longleftrightarrow> k < n \<and> bit_at bs' (pos + n - 1 - k)"
    using get_bits_ok [OF s'(2) assms(3) l(1) _ l(2)] assms(4) by auto
  have "r = ucast (take_bit n v)"
  proof (rule bit_word_eqI)
    fix k
    have "bit_at bs' (pos + n - 1 - k) = bit v k" if "k < n"
      using s'(4) [rule_format, of "pos + n - 1 - k"] that l(1) by simp
    then show "bit r k = bit (ucast (take_bit n v) :: u32) k"
      using r(2) [of k] assms(3) by (auto simp: bit_simps)
  qed
  then show ?thesis using s' r(1) by blast
qed

subsection \<open>Variable-length integers\<close>

lemma append_uintvar_ok:
  assumes "oct_rep s bs" and "length tmp = 5" and "length bs + 5 \<le> OCT_MAX"
  shows "\<exists>s'. octstr_append_uintvar junk tmp s v = Some (int (uv_len v), s') \<and> oct_rep s' (bs @ uv_encode v)"
proof -
  note uv = uv_len_bounds [of v]
  obtain s' where "octstr_str_append junk s (Ext (uv_encode v @ drop (uv_len v) tmp)) (int (uv_len v)) = Some s'"
    "oct_rep s' (bs @ uv_encode v)"
    using str_append_ok [of s bs "uv_len v" "uv_encode v @ drop (uv_len v) tmp" junk] assms uv by auto
  then show ?thesis
    using assms(2) uv by (simp add: octstr_append_uintvar_def uintvar_pack_eq UINTVAR32_LEN_def)
qed

lemma unpack_uintvar_ok:
  assumes "oct_rep s (bs @ uv_encode v @ cs)" and "length bs + 5 + length cs \<le> OCT_MAX"
  shows "octstr_unpack_uintvar s (int (length bs)) =
    Some (int (length bs + uv_len v), Some (take_bit 35 v))"
proof -
  note uv = uv_len_bounds [of v]
  obtain rest where s: "s = mk_oct (bs @ uv_encode v @ cs) rest" "rest \<noteq> []"
    using assms(1) by (rule oct_repE)
  let ?n = "uv_len v + length cs" and ?buf = "uv_encode v @ cs @ rest"
  let ?bs = "take (min 5 ?n) ?buf"
  have bs: "?bs = uv_encode v @ take (min 5 ?n - uv_len v) (cs @ rest)" using uv by simp
  have pre: "uv_prefix ?bs = uv_len v - 1" unfolding bs by (rule uv_prefix_encode)
  have "take (uv_prefix ?bs + 1) ?bs = uv_encode v"
    unfolding pre using uv by (subst bs) simp
  then have "of_nat (uv_value (take (uv_prefix ?bs + 1) ?bs)) = take_bit 35 v"
    using uv_word_encode uv_word_value by metis
  moreover have "uv_prefix ?bs < length ?bs"
    unfolding pre using uv by simp arith
  moreover have "min 5 ?n \<le> length ?buf" by simp
  ultimately have "uintvar_unpack ?buf (int ?n) = Some (int (uv_len v), Some (take_bit 35 v))"
    using uintvar_unpack_eq [of ?n ?buf ?bs] pre uv by auto
  moreover have "int (length bs + ?n) < 2147483648" using assms(2) uv by (simp add: OCT_MAX_def)
  moreover have "to_size (int (length bs)) = int (length bs)" "to_long (int ?n) = int ?n"
    using assms(2) uv by (simp_all add: OCT_MAX_def)
  ultimately show ?thesis
    using s(1) uv by (simp add: octstr_unpack_uintvar_def)
qed

subsection \<open>Integers in network order\<close>

text \<open>The 32 low bits of a value, big endian, and without the leading zeros.\<close>

definition be_bytes :: "u64 \<Rightarrow> u8 list" where
  "be_bytes v = mem_u32 False (ucast v)"

definition be_min :: "u64 \<Rightarrow> u8 list" where
  "be_min v = drop (4 - nat (int_max_octet (ucast (ucast v :: u32)))) (be_bytes v)"

lemma htonl_pad_ok:
  "oct_rep s bs \<Longrightarrow> length bs + (4 - n) \<le> OCT_MAX \<Longrightarrow> n \<le> 4 \<Longrightarrow>
   \<exists>s'. htonl_pad junk s (int n) = Some (5, s') \<and> oct_rep s' (bs @ replicate (4 - n) 0)"
proof (induction "4 - n" arbitrary: n s bs)
  case 0
  then show ?case by (subst htonl_pad.simps) simp
next
  case (Suc k)
  have n: "n < 4" "k = 4 - Suc n" "length bs < OCT_MAX" "4 - n = Suc (4 - Suc n)"
    using Suc.hyps(2) Suc.prems(2) by simp_all
  obtain s1 where s1: "octstr_append_oct junk s 0 = Some s1" "oct_rep s1 (bs @ [0])"
    using append_oct_ok [OF Suc.prems(1) n(3), of junk 0] by auto
  have "length (bs @ [0 :: u8]) + (4 - Suc n) \<le> OCT_MAX" using Suc.prems(2) n(4) by simp
  then obtain s2 where s2: "htonl_pad junk s1 (int (Suc n)) = Some (5, s2)"
    "oct_rep s2 ((bs @ [0]) @ replicate (4 - Suc n) 0)"
    using Suc.hyps(1) [OF n(2) s1(2)] n(1) by auto
  have "htonl_pad junk s (int n) = htonl_pad junk s1 (int (Suc n))"
    using s1(1) n(1) by (subst htonl_pad.simps) (simp add: add.commute)
  then show ?case using s2 unfolding n(4) by simp
qed

lemma be_word_zeros: "be_word (replicate k 0 @ xs) = be_word xs"
  by (induction k) (simp_all add: be_word_def)

lemma be_bytes_min:
  assumes "n = nat (int_max_octet (ucast (ucast v :: u32)))"
  shows "be_bytes v = replicate (4 - n) 0 @ be_min v"
proof -
  let ?v = "ucast v :: u32"
  note n = int_max_octet_bounds [OF assms]
  have min: "be_min v = drop (4 - n) (mem_u32 False ?v)" by (simp add: be_min_def be_bytes_def assms)
  have "be_word (replicate (4 - n) 0 @ be_min v) = ?v"
    unfolding be_word_zeros min using n by (intro be_word_drop)
  moreover have "length (replicate (4 - n) 0 @ be_min v) = 4" using n by (simp add: min)
  ultimately show ?thesis using mem_be_word unfolding be_bytes_def by metis
qed

lemma append_htonl_ok:
  assumes "oct_rep s bs" and "length tmp = 4" and "length bs + 4 \<le> OCT_MAX"
  shows "\<exists>s'. octstr_append_htonl le junk tmp s v True = Some (int (length (be_min v)), s') \<and>
      oct_rep s' (bs @ be_min v)"
    and "\<exists>s'. octstr_append_htonl le junk tmp s v False = Some (5, s') \<and> oct_rep s' (bs @ be_bytes v)"
proof -
  have "4 \<le> length tmp" using assms(2) by simp
  then obtain n where n: "data_htonl le tmp (ucast v) = Some (int n, be_min v @ drop n tmp)"
    "n = nat (int_max_octet (ucast (ucast v :: u32)))"
    unfolding be_min_def be_bytes_def by (metis data_htonl_spec)
  have n4: "1 \<le> n" "n \<le> 4" using int_max_octet_bounds [OF n(2)] by auto
  then have len: "length (be_min v) = n" using n(2) by (simp add: be_min_def be_bytes_def)
  have sz: "to_size (int n) = int n" using n4 by simp
  obtain s1 where "octstr_str_append junk s (Ext (be_min v @ drop n tmp)) (int n) = Some s1"
    "oct_rep s1 (bs @ be_min v)"
    using str_append_ok [OF assms(1), of n "be_min v @ drop n tmp" junk] len n4 assms(3) by auto
  then show "\<exists>s'. octstr_append_htonl le junk tmp s v True = Some (int (length (be_min v)), s') \<and>
      oct_rep s' (bs @ be_min v)"
    using n(1) len sz assms(2) by (simp add: octstr_append_htonl_def)
  obtain s2 where s2: "htonl_pad junk s (int n) = Some (5, s2)" "oct_rep s2 (bs @ replicate (4 - n) 0)"
    using htonl_pad_ok [OF assms(1) _ n4(2), of junk] assms(3) by fastforce
  have "length (bs @ replicate (4 - n) (0 :: u8)) + n \<le> OCT_MAX" using assms(3) n4 by simp
  then obtain s3 where "octstr_str_append junk s2 (Ext (be_min v @ drop n tmp)) (int n) = Some s3"
    "oct_rep s3 ((bs @ replicate (4 - n) 0) @ be_min v)"
    using str_append_ok [OF s2(2), of n "be_min v @ drop n tmp" junk] len by auto
  then show "\<exists>s'. octstr_append_htonl le junk tmp s v False = Some (5, s') \<and> oct_rep s' (bs @ be_bytes v)"
    using n(1) s2(1) sz assms(2) be_bytes_min [OF n(2)] by (simp add: octstr_append_htonl_def)
qed

text \<open>Reading is refused when the field ends where the string does.\<close>

lemma unpack_ntohl_ok:
  assumes "oct_rep s (bs @ xs @ cs)" and "length bs + length xs + length cs \<le> OCT_MAX" and "length xs \<le> 4"
  shows "octstr_unpack_ntohl le s (int (length bs)) (int (length xs)) =
    Some (if cs = [] then (- 1, None)
      else (int (length bs + length xs), Some (ucast (be_word xs))))"
proof -
  obtain rest where s: "s = mk_oct (bs @ xs @ cs) rest" using assms(1) by (rule oct_repE)
  have "int (length bs + length xs) < 2147483648" using assms(2) by (simp add: OCT_MAX_def)
  moreover have "data_ntohl le (xs @ cs @ rest) (length xs) = Some (be_word xs)"
    using data_ntohl_be [of "length xs" "xs @ cs @ rest" le] assms(3) by (simp add: min_def)
  ultimately show ?thesis using s by (auto simp: octstr_unpack_ntohl_def)
qed

subsection \<open>Hexadecimal\<close>

lemma to_hex_loop_ok:
  assumes "oct_rep s bs" and "2 * length bs \<le> OCT_MAX"
  shows "i \<le> length bs \<Longrightarrow> oct_rep hex (concat (map (\<lambda>x. take 2 (c_hex2 x)) (take i bs))) \<Longrightarrow>
    \<exists>s'. to_hex_loop junk s (int (length bs)) (int i) hex = Some s' \<and>
      oct_rep s' (concat (map (\<lambda>x. take 2 (c_hex2 x)) bs))"
proof (induction "length bs - i" arbitrary: i hex)
  case 0
  then show ?case by (subst to_hex_loop.simps) simp
next
  case (Suc k)
  then have i: "i < length bs" by simp
  obtain rest where s: "s = mk_oct bs rest" using assms(1) by (rule oct_repE)
  let ?h = "concat (map (\<lambda>x. take 2 (c_hex2 x)) (take i bs))"
  have "length ?h = 2 * i" using i by (simp add: length_concat comp_def c_hex2_def sum_list_triv)
  then have l: "length ?h + 2 \<le> OCT_MAX" using i assms(2) by simp
  obtain h1 where h1: "octstr_str_append junk hex (Ext (c_hex2 (bs ! i))) 2 = Some h1"
    "oct_rep h1 (?h @ take 2 (c_hex2 (bs ! i)))"
    using str_append_ok [OF Suc.prems(2) _ l, of "c_hex2 (bs ! i)" junk] by (auto simp: c_hex2_def)
  have "?h @ take 2 (c_hex2 (bs ! i)) = concat (map (\<lambda>x. take 2 (c_hex2 x)) (take (Suc i) bs))"
    using i by (simp add: take_Suc_conv_app_nth)
  then have "oct_rep h1 (concat (map (\<lambda>x. take 2 (c_hex2 x)) (take (Suc i) bs)))" using h1(2) by simp
  moreover have "octstr_rd s (int i) = Some (bs ! i)"
    using i s by (simp add: octstr_rd_def c_read_def nth_append)
  ultimately show ?case
    using Suc.hyps(1) [of "Suc i" h1] Suc.hyps(2) h1(1) i
    by (subst to_hex_loop.simps) (simp add: add.commute)
qed

lemma to_hex_ok:
  assumes "oct_rep s bs" and "2 * length bs \<le> OCT_MAX"
  shows "\<exists>h. octstr_to_hex junk s = Some h \<and> oct_rep h (concat (map (\<lambda>x. take 2 (c_hex2 x)) bs))"
proof -
  obtain h0 where "octstr_create junk NoSrc 0 = Some h0" "oct_rep h0 []"
    using create_empty [of junk] by blast
  moreover have "to_int (os_len s) = int (length bs)"
    using oct_rep_len [OF assms(1)] assms(2) by (simp add: OCT_MAX_def)
  ultimately show ?thesis
    using to_hex_loop_ok [OF assms, of 0 h0 junk] by (simp add: octstr_to_hex_def)
qed

text \<open>A decoder, to say what the digits mean.\<close>

definition hex_val :: "u8 \<Rightarrow> u8" where
  "hex_val c = (if c \<le> 0x39 then c - 0x30 else c - 0x57)"

fun hex_decode :: "u8 list \<Rightarrow> u8 list" where
  "hex_decode (a # b # xs) = (push_bit 4 (hex_val a) OR hex_val b) # hex_decode xs"
| "hex_decode xs = []"

lemma hex_val_digit: "d < 16 \<Longrightarrow> hex_val (hex_digit d) = d"
proof -
  assume "d < 16"
  then have "unat d \<in> set [0..<16]" by (simp add: word_less_nat_alt)
  then have "of_nat (unat d) \<in> set (map of_nat [0..<16] :: u8 list)" by (simp only: set_map image_eqI)
  moreover have "\<forall>e \<in> set (map of_nat [0..<16]). hex_val (hex_digit e) = (e :: u8)"
    by code_simp
  ultimately show ?thesis by (auto simp del: upt_rec_numeral)
qed

lemma hex_byte: "push_bit 4 (hex_val (hex_digit (drop_bit 4 x))) OR hex_val (hex_digit (x AND 0x0f)) = x"
proof -
  have "x AND 0x0f = take_bit 4 x" by (simp add: take_bit_eq_mask mask_eq_exp_minus_1)
  moreover have "drop_bit 4 x < 16" "take_bit 4 x < 16"
    using unsigned_less [of x, where ?'a = nat]
    by (simp_all add: word_less_nat_alt drop_bit_eq_div take_bit_eq_mod unat_div unat_mod)
  moreover have "push_bit 4 (drop_bit 4 x) OR take_bit 4 x = x"
    by (rule bit_word_eqI) (auto simp: bit_simps)
  ultimately show ?thesis by (simp add: hex_val_digit)
qed

lemma hex_decode_encode: "hex_decode (concat (map (\<lambda>x. take 2 (c_hex2 x)) bs)) = bs"
  by (induction bs) (simp_all add: c_hex2_def hex_byte)

end
