(* ===== verification/OctStrSearch.thy ===== *)
theory OctStrSearch
  imports OctStrCodec
begin

section \<open>Octet strings: searching, comparing, stripping, replacing\<close>

text \<open>
  What the operations on text and the file operations do to the octets. Searching stops at the first
  zero octet, because it uses the C library's string functions; the lemmas say so.
\<close>

subsection \<open>C strings inside of octet strings\<close>

abbreviation nonzero :: "u8 list \<Rightarrow> u8 list" where
  "nonzero bs \<equiv> takeWhile (\<lambda>x. x \<noteq> 0) bs"

lemma nonzero_id: "0 \<notin> set bs \<Longrightarrow> nonzero bs = bs"
  by (induction bs) auto

lemma c_str_ok:
  assumes "oct_rep s bs" and "bs \<noteq> []" and "pos \<le> length bs"
  shows "c_str s (int pos) = Some (nonzero (drop pos bs))"
proof -
  obtain r where r: "s = mk_oct bs (0 # r)"
    using assms(1,2) by (auto simp: oct_rep_def neq_Nil_conv)
  have "nonzero (xs @ 0 # r) = nonzero xs" for xs by (induction xs) auto
  then show ?thesis using r assms(3) by (simp add: c_str_def)
qed

subsection \<open>Searching\<close>

text \<open>\<open>occurs xs w i\<close>: \<open>w\<close> stands in \<open>xs\<close> at position \<open>i\<close>.\<close>

definition occurs :: "u8 list \<Rightarrow> u8 list \<Rightarrow> nat \<Rightarrow> bool" where
  "occurs xs w i \<longleftrightarrow> i \<le> length xs \<and> take (length w) (drop i xs) = w"

lemma occurs_Cons: "occurs (x # xs) w (Suc i) \<longleftrightarrow> occurs xs w i"
  by (simp add: occurs_def)

lemma c_strstr_ok:
  "case c_strstr xs w of
     Some i \<Rightarrow> occurs xs w i \<and> (\<forall>j < i. \<not> occurs xs w j)
   | None \<Rightarrow> \<forall>j. \<not> occurs xs w j"
proof (induction xs)
  case Nil
  then show ?case by (auto simp: occurs_def)
next
  case (Cons x xs)
  show ?case
  proof (cases "take (length w) (x # xs) = w")
    case True
    then show ?thesis by (simp add: occurs_def)
  next
    case False
    then have zero: "\<not> occurs (x # xs) w 0" by (simp add: occurs_def)
    then have "\<not> occurs (x # xs) w j" if "\<And>i. j = Suc i \<Longrightarrow> \<not> occurs xs w i" for j
      using that by (cases j) (auto simp: occurs_Cons)
    then show ?thesis
      using Cons.IH False by (auto simp: occurs_Cons split: option.splits)
  qed
qed

lemma str_index_ok:
  assumes "oct_rep s bs" and "length bs \<le> OCT_MAX" and "pos \<le> OCT_MAX"
  shows "octstr_str_index s (int pos) w =
    Some (if pos < length bs
      then case c_strstr (nonzero (drop pos bs)) w of Some i \<Rightarrow> int (pos + i) | None \<Rightarrow> - 1
      else - 1)"
proof -
  have pos: "to_size (int pos) = int pos" using assms(3) by (simp add: OCT_MAX_def)
  show ?thesis
  proof (cases "pos < length bs")
    case True
    then have "c_str s (int pos) = Some (nonzero (drop pos bs))"
      by (intro c_str_ok [OF assms(1)]) auto
    then show ?thesis
      using True pos oct_rep_len [OF assms(1)] by (simp add: octstr_str_index_def split: option.split)
  next
    case False
    then show ?thesis using pos oct_rep_len [OF assms(1)] by (simp add: octstr_str_index_def)
  qed
qed

lemma index_ok:
  assumes "oct_rep s bs" and "length bs \<le> OCT_MAX" and "pos \<le> OCT_MAX"
    and "oct_rep t w" and "w \<noteq> []"
  shows "octstr_index s (int pos) t =
    Some (if pos < length bs
      then case c_strstr (nonzero (drop pos bs)) (nonzero w) of Some i \<Rightarrow> int (pos + i) | None \<Rightarrow> - 1
      else - 1)"
proof -
  have "c_str t 0 = Some (nonzero w)" using c_str_ok [OF assms(4,5), of 0] by simp
  moreover have "to_size (int pos) = int pos" using assms(3) by (simp add: OCT_MAX_def)
  ultimately show ?thesis
    using str_index_ok [OF assms(1-3)] oct_rep_len [OF assms(1)]
    by (simp add: octstr_index_def split del: option.split)
qed

text \<open>The position of the first occurrence at or after \<open>pos\<close>, \<open>- 1\<close> if there is none.\<close>

lemma index_first:
  assumes "oct_rep s bs" and "length bs \<le> OCT_MAX" and "pos \<le> OCT_MAX" and "0 \<notin> set bs"
    and "oct_rep t w" and "w \<noteq> []" and "0 \<notin> set w"
  shows "\<exists>r. octstr_index s (int pos) t = Some r \<and>
    (if r = - 1 then \<forall>j \<ge> pos. \<not> occurs bs w j
     else \<exists>i. r = int i \<and> pos \<le> i \<and> occurs bs w i \<and> (\<forall>j. pos \<le> j \<and> j < i \<longrightarrow> \<not> occurs bs w j))"
proof (cases "pos < length bs")
  case False
  have "\<not> occurs bs w j" if "j \<ge> pos" for j
    using that False assms(6) by (auto simp: occurs_def)
  then show ?thesis using index_ok [OF assms(1-3,5,6)] False by simp
next
  case True
  have "0 \<notin> set (drop pos bs)" using assms(4) by (meson in_set_dropD)
  then have nz: "nonzero (drop pos bs) = drop pos bs" "nonzero w = w"
    using assms(7) nonzero_id by blast+
  have shift: "occurs (drop pos bs) w j \<longleftrightarrow> occurs bs w (pos + j)" for j
    using True by (auto simp: occurs_def add.commute)
  have after: "\<not> occurs bs w j" if "\<forall>j. \<not> occurs (drop pos bs) w j" "pos \<le> j" for j
    using that shift [of "j - pos"] by simp
  show ?thesis
  proof (cases "c_strstr (drop pos bs) w")
    case None
    then have "\<forall>j \<ge> pos. \<not> occurs bs w j" using c_strstr_ok [of "drop pos bs" w] after by simp
    then show ?thesis using index_ok [OF assms(1-3,5,6)] True None nz by simp
  next
    case (Some i)
    then have i: "occurs bs w (pos + i)" "\<forall>j < i. \<not> occurs (drop pos bs) w j"
      using c_strstr_ok [of "drop pos bs" w] shift by simp_all
    have "\<not> occurs bs w j" if "pos \<le> j" "j < pos + i" for j
      using that i(2) [rule_format, of "j - pos"] shift [of "j - pos"] by simp
    then have "\<exists>k. int (pos + i) = int k \<and> pos \<le> k \<and> occurs bs w k \<and>
        (\<forall>j. pos \<le> j \<and> j < k \<longrightarrow> \<not> occurs bs w j)"
      using i(1) by (intro exI [of _ "pos + i"]) auto
    moreover have "octstr_index s (int pos) t = Some (int (pos + i))"
      using index_ok [OF assms(1-3,5,6)] True Some nz by simp
    ultimately show ?thesis by simp
  qed
qed

text \<open>The search for one octet; it does not stop at zeros.\<close>

lemma oct_index_loop_ok:
  assumes "oct_rep s bs"
  shows "i \<le> length bs \<Longrightarrow> oct_index_loop s oct (int (length bs)) (int i) =
    Some (case List.find (\<lambda>j. ucast (bs ! j) = oct) [i..<length bs] of Some j \<Rightarrow> int j | None \<Rightarrow> - 1)"
proof (induction "length bs - i" arbitrary: i)
  case 0
  then show ?case by (subst oct_index_loop.simps) simp
next
  case (Suc k)
  then have i: "i < length bs" by simp
  obtain rest where s: "s = mk_oct bs rest" "length bs + length rest < 2147483648" "rest \<noteq> []"
    using assms by (rule oct_repE)
  have "octstr_rd s (int i) = Some (bs ! i)"
    using i s by (simp add: octstr_rd_def c_read_def nth_append)
  moreover have "oct_index_loop s oct (int (length bs)) (int i + 1) =
      Some (case List.find (\<lambda>j. ucast (bs ! j) = oct) [Suc i..<length bs] of Some j \<Rightarrow> int j | None \<Rightarrow> - 1)"
    using Suc.hyps(1) [of "Suc i"] Suc.hyps(2) i by (simp add: add.commute)
  moreover have "[i..<length bs] = i # [Suc i..<length bs]" using i by (rule upt_conv_Cons)
  ultimately show ?case
    using i s(2) by (subst oct_index_loop.simps) simp
qed

lemma oct_index_ok:
  assumes "oct_rep s bs" and "pos \<le> length bs"
  shows "octstr_oct_index s (int pos) oct =
    Some (case List.find (\<lambda>j. ucast (bs ! j) = oct) [pos..<length bs] of Some j \<Rightarrow> int j | None \<Rightarrow> - 1)"
  using oct_index_loop_ok [OF assms, of oct] oct_rep_len [OF assms(1)] oct_rep_bound [OF assms(1)] assms(2)
  by (simp add: octstr_oct_index_def)

subsection \<open>Comparing\<close>

text \<open>\<open>octstr_cmp\<close> is the lexicographic order of the octets.\<close>

lemma memcmp_refl [simp]: "c_memcmp a a = 0"
  by (induction a) auto

lemma memcmp_eq: "c_memcmp a b = 0 \<longleftrightarrow> a = b"
  by (induction a b rule: c_memcmp.induct) auto

text \<open>The octets are compared as unsigned bytes.\<close>

lemma memcmp_lex:
  "c_memcmp a b < 0 \<longleftrightarrow> (map unat a, map unat b) \<in> lexord {(x, y). x < y}"
  by (induction a b rule: c_memcmp.induct) (auto simp: word_less_nat_alt)

lemma memcmp_range: "c_memcmp a b \<in> {- 1, 0, 1}"
  by (induction a b rule: c_memcmp.induct) auto

lemma memcmp_swap: "c_memcmp b a = - c_memcmp a b"
  by (induction a b rule: c_memcmp.induct) auto

lemma memcmp_trans: "c_memcmp a b \<le> 0 \<Longrightarrow> c_memcmp b c \<le> 0 \<Longrightarrow> c_memcmp a c \<le> 0"
proof (induction a b arbitrary: c rule: c_memcmp.induct)
  case (1 x xs y ys)
  then show ?case by (cases c) (auto split: if_splits)
next
  case 2
  then show ?case by (cases c) auto
next
  case (3 y ys)
  then show ?case by (cases c) auto
next
  case (4 x xs)
  then show ?case by simp
qed

interpretation oct_order: comparator c_memcmp
proof
  show "c_memcmp x y < 0 \<longleftrightarrow> c_memcmp y x > 0" for x y using memcmp_swap [of x y] by simp
qed (rule memcmp_trans)

lemma memcmp_take:
  "c_memcmp a b =
     (let n = min (length a) (length b); r = c_memcmp (take n a) (take n b)
      in if r = 0 then (if length a < length b then - 1 else if length a > length b then 1 else r) else r)"
  by (induction a b rule: c_memcmp.induct) (auto simp: Let_def min_def split: if_splits)

lemma octstr_bytes_ok: "oct_rep s bs \<Longrightarrow> n \<le> length bs \<Longrightarrow> octstr_bytes s (int n) = Some (take n bs)"
  by (auto simp: oct_rep_def octstr_bytes_def)

lemma cmp_ok:
  assumes "oct_rep s a" and "oct_rep t b"
  shows "octstr_cmp s t = Some (c_memcmp a b)"
proof -
  define n where "n = min (length a) (length b)"
  have bytes: "octstr_bytes s (int n) = Some (take n a)" "octstr_bytes t (int n) = Some (take n b)"
    using octstr_bytes_ok [OF assms(1), of n] octstr_bytes_ok [OF assms(2), of n]
    by (simp_all add: n_def)
  have "octstr_min (int (length a)) (int (length b)) = int n" by (simp add: octstr_min_def n_def)
  then show ?thesis
    using oct_rep_len [OF assms(1)] oct_rep_len [OF assms(2)] oct_rep_bound [OF assms(1)]
      oct_rep_bound [OF assms(2)] bytes memcmp_take [of a b]
    by (simp add: octstr_cmp_def Let_def flip: n_def)
qed

lemma str_cmp_ok:
  "oct_rep s a \<Longrightarrow> length b \<le> OCT_MAX \<Longrightarrow> octstr_str_cmp junk s b = Some (c_memcmp a b)"
  using create_from_str_ok [of b junk] cmp_ok [of s a] by (auto simp: octstr_str_cmp_def)

text \<open>The comparison that ignores case stops at zeros and does not look at the length.\<close>

lemma casecmp_ok:
  assumes "oct_rep s a" and "a \<noteq> []" and "oct_rep t b" and "b \<noteq> []"
  shows "octstr_casecmp s t = Some (c_strcasecmp (nonzero a) (nonzero b))"
  using c_str_ok [OF assms(1,2), of 0] c_str_ok [OF assms(3,4), of 0] by (simp add: octstr_casecmp_def)

text \<open>After \<open>octstr_erase\<close> the old octets are still there for it.\<close>

lemma casecmp_erased:
  assumes "oct_rep s a" and "a \<noteq> []" and "0 \<notin> set a" and "1024 \<le> os_size s"
  shows "\<exists>s'. octstr_erase junk s = Some s' \<and> os_len s' = 0 \<and> octstr_str_casecmp s' a = Some 0"
proof -
  obtain r where r: "s = mk_oct a (0 # r)" "length a + Suc (length r) < 2147483648"
    using assms(1,2) by (auto simp: oct_rep_def neq_Nil_conv)
  have "octstr_new_size 0 = 1024" by (simp add: octstr_new_size_def octstr_calc_size_def)
  then have "\<not> octstr_grows s 0" using assms(4) by (simp add: octstr_grows_def)
  then have "octstr_erase junk s = Some (s\<lparr>os_len := 0\<rparr>)"
    by (simp add: octstr_erase_def octstr_str_replace_def octstr_grow_def)
  moreover have "nonzero (a @ 0 # r) = a" using assms(3) by (induction a) auto
  then have "c_str (s\<lparr>os_len := 0\<rparr>) 0 = Some a" using r(1) by (simp add: c_str_def)
  ultimately show ?thesis by (simp add: octstr_str_casecmp_def c_strcasecmp_def)
qed

end
