(* ===== verification/OctStrEdit.thy ===== *)
theory OctStrEdit
  imports OctStrSearch
begin

section \<open>Octet strings: stripping, replacing, files\<close>

text \<open>The operations whose loops run over the whole string, and the file operations.\<close>

subsection \<open>Stripping\<close>

definition strip_octets :: "u8 list \<Rightarrow> u8 list" where
  "strip_octets bs = rev (dropWhile is_strip_char (rev (dropWhile is_strip_char bs)))"

lemma rev_dropWhile_rev: "rev (dropWhile P (rev zs)) = take (length (dropWhile P (rev zs))) zs"
proof -
  have "rev (takeWhile P (rev zs) @ dropWhile P (rev zs)) = zs" by simp
  then have "rev (dropWhile P (rev zs)) @ rev (takeWhile P (rev zs)) = zs" by (simp only: rev_append)
  then show ?thesis by (metis append_eq_conv_conj length_rev)
qed

lemma rd_ok: "oct_rep s bs \<Longrightarrow> i < length bs \<Longrightarrow> octstr_rd s (int i) = Some (bs ! i)"
  by (auto simp: oct_rep_def octstr_rd_def c_read_def nth_append)

lemma strip_left_ok:
  assumes "oct_rep s bs"
  shows "i \<le> length bs \<Longrightarrow> strip_left s (int (length bs)) (int i) =
    Some (int (i + length (takeWhile is_strip_char (drop i bs))))"
proof (induction "length bs - i" arbitrary: i)
  case 0
  then show ?case by (subst strip_left.simps) simp
next
  case (Suc k)
  then have i: "i < length bs" by simp
  have "drop i bs = bs ! i # drop (Suc i) bs" using i by (rule drop_split)
  then show ?case
    using Suc.hyps(1) [of "Suc i"] Suc.hyps(2) i rd_ok [OF assms i]
    by (subst strip_left.simps) (simp add: add.commute)
qed

text \<open>The result is one less than the number of octets to keep.\<close>

lemma strip_right_ok:
  assumes "oct_rep s bs"
  shows "n \<le> length bs \<Longrightarrow> strip_right s (int n - 1) =
    Some (int (length (dropWhile is_strip_char (rev (take n bs)))) - 1)"
proof (induction n)
  case 0
  then show ?case by (subst strip_right.simps) simp
next
  case (Suc n)
  have "rev (take (Suc n) bs) = bs ! n # rev (take n bs)"
    using Suc.prems by (simp add: take_Suc_conv_app_nth)
  then show ?case
    using Suc rd_ok [OF assms, of n] by (subst strip_right.simps) simp
qed

lemma strip_ok:
  assumes "oct_rep s bs" and "length bs \<le> OCT_MAX"
  shows "\<exists>s'. octstr_strip junk s = Some s' \<and> oct_rep s' (strip_octets bs)"
proof (cases "bs = []")
  case True
  then show ?thesis
    using assms oct_rep_len [OF assms(1)] by (simp add: octstr_strip_def strip_octets_def)
next
  case False
  define p where "p = length (takeWhile is_strip_char bs)"
  define q where "q = length (dropWhile is_strip_char (rev bs))"
  have len: "to_long (os_len s) = int (length bs)" "int (length bs) < 2147483648"
    using oct_rep_len [OF assms(1)] assms(2) by (simp_all add: OCT_MAX_def)
  have l: "strip_left s (int (length bs)) 0 = Some (int p)"
    using strip_left_ok [OF assms(1), of 0] by (simp add: p_def)
  have r: "strip_right s (int (length bs) - 1) = Some (int q - 1)"
    using strip_right_ok [OF assms(1), of "length bs"] by (simp add: q_def)
  have p: "p \<le> length bs" "dropWhile is_strip_char bs = drop p bs"
    by (simp_all add: p_def length_takeWhile_le dropWhile_eq_drop)
  show ?thesis
  proof (cases "p = length bs")
    case True
    then have "dropWhile is_strip_char bs = []" using p(2) by (simp only: drop_all order_refl)
    then have "strip_octets bs = []" by (simp only: strip_octets_def rev.simps dropWhile.simps)
    then show ?thesis
      using erase_ok [OF assms(1), of junk] l len True False by (simp add: octstr_strip_def)
  next
    case F: False
    define d where "d = dropWhile is_strip_char (rev (drop p bs))"
    have "drop p bs = dropWhile is_strip_char bs" "drop p bs \<noteq> []" using p F by simp_all
    then have hd: "\<not> is_strip_char (hd (drop p bs))" "hd (drop p bs) \<in> set (rev (drop p bs))"
      by (metis hd_dropWhile, metis list.set_sel(1) set_rev)
    have "rev bs = rev (drop p bs) @ rev (take p bs)" by (metis append_take_drop_id rev_append)
    then have "dropWhile is_strip_char (rev bs) = d @ rev (take p bs)"
      using dropWhile_append1 [where P = is_strip_char, OF hd(2,1)] unfolding d_def by simp
    then have qd: "q = length d + p" using p(1) by (simp add: q_def)
    have "d \<noteq> []" using hd by (auto simp: d_def)
    have "rev d = take (length d) (drop p bs)" unfolding d_def by (rule rev_dropWhile_rev)
    moreover have "length d \<le> length (drop p bs)" unfolding d_def by (metis length_dropWhile_le length_rev)
    ultimately have q: "strip_octets bs = take (q - p) (drop p bs)" "p < q" "q \<le> length bs"
      using qd \<open>d \<noteq> []\<close> p F by (auto simp: strip_octets_def d_def)
    have "nat (int (q - p)) = q - p" by simp
    then obtain tmp where tmp: "octstr_substr junk s (int p) (int (q - p)) = Some tmp"
      "oct_rep tmp (strip_octets bs)"
      using substr_ok [OF assms, of "int p" "int (q - p)" junk] q len(2)
      unfolding sub_octets_def by auto
    have "length (strip_octets bs) \<le> OCT_MAX" using q assms(2) by simp
    then obtain s' where "octstr_replace junk s (Other tmp) = Some s'" "oct_rep s' (strip_octets bs)"
      using replace_ok [OF assms(1) tmp(2), of junk] by blast
    moreover have "to_int (int p) = int p" "to_int (int q - int p) = int (q - p)"
      using p(1) q len(2) by (simp_all add: of_nat_diff)
    ultimately show ?thesis
      using l r len False F tmp(1) by (simp add: octstr_strip_def)
  qed
qed

subsection \<open>Replacing\<close>

lemma occurs_fits: "occurs xs w i \<Longrightarrow> i + length w \<le> length xs"
proof -
  assume "occurs xs w i"
  then have "i \<le> length xs" "length (take (length w) (drop i xs)) = length w"
    by (simp_all add: occurs_def)
  then show ?thesis by simp
qed

function replace_all :: "u8 list \<Rightarrow> u8 list \<Rightarrow> u8 list \<Rightarrow> u8 list" where
  "replace_all xs w r =
     (if w = [] then xs
      else case c_strstr xs w of None \<Rightarrow> xs
        | Some i \<Rightarrow> take i xs @ r @ replace_all (drop (i + length w) xs) w r)"
  by pat_completeness auto
termination
proof (relation "measure (\<lambda>(xs, w, r). length xs)", simp, goal_cases)
  case (1 xs w r i)
  then have "occurs xs w i" using c_strstr_ok [of xs w] by simp
  from occurs_fits [OF this] 1(1) have "length xs - (i + length w) < length xs" by (cases w) simp_all
  then show ?case by simp
qed

declare replace_all.simps [simp del]

text \<open>From a position after the start, the loop replaces every occurrence.\<close>

lemma replace_loop_ok:
  assumes "oct_rep s bs" and "length bs \<le> OCT_MAX" and "0 \<notin> set bs"
    and "oct_rep t w" and "w \<noteq> []" and "0 \<notin> set w" and "oct_rep u r"
  shows "0 < pos \<Longrightarrow> pos \<le> length bs \<Longrightarrow> oct_rep s1 acc \<Longrightarrow>
    length acc + length (replace_all (drop pos bs) w r) \<le> OCT_MAX \<Longrightarrow>
    \<exists>s2 acc' pos'. replace_loop junk octstr_index s t u s1 (int pos) = Some (s2, int pos') \<and>
      oct_rep s2 acc' \<and> pos' \<le> length bs \<and>
      acc' @ drop pos' bs = acc @ replace_all (drop pos bs) w r"
proof (induction "length bs - pos" arbitrary: pos s1 acc rule: less_induct)
  case less
  have "0 \<notin> set (drop pos bs)" using assms(3) by (meson in_set_dropD)
  then have nz: "nonzero (drop pos bs) = drop pos bs" "nonzero w = w"
    using assms(6) nonzero_id by blast+
  have pos: "pos \<le> OCT_MAX" using less.prems(2) assms(2) by simp
  note idx = index_ok [OF assms(1,2) pos assms(4,5), unfolded nz]
  show ?case
  proof (cases "c_strstr (drop pos bs) w")
    case None
    then have "octstr_index s (int pos) t = Some (- 1)" using idx by simp
    moreover have "replace_all (drop pos bs) w r = drop pos bs"
      using None by (subst replace_all.simps) simp
    ultimately show ?thesis
      using less.prems by (subst replace_loop.simps) auto
  next
    case (Some i)
    have occ: "occurs (drop pos bs) w i" using c_strstr_ok [of "drop pos bs" w] Some by simp
    then have fits: "pos + i + length w \<le> length bs" "i < length (drop pos bs)"
      using occurs_fits [OF occ] assms(5) less.prems(2) by (cases w; simp)+
    have find: "octstr_index s (int pos) t = Some (int (pos + i))" using idx Some fits(2) by simp
    let ?p = "pos + i + length w"
    have all: "replace_all (drop pos bs) w r = take i (drop pos bs) @ r @ replace_all (drop ?p bs) w r"
      using Some assms(5) by (subst replace_all.simps) (simp add: add.assoc add.left_commute add.commute)
    have l: "length bs < 2147483648" using assms(2) by (simp add: OCT_MAX_def)
    obtain tmp where tmp: "octstr_substr junk s (int pos) (int i) = Some tmp"
      "oct_rep tmp (take i (drop pos bs))"
      using substr_ok [OF assms(1,2), of "int pos" "int i" junk] fits l by (auto simp: sub_octets_def)
    have b: "length acc + length (take i (drop pos bs)) + length r + length (replace_all (drop ?p bs) w r)
        \<le> OCT_MAX"
      using less.prems(4) unfolding all by simp
    obtain s2 where s2: "octstr_append junk s1 (Other tmp) = Some s2" "oct_rep s2 (acc @ take i (drop pos bs))"
      using append_ok [OF less.prems(3) tmp(2), of junk] b by auto
    obtain s3 where s3: "octstr_append junk s2 (Other u) = Some s3"
      "oct_rep s3 ((acc @ take i (drop pos bs)) @ r)"
      using append_ok [OF s2(2) assms(7), of junk] b by auto
    have "0 < length w" using assms(5) by simp
    then have "length bs - ?p < length bs - pos" using fits(1) by linarith
    moreover have "0 < ?p" "?p \<le> length bs" using less.prems(1) fits(1) by simp_all
    moreover have "length ((acc @ take i (drop pos bs)) @ r) + length (replace_all (drop ?p bs) w r) \<le> OCT_MAX"
      using b by simp
    ultimately obtain s4 acc' pos' where s4:
      "replace_loop junk octstr_index s t u s3 (int ?p) = Some (s4, int pos')" "oct_rep s4 acc'"
      "pos' \<le> length bs"
      "acc' @ drop pos' bs = ((acc @ take i (drop pos bs)) @ r) @ replace_all (drop ?p bs) w r"
      using less.hyps s3(2) by blast
    have ints: "to_int (int pos) = int pos" "to_int (int (pos + i) - int pos) = int i"
      "to_long (to_size (int (pos + i) + int (length w))) = int ?p" "0 < int (pos + i)"
      using fits l less.prems(1) by simp_all
    have "replace_loop junk octstr_index s t u s1 (int pos) = Some (s4, int pos')"
      using find tmp(1) s2(1) s3(1) s4(1) ints oct_rep_len [OF assms(4)]
      by (subst replace_loop.simps) simp
    then show ?thesis using s4 unfolding all by auto
  qed
qed

text \<open>
  The loop ends at a match at position 0, which is taken for a failure: a string that starts with the
  pattern is returned as it is.
\<close>

lemma find_and_replace_ok:
  assumes "oct_rep s bs" and "length bs \<le> OCT_MAX" and "0 \<notin> set bs"
    and "oct_rep t w" and "w \<noteq> []" and "0 \<notin> set w" and "oct_rep u r"
    and "length (replace_all bs w r) \<le> OCT_MAX"
  shows "\<exists>s'. octstr_find_and_replace junk s t u = Some s' \<and>
    oct_rep s' (if occurs bs w 0 then bs else replace_all bs w r)"
proof -
  obtain s0 where s0: "octstr_create junk NoSrc 0 = Some s0" "oct_rep s0 []"
    using create_empty [of junk] by blast
  have l: "length bs < 2147483648" using assms(2) by (simp add: OCT_MAX_def)
  have nz: "nonzero bs = bs" "nonzero w = w" using assms(3,6) nonzero_id by blast+
  have idx: "octstr_index s 0 t = Some (case c_strstr bs w of Some i \<Rightarrow> int i | None \<Rightarrow> - 1)"
    using index_ok [OF assms(1,2) _ assms(4,5), of 0] nz assms(5)
    by (cases "bs = []") (auto split: option.split)
  have "\<exists>s2 acc pos. replace_loop junk octstr_index s t u s0 0 = Some (s2, int pos) \<and>
      oct_rep s2 acc \<and> pos \<le> length bs \<and>
      acc @ drop pos bs = (if occurs bs w 0 then bs else replace_all bs w r)"
  proof (cases "c_strstr bs w")
    case None
    then have "replace_all bs w r = bs" "\<not> occurs bs w 0"
      using c_strstr_ok [of bs w] by (subst replace_all.simps, simp_all)
    then show ?thesis
      using None idx s0(2) by (subst replace_loop.simps) auto
  next
    case (Some i)
    note occ = c_strstr_ok [of bs w, unfolded Some option.case]
    show ?thesis
    proof (cases "i = 0")
      case True
      then show ?thesis
        using Some idx s0(2) occ by (subst replace_loop.simps) auto
    next
      case False
      have fits: "i + length w \<le> length bs" "0 < length w" using occ occurs_fits assms(5) by auto
      let ?p = "i + length w"
      have all: "replace_all bs w r = take i bs @ r @ replace_all (drop ?p bs) w r"
        using Some assms(5) by (subst replace_all.simps) simp
      have b: "length (take i bs) + length r + length (replace_all (drop ?p bs) w r) \<le> OCT_MAX"
        using assms(8) unfolding all by simp
      obtain tmp where tmp: "octstr_substr junk s 0 (int i) = Some tmp" "oct_rep tmp (take i bs)"
        using substr_ok [OF assms(1,2), of 0 "int i" junk] fits l by (auto simp: sub_octets_def)
      obtain s1 where s1: "octstr_append junk s0 (Other tmp) = Some s1" "oct_rep s1 (take i bs)"
        using append_ok [OF s0(2) tmp(2), of junk] b by auto
      obtain s2 where s2: "octstr_append junk s1 (Other u) = Some s2" "oct_rep s2 (take i bs @ r)"
        using append_ok [OF s1(2) assms(7), of junk] b by auto
      have "0 < ?p" "?p \<le> length bs"
        "length (take i bs @ r) + length (replace_all (drop ?p bs) w r) \<le> OCT_MAX"
        using False fits b by simp_all
      then obtain s3 acc pos where s3:
        "replace_loop junk octstr_index s t u s2 (int ?p) = Some (s3, int pos)" "oct_rep s3 acc"
        "pos \<le> length bs" "acc @ drop pos bs = (take i bs @ r) @ replace_all (drop ?p bs) w r"
        using replace_loop_ok [OF assms(1-7), of ?p s2] s2(2) by blast
      have ints: "to_int 0 = 0" "to_int (int i) = int i" "to_long (to_size (int i + int (length w))) = int ?p"
        using fits l by simp_all
      have "replace_loop junk octstr_index s t u s0 0 = Some (s3, int pos)"
        using idx Some False tmp(1) s1(1) s2(1) s3(1) ints oct_rep_len [OF assms(4)]
        by (subst replace_loop.simps) simp
      moreover have "\<not> occurs bs w 0" using occ False by blast
      ultimately show ?thesis using s3(2-4) all by auto
    qed
  qed
  then obtain s2 acc pos where loop: "replace_loop junk octstr_index s t u s0 0 = Some (s2, int pos)"
    "oct_rep s2 acc" "pos \<le> length bs"
    "acc @ drop pos bs = (if occurs bs w 0 then bs else replace_all bs w r)" by blast
  have "to_int (int pos) = int pos"
    "to_int (to_size (int (length bs) - to_size (int pos))) = int (length bs - pos)"
    using loop(3) l by (simp_all add: of_nat_diff)
  moreover have "sub_octets bs (int pos) (int (length bs - pos)) = drop pos bs"
    using loop(3) by (simp add: sub_octets_def)
  then obtain tmp where "octstr_substr junk s (int pos) (int (length bs - pos)) = Some tmp"
    "oct_rep tmp (drop pos bs)"
    using substr_ok [OF assms(1,2), of "int pos" "int (length bs - pos)" junk] loop(3) l by auto
  moreover have "length acc + length (drop pos bs) \<le> OCT_MAX"
    using loop(4) assms(2,8) by (metis length_append)
  then obtain s' where "octstr_append junk s2 (Other tmp) = Some s'" "oct_rep s' (acc @ drop pos bs)"
    using append_ok [OF loop(2) \<open>oct_rep tmp (drop pos bs)\<close>, of junk] by auto
  ultimately show ?thesis
    using s0(1) loop(1,4) oct_rep_len [OF assms(1)]
    by (simp add: octstr_find_and_replace_def octstr_find_and_replace1_def)
qed

subsection \<open>Files and formatting\<close>

lemma load_loop_ok:
  "oct_rep s bs \<Longrightarrow> length bs + length (concat cs) \<le> OCT_MAX \<Longrightarrow>
   \<forall>c \<in> set cs. c \<noteq> [] \<and> length c \<le> 1024000 \<Longrightarrow>
   \<exists>s'. load_loop junk s (map ReadBytes cs @ [ReadBytes []]) = Some (Some s') \<and> oct_rep s' (bs @ concat cs)"
proof (induction cs arbitrary: s bs)
  case Nil
  then show ?case by simp
next
  case (Cons c cs)
  obtain s1 where s1: "octstr_str_append junk s (Ext c) (int (length c)) = Some s1" "oct_rep s1 (bs @ c)"
    using str_append_ok [OF Cons.prems(1), of "length c" c junk] Cons.prems(2) by auto
  have "length (bs @ c) + length (concat cs) \<le> OCT_MAX" using Cons.prems(2) by simp
  then show ?case
    using Cons.IH [OF s1(2)] s1(1) Cons.prems(3) by auto
qed

text \<open>
  All of the content arrives in the file, in however many pieces it is written; behind it is what the
  file held there before. If \<open>write\<close> fails, what was written so far is in the file.
\<close>

lemma save_loop_step:
  assumes "oct_rep s bs" and "k + n \<le> length bs" and "0 < n"
  shows "save_loop s (int k) (int n # ns) (take k bs @ drop k old) =
    save_loop s (int (k + n)) ns (take (k + n) bs @ drop (k + n) old)"
proof -
  obtain rest where s: "s = mk_oct bs rest" "length bs + length rest < 2147483648"
    using assms(1) by (rule oct_repE)
  have "file_write (take k bs @ drop k old) k (take n (drop k (bs @ rest))) =
      take (k + n) bs @ drop (k + n) old"
    using assms(2) by (simp add: file_write_def take_add add.commute)
  then show ?thesis
    using assms(2,3) s by (subst save_loop.simps) simp
qed

lemma save_loop_ok:
  assumes "oct_rep s bs"
  shows "k + sum_list ns = length bs \<Longrightarrow> \<forall>n \<in> set ns. 0 < n \<Longrightarrow>
    save_loop s (int k) (map int ns) (take k bs @ drop k old) =
      Some (int (length bs), bs @ drop (length bs) old)"
proof (induction ns arbitrary: k)
  case Nil
  then show ?case
    using oct_rep_len [OF assms] oct_rep_bound [OF assms] by (subst save_loop.simps) simp
next
  case (Cons n ns)
  then show ?case using save_loop_step [OF assms, of k n] Cons.IH [of "k + n"] by simp
qed

lemma save_loop_error:
  assumes "oct_rep s bs"
  shows "k + sum_list ns < length bs \<Longrightarrow> \<forall>n \<in> set ns. 0 < n \<Longrightarrow>
    save_loop s (int k) (map int ns @ - 1 # ws) (take k bs @ drop k old) =
      Some (- 1, take (k + sum_list ns) bs @ drop (k + sum_list ns) old)"
proof (induction ns arbitrary: k)
  case Nil
  then show ?case
    using oct_rep_len [OF assms] oct_rep_bound [OF assms] by (subst save_loop.simps) simp
next
  case (Cons n ns)
  then show ?case
    using save_loop_step [OF assms, of k n] Cons.IH [of "k + n"] by (simp add: add.assoc)
qed

lemma vsnprintf_ok:
  assumes "rest \<noteq> []" and "length out \<le> OCT_MAX" and "length rest < 2147483648"
  obtains rest' where "c_vsnprintf out (mk_oct [] rest) = Some (int (length out), mk_oct [] rest')"
    "length rest' = length rest"
    "length out < length rest \<Longrightarrow> rest' = out @ 0 # drop (Suc (length out)) rest"
proof -
  let ?w = "take (length rest - 1) out @ [0 :: u8]"
  have w: "length ?w \<le> length rest" using assms(1) by (cases rest) (simp_all add: min_def)
  have "nat (int (length rest)) - 1 = length rest - 1" by simp
  moreover have "0 < int (length rest)" using assms(1) by simp
  ultimately have "c_vsnprintf out (mk_oct [] rest) =
      Some (int (length out), mk_oct [] (?w @ drop (length ?w) rest))"
    using w assms(2) by (simp add: c_vsnprintf_def octstr_put_def mk_oct_def OCT_MAX_def)
  moreover have "length (?w @ drop (length ?w) rest) = length rest" using w by simp
  moreover have "?w @ drop (length ?w) rest = out @ 0 # drop (Suc (length out)) rest"
    if "length out < length rest" using that by simp
  ultimately show thesis by (rule that)
qed

lemma sprintf_ok:
  assumes "length out < OCT_MAX" and "length f \<le> OCT_MAX"
  shows "\<exists>s. octstr_sprintf junk (Some f) out = Some s \<and> oct_rep s out"
proof -
  have n: "int (length out) < 2147483648" "0 \<le> int (length out) + 1" "int (length out) + 1 \<le> 2147481600"
    "0 \<le> int (length f)" "int (length f) \<le> 2147481600"
    using assms by (simp_all add: OCT_MAX_def)
  have out: "length out \<le> OCT_MAX" using assms(1) by simp
  obtain s0 where s0: "octstr_create_from_str junk [] = Some s0" "oct_rep s0 []"
    using create_from_str_ok [of "[]" junk] by auto
  obtain r0 where r0: "s0 = mk_oct [] r0" "length ([] :: u8 list) + length r0 < 2147483648"
    using s0(2) by (rule oct_repE)
  obtain r1 where r1: "octstr_grow junk s0 (int (length f)) = mk_oct [] r1" "r1 \<noteq> []" "length r1 < 2147483648"
    using grow_ok [OF r0(2) n(4,5), of junk thesis] r0(1) by fastforce
  obtain r2 where r2: "c_vsnprintf out (mk_oct [] r1) = Some (int (length out), mk_oct [] r2)"
    "length r2 = length r1" "length out < length r1 \<Longrightarrow> r2 = out @ 0 # drop (Suc (length out)) r1"
    using vsnprintf_ok [OF r1(2) out r1(3)] by blast
  have "\<exists>r. sprintf_loop junk out (mk_oct [] r2) (int (length out)) =
      Some (int (length out), mk_oct [] (out @ 0 # r)) \<and> length out + Suc (length r) < 2147483648"
  proof (cases "length out < length r1")
    case True
    then show ?thesis
      using r2(2,3) r1(3) n(1) by (subst sprintf_loop.simps) auto
  next
    case False
    have l2: "length ([] :: u8 list) + length r2 < 2147483648" using r1(3) r2(2) by simp
    obtain r3 where r3: "octstr_grow junk (mk_oct [] r2) (int (length out) + 1) = mk_oct [] r3"
      "int (length out) + 1 < int (length r3)" "length r3 < 2147483648"
      using grow_ok [OF l2 n(2,3), of junk thesis] by fastforce
    then have "r3 \<noteq> []" by auto
    obtain r4 where r4: "c_vsnprintf out (mk_oct [] r3) = Some (int (length out), mk_oct [] r4)"
      "length r4 = length r3" "length out < length r3 \<Longrightarrow> r4 = out @ 0 # drop (Suc (length out)) r3"
      using vsnprintf_ok [OF \<open>r3 \<noteq> []\<close> out r3(3)] by blast
    have lt: "length out < length r3" using r3(2) by simp
    have "sprintf_loop junk out (mk_oct [] r4) (int (length out)) = Some (int (length out), mk_oct [] r4)"
      using lt r4(2) n(1) by (subst sprintf_loop.simps) simp
    moreover have "c_int (int (length out) + 1) = Some (int (length out) + 1)"
      "to_size (int (length out)) = int (length out)" "to_size (int (length out) + 1) = int (length out) + 1"
      using n by simp_all
    ultimately have "sprintf_loop junk out (mk_oct [] r2) (int (length out)) =
        Some (int (length out), mk_oct [] r4)"
      using False r2(2) r3(1) r4(1) by (subst sprintf_loop.simps) simp
    then show ?thesis
      using r4(3) [OF lt] r3(3) lt by (intro exI [of _ "drop (Suc (length out)) r3"]) simp
  qed
  then obtain r where r: "sprintf_loop junk out (mk_oct [] r2) (int (length out)) =
      Some (int (length out), mk_oct [] (out @ 0 # r))" "length out + Suc (length r) < 2147483648"
    by blast
  have "(mk_oct [] (out @ 0 # r))\<lparr>os_len := int (length out)\<rparr> = mk_oct out (0 # r)"
    by (simp add: mk_oct_def)
  then have "octstr_sprintf junk (Some f) out = Some (mk_oct out (0 # r))"
    using s0(1) r1(1) r2(1) r(1) n(1) by (simp add: octstr_sprintf_def)
  moreover have "oct_rep (mk_oct out (0 # r)) out" by (rule oct_repI) (use r(2) in simp_all)
  ultimately show ?thesis by blast
qed

end
