(* ===== verification/OctStrProps.thy ===== *)
theory OctStrProps
  imports OctStrEdit
begin

section \<open>Octet strings: properties\<close>

text \<open>
  The refinement of a string by the list of its octets over runs of operations, the properties of the
  single operations, and the inputs on which the code does not do what it means to.
\<close>

subsection \<open>Runs of operations\<close>

datatype oct_op =
  OAppend "u8 list" | OAppendOct u32 | OReplace "u8 list" | OErase | ODelete nat nat
| OSub nat nat | OFill int nat nat | OStrip

text \<open>
  The operation on the octets, and the range of the arguments in which it is that operation: the end
  \<open>pos + n\<close> of a deletion or substring is computed as an \<open>int\<close> and must not overflow, and a fill must
  start within the string or at its end. A fill that starts behind the end leaves a gap of octets
  that nobody wrote, so it is no function of the octets; it is treated apart.
\<close>

fun bytes_step :: "oct_op \<Rightarrow> u8 list \<Rightarrow> u8 list" where
  "bytes_step (OAppend cs) bs = bs @ cs"
| "bytes_step (OAppendOct x) bs = bs @ [ucast x]"
| "bytes_step (OReplace cs) bs = cs"
| "bytes_step OErase bs = []"
| "bytes_step (ODelete pos n) bs = take pos bs @ drop (pos + n) bs"
| "bytes_step (OSub pos n) bs = take n (drop pos bs)"
| "bytes_step (OFill c pos n) bs =
     (if pos + n = 0 then bs else fill_octets bs pos (replicate n (word_of_int c)))"
| "bytes_step OStrip bs = strip_octets bs"

fun op_in_range :: "oct_op \<Rightarrow> u8 list \<Rightarrow> bool" where
  "op_in_range (ODelete pos n) bs \<longleftrightarrow> pos + n < 2 ^ 31"
| "op_in_range (OSub pos n) bs \<longleftrightarrow> pos + n < 2 ^ 31"
| "op_in_range (OFill c pos n) bs \<longleftrightarrow> pos \<le> length bs"
| "op_in_range _ bs \<longleftrightarrow> True"

fun bytes_run :: "oct_op list \<Rightarrow> u8 list \<Rightarrow> u8 list" where
  "bytes_run [] bs = bs"
| "bytes_run (a # as) bs = bytes_run as (bytes_step a bs)"

fun run_in_range :: "oct_op list \<Rightarrow> u8 list \<Rightarrow> bool" where
  "run_in_range [] bs \<longleftrightarrow> length bs \<le> OCT_MAX"
| "run_in_range (a # as) bs \<longleftrightarrow>
     length bs \<le> OCT_MAX \<and> op_in_range a bs \<and> run_in_range as (bytes_step a bs)"

fun oct_step :: "(nat \<Rightarrow> u8) \<Rightarrow> octstr \<Rightarrow> oct_op \<Rightarrow> octstr option" where
  "oct_step junk s (OAppend cs) = octstr_str_append junk s (Ext cs) (int (length cs))"
| "oct_step junk s (OAppendOct x) = octstr_append_oct junk s x"
| "oct_step junk s (OReplace cs) = octstr_str_replace junk s (Ext cs) (int (length cs))"
| "oct_step junk s OErase = octstr_erase junk s"
| "oct_step junk s (ODelete pos n) = octstr_delete junk s (int pos) (int n)"
| "oct_step junk s (OSub pos n) = octstr_substr junk s (int pos) (int n)"
| "oct_step junk s (OFill c pos n) = octstr_fill junk s c (int pos) (int n)"
| "oct_step junk s OStrip = octstr_strip junk s"

text \<open>Every allocation may find other garbage: \<open>junks k\<close> is the fresh memory of the \<open>k\<close>-th step.\<close>

fun oct_run :: "(nat \<Rightarrow> nat \<Rightarrow> u8) \<Rightarrow> octstr \<Rightarrow> oct_op list \<Rightarrow> octstr option" where
  "oct_run junks s [] = Some s"
| "oct_run junks s (a # as) = do { s \<leftarrow> oct_step (junks 0) s a; oct_run (\<lambda>k. junks (Suc k)) s as }"

lemma run_in_range_len: "run_in_range as bs \<Longrightarrow> length bs \<le> OCT_MAX"
  by (cases as) auto

lemma oct_step_ok:
  assumes "oct_rep s bs" and "length bs \<le> OCT_MAX" and "op_in_range a bs"
    and "length (bytes_step a bs) \<le> OCT_MAX"
  shows "\<exists>s'. oct_step junk s a = Some s' \<and> oct_rep s' (bytes_step a bs)"
proof (cases a)
  case (OAppend cs)
  then show ?thesis using str_append_ok [OF assms(1), of "length cs" cs junk] assms(4) by simp
next
  case (OAppendOct x)
  then show ?thesis using append_oct_ok [OF assms(1), of junk x] assms(4) by simp
next
  case (OReplace cs)
  then show ?thesis using str_replace_ok [of s bs "length cs" cs junk] assms(1,4) by simp
next
  case OErase
  then show ?thesis using erase_ok [OF assms(1), of junk] by simp
next
  case (ODelete pos n)
  then show ?thesis
    using delete_ok [OF assms(1,2), of "int pos" "int n" junk] assms(3) by (simp add: nat_add_distrib)
next
  case (OSub pos n)
  then show ?thesis
    using substr_ok [OF assms(1,2), of "int pos" "int n" junk] assms(3) by (simp add: sub_octets_def)
next
  case (OFill c pos n)
  show ?thesis
  proof (cases "pos + n = 0")
    case True
    then show ?thesis using OFill assms(1) by (simp add: octstr_fill_def)
  next
    case False
    then have "pos + n \<le> OCT_MAX"
      using OFill assms(3,4) by (auto simp: fill_octets_def min_def split: if_splits)
    then show ?thesis using fill_ok [OF assms(1), of pos n junk c] assms(3) OFill False by auto
  qed
next
  case OStrip
  then show ?thesis using strip_ok [OF assms(1,2), of junk] by simp
qed

lemma oct_run_ok:
  "oct_rep s bs \<Longrightarrow> run_in_range as bs \<Longrightarrow>
   \<exists>s'. oct_run junks s as = Some s' \<and> oct_rep s' (bytes_run as bs)"
proof (induction as arbitrary: s bs junks)
  case Nil
  then show ?case by simp
next
  case (Cons a as)
  obtain s1 where "oct_step (junks 0) s a = Some s1" "oct_rep s1 (bytes_step a bs)"
    using oct_step_ok [of s bs a "junks 0"] Cons.prems run_in_range_len [of as "bytes_step a bs"] by auto
  then show ?case using Cons.IH Cons.prems(2) by auto
qed

text \<open>
  C11: Refinement. A string made from any bytes and put through any run of appends, replacements,
  erasures, deletions and substrings (with \<open>pos + n\<close> below 2 to the 31), strips, and fills that start
  within the string or at its end, stays well formed (its buffer has room for the zero behind the
  octets, which is there unless the string is empty) and holds the octets that the operations on
  lists give, whatever the fresh memory contained, as long as lengths stay below 2 to the 31 minus
  2048. A fill that starts behind the end of the string is defined as well and puts a gap of
  \<open>pos - length\<close> octets before the filled ones; what they are is not determined by the operations, as
  \<open>octstr_fill\<close> does not set them.
\<close>

theorem octstr_refines_bytes:
  assumes "run_in_range ops bs"
  shows "\<exists>s s'. octstr_create junk (Ext bs) (int (length bs)) = Some s \<and> oct_run junks s ops = Some s' \<and>
    oct_rep s' (bytes_run ops bs) \<and>
    (\<forall>c pos n. length (bytes_run ops bs) < pos \<longrightarrow> pos + n \<le> OCT_MAX \<longrightarrow>
       (\<exists>s'' gap. octstr_fill junk' s' c (int pos) (int n) = Some s'' \<and>
          length gap = pos - length (bytes_run ops bs) \<and>
          oct_rep s'' (bytes_run ops bs @ gap @ replicate n (word_of_int c))))"
proof -
  obtain s where s: "octstr_create junk (Ext bs) (int (length bs)) = Some s" "oct_rep s bs"
    using create_ok [of "length bs" bs junk] run_in_range_len [OF assms] by auto
  obtain s' where s': "oct_run junks s ops = Some s'" "oct_rep s' (bytes_run ops bs)"
    using oct_run_ok [OF s(2) assms] by blast
  have "\<exists>s'' gap. octstr_fill junk' s' c (int pos) (int n) = Some s'' \<and>
      length gap = pos - length (bytes_run ops bs) \<and>
      oct_rep s'' (bytes_run ops bs @ gap @ replicate n (word_of_int c))"
    if "length (bytes_run ops bs) < pos" "pos + n \<le> OCT_MAX" for c pos n
    using fill_any [OF s'(2) _ that(2), of junk' c] that(1) by (auto simp: fill_octets_def)
  with s s' show ?thesis by blast
qed

theorem octstr_refines_bytes_witness:
  "\<exists>s s'. octstr_create (\<lambda>_. 7) (Ext [0x20, 0x61, 0x62]) 3 = Some s \<and>
     oct_run (\<lambda>_ _. 9) s [OAppend [0x63, 0x64], ODelete 1 2, OFill 0x78 3 2, OStrip] = Some s' \<and>
     oct_rep s' [0x63, 0x64, 0x78, 0x78]"
proof -
  have steps: "bytes_step (ODelete 1 2) [0x20, 0x61, 0x62, 0x63, 0x64] = [0x20, 0x63, 0x64]"
    "bytes_step (OFill 0x78 3 2) [0x20, 0x63, 0x64] = [0x20, 0x63, 0x64, 0x78, 0x78]"
    "bytes_step OStrip [0x20, 0x63, 0x64, 0x78, 0x78] = [0x63, 0x64, 0x78, 0x78]"
    by code_simp+
  have "run_in_range [OAppend [0x63, 0x64], ODelete 1 2, OFill 0x78 3 2, OStrip] [0x20, 0x61, 0x62]"
    using steps by (simp add: OCT_MAX_def del: bytes_step.simps(5-8))
  moreover have "bytes_run [OAppend [0x63, 0x64], ODelete 1 2, OFill 0x78 3 2, OStrip] [0x20, 0x61, 0x62] =
      [0x63, 0x64, 0x78, 0x78]"
    using steps by (simp del: bytes_step.simps(5-8))
  ultimately show ?thesis
    using octstr_refines_bytes [of "[OAppend [0x63, 0x64], ODelete 1 2, OFill 0x78 3 2, OStrip]"
        "[0x20, 0x61, 0x62]" "\<lambda>_. 7" "\<lambda>_ _. 9" "\<lambda>_. 8"] by (simp, blast)
qed

subsection \<open>Searching, comparing, replacing\<close>

lemma mk_oct_rep: "length bs < 1000 \<Longrightarrow> oct_rep (mk_oct bs [0]) bs"
  by (rule oct_repI) auto

text \<open>
  C12: On octets without zeros, \<open>octstr_index\<close> returns the first position at or after \<open>pos\<close> at which
  the non-empty pattern occurs, and -1 exactly if there is none.
\<close>

theorem octstr_index_exact:
  assumes "oct_rep s bs" and "length bs \<le> OCT_MAX" and "pos \<le> OCT_MAX" and "0 \<notin> set bs"
    and "oct_rep t w" and "w \<noteq> []" and "0 \<notin> set w"
  shows "\<exists>r. octstr_index s (int pos) t = Some r \<and>
    (if r = - 1 then \<forall>j \<ge> pos. \<not> occurs bs w j
     else \<exists>i. r = int i \<and> pos \<le> i \<and> occurs bs w i \<and> (\<forall>j. pos \<le> j \<and> j < i \<longrightarrow> \<not> occurs bs w j))"
  by (rule index_first [OF assms])

theorem octstr_index_exact_witness:
  "octstr_index (mk_oct [1, 2, 3] [0]) 0 (mk_oct [4] [0]) = Some (- 1)"
proof -
  obtain r where r: "octstr_index (mk_oct [1, 2, 3] [0]) 0 (mk_oct [4] [0]) = Some r"
    "r \<noteq> - 1 \<Longrightarrow> \<exists>i. occurs [1, 2, 3] [4] i"
    using octstr_index_exact [of "mk_oct [1, 2, 3] [0]" "[1, 2, 3]" 0 "mk_oct [4] [0]" "[4]"]
      mk_oct_rep [of "[1, 2, 3]"] mk_oct_rep [of "[4]"] by (auto simp: OCT_MAX_def split: if_splits)
  have "\<not> occurs [1, 2, 3] [4] i" for i
    by (cases "i \<in> {0, 1, 2, 3}") (auto simp: occurs_def)
  then show ?thesis using r by blast
qed

text \<open>
  C13: \<open>octstr_cmp\<close> is the lexicographic order of the octets as unsigned bytes, zeros included: the
  result is negative exactly if the first string is smaller at the first difference or a proper
  prefix of the second, positive exactly in the opposite case and 0 exactly for equal octets. Hence
  it changes sign when the arguments are swapped and is transitive, so octet strings can be the keys
  of the tree and the items of the heap.
\<close>

theorem octstr_cmp_total_order:
  assumes "oct_rep s a" and "oct_rep t b" and "oct_rep u c"
  shows "\<exists>st ts tu su. octstr_cmp s t = Some st \<and> octstr_cmp t s = Some ts \<and>
    octstr_cmp t u = Some tu \<and> octstr_cmp s u = Some su \<and>
    (st < 0 \<longleftrightarrow> (map unat a, map unat b) \<in> lexord {(x, y). x < y}) \<and>
    (st > 0 \<longleftrightarrow> (map unat b, map unat a) \<in> lexord {(x, y). x < y}) \<and>
    (st = 0 \<longleftrightarrow> a = b) \<and> (st < 0 \<longleftrightarrow> ts > 0) \<and> (st \<le> 0 \<longrightarrow> tu \<le> 0 \<longrightarrow> su \<le> 0) \<and>
    (\<forall>d. b = a @ d \<longrightarrow> st \<le> 0)"
proof -
  have "c_memcmp a (a @ d) \<le> 0" for d by (induction a) (cases d; simp)+
  moreover have "c_memcmp a b > 0 \<longleftrightarrow> c_memcmp b a < 0"
    using memcmp_swap [of a b] by linarith
  ultimately show ?thesis
    using cmp_ok [OF assms(1,2)] cmp_ok [OF assms(2,1)] cmp_ok [OF assms(2,3)] cmp_ok [OF assms(1,3)]
      memcmp_eq [of a b] oct_order.cmp_swap [of a b] oct_order.cmp_trans [of a b c]
      memcmp_lex [of a b] memcmp_lex [of b a]
    by auto
qed

text \<open>A longer string can be the smaller one, and octets from 128 on are not negative.\<close>

theorem octstr_cmp_total_order_witness:
  "(\<exists>r. octstr_cmp (mk_oct [1, 0, 2] [0]) (mk_oct [1, 255] [0]) = Some r \<and> r < 0) \<and>
   (\<exists>r. octstr_cmp (mk_oct [1, 0] [0]) (mk_oct [1, 0, 2] [0]) = Some r \<and> r < 0)"
proof -
  have rep: "oct_rep (mk_oct [1, 0, 2] [0]) [1, 0, 2]" "oct_rep (mk_oct [1, 255] [0]) [1, 255]"
    "oct_rep (mk_oct [1, 0] [0]) [1, 0]"
    by (rule mk_oct_rep; simp)+
  show ?thesis
    using octstr_cmp_total_order [OF rep(1,2,2)] octstr_cmp_total_order [OF rep(3,1,1)] by auto
qed

text \<open>
  C14: For a string and a non-empty pattern without zero octets (the search is \<open>strstr\<close>, which stops
  at the first zero) and a result below the length bound, \<open>octstr_find_and_replace\<close> ends and returns
  a new string in which every occurrence of the pattern is replaced, from left to right and without
  overlaps, unless the string starts with the pattern: then it returns an unchanged copy, because
  position 0 is taken for a failed search. The replacement may be any octets.
\<close>

theorem octstr_replace_exact:
  assumes "oct_rep s bs" and "length bs \<le> OCT_MAX" and "0 \<notin> set bs"
    and "oct_rep t w" and "w \<noteq> []" and "0 \<notin> set w" and "oct_rep u r"
    and "length (replace_all bs w r) \<le> OCT_MAX"
  shows "\<exists>s'. octstr_find_and_replace junk s t u = Some s' \<and>
    oct_rep s' (if occurs bs w 0 then bs else replace_all bs w r)"
  by (rule find_and_replace_ok [OF assms])

theorem octstr_replace_exact_witness:
  "(\<exists>s'. octstr_find_and_replace (\<lambda>_. 7) (mk_oct [2, 1, 3, 1] [0]) (mk_oct [1] [0]) (mk_oct [5, 5] [0]) = Some s' \<and>
      oct_rep s' [2, 5, 5, 3, 5, 5]) \<and>
   (\<exists>s'. octstr_find_and_replace (\<lambda>_. 7) (mk_oct [1, 3, 1] [0]) (mk_oct [1] [0]) (mk_oct [5, 5] [0]) = Some s' \<and>
      oct_rep s' [1, 3, 1])"
proof -
  have all: "replace_all [2, 1, 3, 1] [1] [5, 5] = [2, 5, 5, 3, 5, 5]"
    "replace_all [1, 3, 1] [1] [5, 5] = [5, 5, 3, 5, 5]"
    "occurs [1, 3, 1] [1] 0" "\<not> occurs [2, 1, 3, 1] [1] 0"
    by (simp_all add: replace_all.simps occurs_def eval_nat_numeral)
  show ?thesis
    using octstr_replace_exact [of "mk_oct [2, 1, 3, 1] [0]" "[2, 1, 3, 1]" "mk_oct [1] [0]" "[1]"
        "mk_oct [5, 5] [0]" "[5, 5]" "\<lambda>_. 7"]
      octstr_replace_exact [of "mk_oct [1, 3, 1] [0]" "[1, 3, 1]" "mk_oct [1] [0]" "[1]"
        "mk_oct [5, 5] [0]" "[5, 5]" "\<lambda>_. 7"]
      mk_oct_rep [of "[2, 1, 3, 1]"] mk_oct_rep [of "[1]"] mk_oct_rep [of "[5, 5]"]
      mk_oct_rep [of "[1, 3, 1]"] all
    by (simp add: OCT_MAX_def)
qed

subsection \<open>Encodings\<close>

text \<open>
  C15: For a field of 1 to 30 bits anywhere, also beyond the end of the string, and a value of any
  size, \<open>octstr_set_bits\<close> is defined, lengthens the string to the last byte of the field if it is
  shorter, and \<open>octstr_get_bits\<close> reads back the low \<open>n\<close> bits of the value. Every other bit the string
  had is kept, except that a value too large for a field inside one byte spills into the bits in
  front of the field in that byte; nothing spills if the value fits or the field spans two bytes.
\<close>

theorem octstr_bits_roundtrip:
  assumes "oct_rep s bs" and "length bs \<le> OCT_MAX" and "n \<le> 30" and "0 < n" and "pos + n \<le> 8 * OCT_MAX"
  shows "(\<exists>s' bs'. octstr_set_bits junk s (int pos) (int n) v = Some s' \<and> oct_rep s' bs' \<and>
      octstr_get_bits s' (int pos) (int n) = Some (ucast (take_bit n v)) \<and>
      length bs' = max (length bs) ((pos + n + 7) div 8) \<and>
      (\<forall>i < 8 * length bs. \<not> (pos \<le> i \<and> i < pos + n) \<longrightarrow>
         (bit_at bs' i \<longleftrightarrow> bit_at bs i \<or> spill pos n v i))) \<and>
    (unat v < 2 ^ n \<or> 8 < pos mod 8 + n \<longrightarrow> (\<forall>i. \<not> spill pos n v i))"
  using set_get_bits_ok [OF assms] no_spill by blast

theorem octstr_bits_roundtrip_witness:
  "(\<exists>s' bs'. octstr_set_bits (\<lambda>_. 0xaa) (mk_oct [0xff] [0]) 20 10 0x155 = Some s' \<and> oct_rep s' bs' \<and>
     octstr_get_bits s' 20 10 = Some 0x155 \<and> length bs' = 4) \<and>
   (\<exists>s'. octstr_set_bits (\<lambda>_. 0xaa) (mk_oct [0xff] [0]) 4 2 0xf = Some s' \<and>
     octstr_get_bits s' 4 2 = Some 3)"
proof -
  have "(ucast (take_bit 2 (0xf :: u64)) :: u32) = 3" "(ucast (take_bit 10 (0x155 :: u64)) :: u32) = 0x155"
    by code_simp+
  then show ?thesis
    using octstr_bits_roundtrip [of "mk_oct [0xff] [0]" "[0xff]" 10 20 "\<lambda>_. 0xaa" "0x155"]
      octstr_bits_roundtrip [of "mk_oct [0xff] [0]" "[0xff]" 2 4 "\<lambda>_. 0xaa" "0xf"]
      mk_oct_rep [of "[0xff]"] by (fastforce simp: OCT_MAX_def)
qed

text \<open>
  A number appended by \<open>octstr_append_uintvar\<close> is read back at its place by
  \<open>octstr_unpack_uintvar\<close>, which returns the position behind it, for any local buffer content and
  for numbers below 2 to the 35.
\<close>

theorem octstr_uintvar_roundtrip:
  assumes "oct_rep s bs" and "length tmp = 5" and "length bs + 5 \<le> OCT_MAX" and "unat v < 2 ^ 35"
  shows "\<exists>n s' bs'. octstr_append_uintvar junk tmp s v = Some (int n, s') \<and> 1 \<le> n \<and> n \<le> 5 \<and>
    oct_rep s' (bs @ bs') \<and> length bs' = n \<and>
    octstr_unpack_uintvar s' (int (length bs)) = Some (int (length bs + n), Some v)"
proof -
  obtain s' where s': "octstr_append_uintvar junk tmp s v = Some (int (uv_len v), s')"
    "oct_rep s' (bs @ uv_encode v)"
    using append_uintvar_ok [OF assms(1-3), of junk v] by blast
  have "take_bit 35 v = v"
    using assms(4) by (simp add: word_unat_eq_iff unsigned_take_bit_eq take_bit_nat_eq_self)
  then have "octstr_unpack_uintvar s' (int (length bs)) = Some (int (length bs + uv_len v), Some v)"
    using unpack_uintvar_ok [of s' bs v "[]"] s'(2) assms(3) by simp
  then show ?thesis using s' uv_len_bounds [of v] by (intro exI [of _ "uv_len v"] exI) auto
qed

theorem octstr_uintvar_roundtrip_witness:
  "\<exists>n s'. octstr_append_uintvar (\<lambda>_. 0) [9, 9, 9, 9, 9] (mk_oct [7, 7] [0]) 300 = Some (int n, s') \<and>
     octstr_unpack_uintvar s' 2 = Some (int (2 + n), Some 300)"
  using octstr_uintvar_roundtrip [of "mk_oct [7, 7] [0]" "[7, 7]" "[9, 9, 9, 9, 9]" 300 "\<lambda>_. 0"]
    mk_oct_rep [of "[7, 7]"] by (fastforce simp: OCT_MAX_def)

text \<open>
  C16: \<open>octstr_append_htonl\<close> without the flag for the shortest form appends the four bytes of the value
  in network order, but returns 5. \<open>octstr_unpack_ntohl\<close> refuses to read them back while they are
  the end of the string, and reads them, on hosts of either byte order, once another octet follows.
\<close>

theorem octstr_htonl_at_end:
  assumes "oct_rep s bs" and "length tmp = 4" and "length bs + 5 \<le> OCT_MAX"
  shows "\<exists>s' s''. octstr_append_htonl le junk tmp s v False = Some (5, s') \<and>
    oct_rep s' (bs @ be_bytes v) \<and> octstr_unpack_ntohl le' s' (int (length bs)) 4 = Some (- 1, None) \<and>
    octstr_append_oct junk s' x = Some s'' \<and>
    octstr_unpack_ntohl le' s'' (int (length bs)) 4 =
      Some (int (length bs) + 4, Some (ucast (ucast v :: u32)))"
proof -
  have len: "length (be_bytes v) = 4" by (simp add: be_bytes_def)
  obtain s' where s': "octstr_append_htonl le junk tmp s v False = Some (5, s')" "oct_rep s' (bs @ be_bytes v)"
    using append_htonl_ok(2) [OF assms(1,2), of le junk v] assms(3) by auto
  obtain s'' where s'': "octstr_append_oct junk s' x = Some s''" "oct_rep s'' (bs @ be_bytes v @ [ucast x])"
    using append_oct_ok [OF s'(2), of junk x] len assms(3) by auto
  have "octstr_unpack_ntohl le' s' (int (length bs)) 4 = Some (- 1, None)"
    using unpack_ntohl_ok [of s' bs "be_bytes v" "[]" le'] s'(2) len assms(3) by simp
  moreover have "be_word (be_bytes v) = (ucast v :: u32)" by (simp add: be_bytes_def be_word_mem)
  then have "octstr_unpack_ntohl le' s'' (int (length bs)) 4 =
      Some (int (length bs) + 4, Some (ucast (ucast v :: u32)))"
    using unpack_ntohl_ok [OF s''(2), of le'] len assms(3) by simp
  ultimately show ?thesis using s' s''(1) by blast
qed

theorem octstr_htonl_at_end_witness:
  "\<exists>s'. octstr_append_htonl True (\<lambda>_. 0) [0, 0, 0, 0] (mk_oct [7] [0]) 258 False = Some (5, s') \<and>
     octstr_unpack_ntohl True s' 1 4 = Some (- 1, None)"
  using octstr_htonl_at_end [of "mk_oct [7] [0]" "[7]" "[0, 0, 0, 0]" True "\<lambda>_. 0" 258 True]
    mk_oct_rep [of "[7]"] by (fastforce simp: OCT_MAX_def)

text \<open>The hexadecimal form has two digits per octet and determines the octets.\<close>

lemma octstr_hex_roundtrip:
  assumes "oct_rep s bs" and "2 * length bs \<le> OCT_MAX"
  shows "\<exists>h hs. octstr_to_hex junk s = Some h \<and> oct_rep h hs \<and> length hs = 2 * length bs \<and> hex_decode hs = bs"
proof -
  have "length (concat (map (\<lambda>x. take 2 (c_hex2 x)) bs)) = 2 * length bs"
    by (simp add: length_concat comp_def c_hex2_def sum_list_triv)
  then show ?thesis using to_hex_ok [OF assms, of junk] hex_decode_encode [of bs] by blast
qed

subsection \<open>Files\<close>

text \<open>
  C17: What \<open>octstr_save_to_file\<close> leaves in a file that held \<open>old\<close> before (nothing, if it is new), in
  whatever pieces \<open>write\<close> takes it: the octets of the string followed by the part of the old content
  behind them, because the file is opened without truncation. \<open>octstr_load_from_file\<close> makes a string of
  exactly the content of the file, in whatever pieces \<open>read\<close> delivers it. So the saved string is
  loaded again exactly if the file was not longer than it. If \<open>open\<close> fails both report it and the
  file stays; if a \<open>write\<close> fails, the result is -1 and the first octets are overwritten.
\<close>

theorem octstr_file_roundtrip:
  assumes "oct_rep s bs" and "length bs \<le> OCT_MAX" and "length old \<le> OCT_MAX"
    and "sum_list ns = length bs" and "\<forall>n \<in> set ns. 0 < n"
    and "concat cs = bs @ drop (length bs) old" and "\<forall>c \<in> set cs. c \<noteq> [] \<and> length c \<le> 1024000"
  shows "octstr_save_to_file s True old (map int ns) = Some (int (length bs), concat cs) \<and>
    (\<exists>s'. octstr_load_from_file junk True (map ReadBytes cs @ [ReadBytes []]) = Some (Some s') \<and>
       oct_rep s' (concat cs)) \<and>
    (concat cs = bs \<longleftrightarrow> length old \<le> length bs) \<and>
    octstr_save_to_file s False old ws = Some (- 1, old) \<and>
    octstr_load_from_file junk False rs = Some None \<and>
    (\<forall>ms. sum_list ms < length bs \<longrightarrow> (\<forall>n \<in> set ms. 0 < n) \<longrightarrow>
       octstr_save_to_file s True old (map int ms @ [- 1]) =
         Some (- 1, take (sum_list ms) bs @ drop (sum_list ms) old))"
proof (intro conjI allI impI)
  show "octstr_save_to_file s True old (map int ns) = Some (int (length bs), concat cs)"
    using save_loop_ok [OF assms(1), of 0 ns] assms(4-6) by (simp add: octstr_save_to_file_def)
  obtain s0 where "octstr_create junk NoSrc 0 = Some s0" "oct_rep s0 []"
    using create_empty [of junk] by blast
  moreover have "length (concat cs) \<le> OCT_MAX" unfolding assms(6) using assms(2,3) by simp
  ultimately show "\<exists>s'. octstr_load_from_file junk True (map ReadBytes cs @ [ReadBytes []]) =
      Some (Some s') \<and> oct_rep s' (concat cs)"
    using load_loop_ok [of s0 "[]" cs junk] assms(7) by (simp add: octstr_load_from_file_def)
  show "concat cs = bs \<longleftrightarrow> length old \<le> length bs" unfolding assms(6) by simp
next
  fix ms :: "nat list"
  assume "sum_list ms < length bs" "\<forall>n \<in> set ms. 0 < n"
  then show "octstr_save_to_file s True old (map int ms @ [- 1]) =
      Some (- 1, take (sum_list ms) bs @ drop (sum_list ms) old)"
    using save_loop_error [OF assms(1), of 0 ms "[]" old] by (simp add: octstr_save_to_file_def)
qed (simp_all add: octstr_save_to_file_def octstr_load_from_file_def)

text \<open>A new file, and a file of five bytes that keeps its tail.\<close>

theorem octstr_file_roundtrip_witness:
  "octstr_save_to_file (mk_oct [1, 2, 3] [0]) True [] [2, 1] = Some (3, [1, 2, 3]) \<and>
   (\<exists>s'. octstr_load_from_file (\<lambda>_. 7) True [ReadBytes [1], ReadBytes [2, 3], ReadBytes []] = Some (Some s') \<and>
      oct_rep s' [1, 2, 3]) \<and>
   octstr_save_to_file (mk_oct [1, 2, 3] [0]) True [9, 9, 9, 8, 7] [2, 1] = Some (3, [1, 2, 3, 8, 7])"
  using octstr_file_roundtrip [of "mk_oct [1, 2, 3] [0]" "[1, 2, 3]" "[]" "[2, 1]" "[[1], [2, 3]]" "\<lambda>_. 7"]
    octstr_file_roundtrip [of "mk_oct [1, 2, 3] [0]" "[1, 2, 3]" "[9, 9, 9, 8, 7]" "[2, 1]"
      "[[1, 2, 3, 8, 7]]" "\<lambda>_. 7"]
    mk_oct_rep [of "[1, 2, 3]"] by (simp add: OCT_MAX_def)

subsection \<open>Where the buffer is misused\<close>

text \<open>
  C18: Appending a string to itself: the source pointer is fetched before the buffer is reallocated, so
  the result is the doubled string if the buffer has room for it, and undefined (a read of freed
  memory) whenever the buffer has to grow.
\<close>

theorem octstr_append_self:
  assumes "oct_rep s bs" and "bs \<noteq> []" and "2 * length bs \<le> OCT_MAX"
  shows "if octstr_grows s (int (2 * length bs)) then octstr_append junk s Same = None
    else \<exists>s'. octstr_append junk s Same = Some s' \<and> oct_rep s' (bs @ bs)"
  by (rule append_same_ok [OF assms])

theorem octstr_append_self_witness:
  "octstr_append (\<lambda>_. 7) (mk_oct [1] [0]) Same = None \<and>
   (\<exists>s'. octstr_append (\<lambda>_. 7) (mk_oct [1] (0 # replicate 1100 0)) Same = Some s' \<and> oct_rep s' [1, 1])"
proof -
  have "octstr_new_size 2 = 1024" by (simp add: octstr_new_size_def octstr_calc_size_def)
  then have "octstr_grows (mk_oct [1] [0]) 2" "\<not> octstr_grows (mk_oct [1] (0 # replicate 1100 0)) 2"
    by (simp_all add: octstr_grows_def)
  moreover have "oct_rep (mk_oct [1] (0 # replicate 1100 0)) [1]" by (rule oct_repI) simp_all
  ultimately show ?thesis
    using octstr_append_self [of "mk_oct [1] [0]" "[1]" "\<lambda>_. 7"] mk_oct_rep [of "[1]"]
      octstr_append_self [of "mk_oct [1] (0 # replicate 1100 0)" "[1]" "\<lambda>_. 7"]
    by (simp add: OCT_MAX_def)
qed

text \<open>
  C19: \<open>octstr_resize\<close> of a string of at least 1024 octets to a small size leaves a string whose
  length is its whole buffer, without room for a zero: \<open>octstr_set_bits\<close> on its first byte then
  writes behind the buffer.
\<close>

theorem octstr_resize_overflow:
  assumes "oct_rep s bs" and "1024 \<le> length bs" and "unat v < 256"
  shows "\<exists>s'. octstr_resize junk s 10 = Some s' \<and> os_len s' = 1024 \<and> os_size s' = 1024 \<and>
    octstr_set_bits junk' s' 0 8 v = None"
proof -
  obtain r where r: "s = mk_oct bs r" "length bs + length r < 2147483648"
    using assms(1) by (rule oct_repE)
  define b where "b = (take 1024 (bs @ r))[1023 := 0]"
  have b: "length b = 1024" using assms(2) by (simp add: b_def)
  have "[length bs + length r..<1024] = []" using assms(2) by simp
  moreover have "octstr_calc_size (to_size 11) = 1024" by (simp add: octstr_calc_size_def)
  ultimately have res: "octstr_resize junk s 10 = Some \<lparr>os_s = Some b, os_len = 1024, os_size = 1024\<rparr>"
    using assms(2) r by (auto simp: octstr_resize_def octstr_alloc_def octstr_wr_def c_write_def mk_oct_def
        b_def Let_def)
  have sz: "bytes_of_bits 8 = 1" "octstr_new_size 1 = 1024"
    by (simp_all add: bytes_of_bits_def octstr_new_size_def octstr_calc_size_def)
  obtain b' where b': "bits_set b (int 0) (int 8) v = Some b'" "set_inv b 0 (0 + 8) v (0 + 8) b'"
    using bits_set_ok [of 8 0 b v] b assms(3) by auto
  then have "length b' = 1024" using b by (simp add: set_inv_def)
  then have "octstr_set_bits junk' \<lparr>os_s = Some b, os_len = 1024, os_size = 1024\<rparr> 0 8 v = None"
    using b'(1) sz by (simp add: octstr_set_bits_def octstr_grow_def octstr_grows_def octstr_wr_def
        c_write_def Let_def)
  then show ?thesis using res by auto
qed

theorem octstr_resize_overflow_witness:
  "\<exists>s'. octstr_resize (\<lambda>_. 7) (mk_oct (replicate 2000 1) [0]) 10 = Some s' \<and>
     octstr_set_bits (\<lambda>_. 7) s' 0 8 255 = None"
proof -
  have "oct_rep (mk_oct (replicate 2000 1) [0]) (replicate 2000 1)" by (rule oct_repI) simp_all
  then show ?thesis
    using octstr_resize_overflow [of "mk_oct (replicate 2000 1) [0]" "replicate 2000 1" 255] by force
qed

end
