(* ===== verification/Spec2Isabelle.thy ===== *)
theory Spec2Isabelle
  imports BfPrelude Counter CounterThreads Netint Uintvar Bits BinHeap BinHeapCorrect BinHeapOps
    RbTree RbShape RbInsert RbDelete RbQuery RbMap
    TailQueue TailQueueOps TailQueueSeq
    SysTime ETimer ETimerOps ETimerRun ETimerProps AddrWatch AddrWatchProps
    OctStr OctStrText OctStrOps OctStrCodec OctStrSearch OctStrEdit OctStrProps
begin

text \<open>
  Verification of bflib, a C library of data structures and small services.

  \<^bold>\<open>The program.\<close> Six components stand alone: a wrapping counter shared by threads (counter.c),
  variable-length integers (uintvar.c), byte order (netint.c), bit fields (bits.c), a binary heap with
  position records (heap.c), and a red-black tree with parent pointers (tree.c). The linked list
  (list.c) wraps the tail queue of \<open>sys/queue.h\<close>. On top of them, octet strings (octstr.c) use bits.c,
  uintvar.c and netint.c for fields inside a string; the event timer (timer.c) keeps its events in a
  heap and hands the due ones over in a list, between a thread in \<open>etimer_run\<close> and any number of
  clients; the address watcher (addrwatch.c) keeps its addresses in a list. All of them are
  modelled, every function.

  \<^bold>\<open>How C is read.\<close> BfPrelude fixes it. A C function is a HOL function into \<open>option\<close> where it can have
  undefined behaviour or may not end: \<open>None\<close> is a bad memory access, a signed overflow, a bad
  shift, an allocator that breaks its contract, a wait that never ends or a loop that runs for ever, so
  a theorem with \<open>f x = Some r\<close> includes memory safety and termination. Errors the code reports (\<open>-1\<close>,
  \<open>NULL\<close>) are results inside \<open>Some\<close>. Loops are structural recursion, \<open>function\<close> with a measure,
  or \<open>partial_function (option)\<close>; no fuel is used. Unsigned integers that
  wrap are words (\<open>u8\<close>, \<open>u32\<close>, \<open>u64\<close>); \<open>int\<close> and \<open>long\<close> are HOL integers with \<open>c_int\<close>, \<open>c_long\<close> at
  signed operations and \<open>to_int\<close>, \<open>to_long\<close>, \<open>to_size\<close> at conversions, wherever the range can be left.
  Memory is a store from addresses to nodes, items or heads where the code has pointers (tree, list,
  items of the watcher), and the record itself where it owns a block (heap, octet string).
  \<open>malloc\<close> is an argument that gives an unused address; other parts of the environment (\<open>qsort\<close>,
  files, \<open>iconv\<close>, sockets, the clock, \<open>epoll\<close>) are arguments as well, with what the code relies on
  as hypotheses.

  \<^bold>\<open>Theories.\<close>
  \<^item> Counter, CounterThreads (counter.c): \<open>counter_next\<close>, \<open>counter_ctl\<close>, \<open>counter_reset\<close> one after the other,
    and as the step relation \<open>cstep\<close> over the accesses of any number of threads with the mutex
    (\<open>counter->n++\<close> is a read and a write). The locked bodies are shown to be atomic (a simulation), so
    the numbers handed out run through the range in a cycle; the read of \<open>min\<close> outside the lock in
    \<open>counter_reset\<close> is shown to lose an update.
  \<^item> Netint (netint.c), Uintvar (uintvar.c), Bits (bits.c): the codecs on byte arrays with the bounds of the
    buffers and of the shifts; round trips, frames, and the inputs they do not mask or reject
    (\<open>spill\<close>: the bits that \<open>bits_set\<close> changes outside the field).
  \<^item> BinHeap (the code of heap.c), BinHeapCorrect (the items as a list, heap order, position records, and
    the functional behaviour of insertion, minimum and removal), BinHeapOps (build, search, repair, the checker).
    The locale \<open>prio_queue\<close> is the contract of a queue; it is established for the heap under
    every total preorder (\<open>sublocale comparator \<subseteq> pq\<close>), and the timer uses it.
  \<^item> RbTree (the code of tree.c, one definition per function, the delete cases \<open>tree_delete1\<close> to \<open>6\<close>
    included), RbShape (trees as values with addresses, and contexts of a node), RbInsert and RbDelete (the
    red-black invariants through the rotations), RbQuery (folds, statistics, the checker, which does not
    look at the parent pointer of the root, the destruction),
    RbMap (the locale \<open>dict\<close>, its instance, and the properties). The tree is shown to behave as a finite
    map over any run of operations.
  \<^item> TailQueue (the code of list.c with the macros of \<open>sys/queue.h\<close> on cells), TailQueueOps
    (\<open>list_at\<close>: a list in the store as a sequence of items; every operation acts on it, with a frame), TailQueueSeq
    (the locale \<open>sequences\<close>, its instance for any allocator \<open>list_alloc\<close>, the derived operations, the sort,
    and the two operations that do not do what their names say). The comparison function of \<open>list_sort\<close>
    is called by \<open>qsort\<close> with pointers to the cells of the array (\<open>cell_ptr\<close>), not with the values.
  \<^item> OctStr, OctStrText (the code of octstr.c: the buffer with all its bytes, and the functions of the C
    library it calls), OctStrOps, OctStrCodec, OctStrSearch, OctStrEdit (\<open>oct_rep\<close>: a string as the list of its octets;
    what each operation does to it), OctStrProps (the refinement over runs of operations and
    the inputs that go wrong). A file is its content: saving overlays what it held before, as the code
    does not truncate it. A fill behind the end of a string leaves octets that the model takes from
    the old buffer and the fresh memory, so it is shown that they are not determined.
  \<^item> SysTime (\<open>struct timeval\<close>), ETimer (the code of timer.c; \<open>etimer_run\<close> is cut at the places
    where the lock is free into \<open>etimer_run_step\<close>), ETimerOps (\<open>et_pending\<close>: a timer as the multiset of its
    events; what each operation does to it; temporary lists), ETimerRun (the step relation \<open>etimer_step\<close>
    of the runner, its clients and its callbacks, the invariant \<open>sys_inv\<close>, the absence of lost wakeups,
    and one round of the runner), ETimerProps (the properties). In the step relation a client that adds
    an event creates it and inserts it in two steps (\<open>create\<close>, \<open>insert\<close>), and one that cancels takes it
    out, calls it and frees it in three (\<open>take\<close>, \<open>call\<close>, \<open>release\<close>), with anything in between.
  \<^item> AddrWatch (the code of addrwatch.c), AddrWatchProps (\<open>watcher_at\<close>: a watcher as a sequence of
    addresses with their last states; \<open>watch_spec\<close> and \<open>loop_spec\<close>, a round of probes and the loop on it; the
    properties). Every probe has its own answers of the system, and the search for an address is
    undefined if it meets an item that has been freed.

  \<^bold>\<open>Interfaces.\<close> The locale \<open>comparator\<close> is the contract of a comparison function, a total preorder. It
  is interpreted for the order of deadlines (\<open>ev\<close>), for \<open>memcmp\<close> on octets (\<open>oct_order\<close>) and, as
  part of \<open>allocated\<close>, for the difference of integers (\<open>int_tree\<close>). \<open>prio_queue\<close>, \<open>dict\<close> and \<open>sequences\<close>
  are the contracts that the heap, the tree and the list give; they hold for the models of the code
  by \<open>sublocale\<close>, for any comparison function and any allocator.

  \<^bold>\<open>Bounds.\<close> Octet strings and lists are assumed shorter than \<open>2 ^ 31\<close> where the code keeps a length in
  an \<open>int\<close>; the position records of the heap hold in general. The seconds of the timer are bounded by
  \<open>10 ^ 15\<close> and those of the watcher by \<open>10 ^ 11\<close>, which keeps the sums in milliseconds and microseconds
  inside \<open>long\<close>. \<open>etimer_calls_due_events\<close> bounds the number of steps of the runner by the number of
  events plus four.

  \<^bold>\<open>Not modelled.\<close> die.c prints a message and exits. bflib.h only includes the other headers, and
  one by a name that does not exist. \<open>malloc\<close> is taken to succeed, as the code takes it (it never
  looks at the result). Functions that only free are modelled by what is left of the store. The
  callbacks of folds and of \<open>list_foreach\<close> are pure functions or the list of the values they are called on. The
  creation of the timer's pipe and \<open>epoll\<close> descriptor is taken to succeed, \<open>epoll_wait\<close> may return
  at any time, with or without the pipe, and the threads of the timer interleave at the boundaries of
  critical sections, calls of callbacks, allocations and releases. The mutexes of \<open>list_lock\<close> are modelled, but no operation of list.c
  uses them. The tests and the build files are left out.
\<close>

end
